(* ===== verification/Go_Prelude.thy ===== *)
theory Go_Prelude
  imports Main "HOL-Library.Word" "HOL-Library.Multiset"
begin

text \<open>
  The vocabulary shared by every component: Go strings and byte slices, 64-bit integers with their
  wrap-around, Go's \<^verbatim>\<open>error\<close> interface as one datatype of sentinel values, the result type of
  fallible calls, decimal formatting as \<^verbatim>\<open>strconv\<close> does it, and the generic facts on lists
  and sorting that the component proofs use.
\<close>

section \<open>Collections of rewrite rules\<close>

text \<open>What an operation leaves alone: the component theories add to it, and their proofs pass it to the simplifier.\<close>

named_theorems frame_rules \<open>parts of the state that an operation does not change\<close>

section \<open>Byte strings\<close>

text \<open>
  A Go \<^verbatim>\<open>string\<close> is a sequence of bytes, not of code points; so is a \<^verbatim>\<open>[]byte\<close>. Both are
  Isabelle \<^typ>\<open>string\<close>s, whose characters are exactly the 8-bit values.
\<close>

type_synonym byte = char
type_synonym bytes = "char list"

abbreviation byte_val :: "byte \<Rightarrow> nat" where
  "byte_val c \<equiv> of_char c"

abbreviation mk_byte :: "nat \<Rightarrow> byte" where
  "mk_byte n \<equiv> char_of n"

lemma byte_val_less [simp]: "byte_val c < 256"
  by (simp add: of_char_def)

lemma byte_val_mk_byte [simp]: "n < 256 \<Longrightarrow> byte_val (mk_byte n) = n"
  by (simp add: of_char_of)

lemma mk_byte_eq_iff: "n < 256 \<Longrightarrow> mk_byte n = c \<longleftrightarrow> n = byte_val c"
  by (metis byte_val_mk_byte char_of_char)

section \<open>Lists\<close>

lemma list_all2_snoc [simp]: "list_all2 P (xs @ [x]) (ys @ [y]) \<longleftrightarrow> list_all2 P xs ys \<and> P x y"
  by (cases "length xs = length ys") (auto simp: list_all2_append dest: list_all2_lengthD)

lemma list_all_sort_key [simp]: "list_all P (sort_key f xs) = list_all P xs"
  by (simp add: list_all_iff)

lemma map_insort_key: "map f (insort_key (g \<circ> f) x xs) = insort_key g (f x) (map f xs)"
  by (induction xs) simp_all

lemma map_sort_key: "map f (sort_key (g \<circ> f) xs) = sort_key g (map f xs)"
  by (induction xs) (simp_all add: map_insort_key [unfolded comp_def] comp_def)

section \<open>Signed 64-bit integers\<close>

text \<open>
  An \<^verbatim>\<open>int64\<close> (and an \<^verbatim>\<open>int\<close> on the 64-bit platforms the service targets) is an integer in
  the two's complement range; \<open>wrap64\<close> is what the hardware does to a result outside it.
\<close>

type_synonym int64 = int

definition wrap64 :: "int \<Rightarrow> int64" where
  "wrap64 i = (i + 2 ^ 63) mod 2 ^ 64 - 2 ^ 63"

definition int64_range :: "int \<Rightarrow> bool" where
  "int64_range i \<longleftrightarrow> - (2 ^ 63) \<le> i \<and> i < 2 ^ 63"

lemma int64_range_wrap64 [simp]: "int64_range (wrap64 i)"
proof -
  have "0 \<le> (i + 2 ^ 63) mod 2 ^ 64" and "(i + 2 ^ 63) mod 2 ^ 64 < 2 ^ 64"
    by simp_all
  then show ?thesis by (simp add: int64_range_def wrap64_def)
qed

lemma wrap64_id: "int64_range i \<Longrightarrow> wrap64 i = i"
  by (simp add: int64_range_def wrap64_def)

lemma wrap64_sint: "wrap64 (sint (w :: 64 word)) = sint w"
  using sint_greater_eq [of w] sint_lt [of w] by (intro wrap64_id) (simp add: int64_range_def)

lemma int64_range_sint [simp]: "int64_range (sint (w :: 64 word))"
  using sint_greater_eq [of w] sint_lt [of w] by (simp add: int64_range_def)

section \<open>Errors\<close>

text \<open>
  What the operating system can answer to a system call the service makes. \<open>EOTHER\<close> stands for
  every errno the code does not distinguish.
\<close>

datatype os_error = ENOENT | EEXIST | EBADF_CLOSED | EOTHER nat

text \<open>The errors of \<^verbatim>\<open>encoding/gob\<close> and of the reader below it.\<close>

datatype gob_error = Gob_EOF | Gob_UnexpectedEOF | Gob_Duplicate_Type | Gob_Bad_Data | Gob_Too_Big

text \<open>
  Go's \<^verbatim>\<open>error\<close> interface. Sentinel errors are compared by identity, so each
  \<^verbatim>\<open>errors.New\<close> of the source is a constructor of its own, prefixed by its package where two
  packages use one name. \<open>Errorf\<close> is \<^verbatim>\<open>fmt.Errorf\<close>: a message and, with \<^verbatim>\<open>%w\<close>, the error it
  wraps. The absence of an error (\<^verbatim>\<open>nil\<close>) is \<open>None\<close>.
\<close>

datatype go_error =
    Compute_ErrInvalidCommand
  | Compute_ErrInvalidArgument
  | Compute_ErrEmptyCommand
  | Storage_ErrInvalidLogger
  | Storage_ErrKeyNotFound
  | InMemory_ErrInvalidLogger
  | InMemory_ErrFailedGenerateLSN
  | InMemory_ErrCreateWal
  | Filesystem_ErrFailedSaveFile
  | Filesystem_ErrFailedFileCreate
  | Filesystem_ErrFailedResolveSegmentPath
  | Filesystem_ErrInvalidWorkingFolder
  | Filesystem_ErrFailedToCreateDirectory
  | Wal_ErrFailedToReadDirectory
  | Wal_ErrFailedOpenLastSegment
  | Wal_ErrInvalidLogger
  | Wal_ErrFailedDecode
  | Wal_ErrApplyRecord
  | Initialization_ErrInvalidLogger
  | Network_ErrInvalidLogger
  | Network_ErrInvalidConfig
  | Network_ErrInvalidMaxConn
  | Network_ErrInvalidBufferSize
  | Io_EOF
  | Net_ErrClosed
  | NetError nat
  | OsError os_error
  | GobError gob_error
  | Errorf string "go_error option"

type_synonym 'a result = "go_error + 'a"

text \<open>\<^verbatim>\<open>errors.Is\<close>: the error itself or anything it wraps.\<close>

fun errors_Is :: "go_error \<Rightarrow> go_error \<Rightarrow> bool" where
  "errors_Is (Errorf m w) t =
     (Errorf m w = t \<or> (case w of None \<Rightarrow> False | Some e \<Rightarrow> errors_Is e t))"
| "errors_Is e t = (e = t)"

lemma errors_Is_refl [simp]: "errors_Is e e"
  by (cases e) simp_all

section \<open>Loggers\<close>

text \<open>
  A \<^verbatim>\<open>*slog.Logger\<close> is the handler it writes through: the pretty handler with a minimum level, or
  the handler that drops every record. A nil pointer is \<open>None\<close>. What the handlers print is not part
  of any result, so log calls leave no trace in the model.
\<close>

datatype slog_level = LevelDebug | LevelInfo | LevelWarn | LevelError

datatype logger = PrettyLogger slog_level | DiscardLogger

section \<open>Decimal numbers\<close>

text \<open>\<^verbatim>\<open>strconv.FormatInt(i, 10)\<close> and the \<^verbatim>\<open>%d\<close> verb.\<close>

definition digit_char :: "nat \<Rightarrow> char" where
  "digit_char d = mk_byte (48 + d)"

fun format_nat :: "nat \<Rightarrow> string" where
  "format_nat n = (if n < 10 then [digit_char n] else format_nat (n div 10) @ [digit_char (n mod 10)])"

declare format_nat.simps [simp del]

definition FormatInt :: "int \<Rightarrow> string" where
  "FormatInt i = (if i < 0 then CHR ''-'' # format_nat (nat (- i)) else format_nat (nat i))"

text \<open>
  \<^verbatim>\<open>strconv.ParseInt(s, 10, 64)\<close>: an optional sign and at least one digit; a syntax error and an
  out-of-range value are both \<^verbatim>\<open>err != nil\<close>, which is all the code looks at.
\<close>

definition is_digit_char :: "char \<Rightarrow> bool" where
  "is_digit_char c \<longleftrightarrow> 48 \<le> byte_val c \<and> byte_val c \<le> 57"

fun parse_digits :: "nat \<Rightarrow> string \<Rightarrow> nat option" where
  "parse_digits acc [] = Some acc"
| "parse_digits acc (c # cs) =
     (if is_digit_char c then parse_digits (10 * acc + (byte_val c - 48)) cs else None)"

definition parse_nat :: "string \<Rightarrow> nat option" where
  "parse_nat s = (if s = [] then None else parse_digits 0 s)"

definition ParseInt :: "string \<Rightarrow> int option" where
  "ParseInt s =
     (let (neg, ds) = (case s of
          c # cs \<Rightarrow> if c = CHR ''-'' then (True, cs) else if c = CHR ''+'' then (False, cs) else (False, s)
        | [] \<Rightarrow> (False, s))
      in case parse_nat ds of
           None \<Rightarrow> None
         | Some n \<Rightarrow> (let i = (if neg then - int n else int n)
                     in if int64_range i then Some i else None))"

lemma byte_val_digit_char [simp]: "d < 10 \<Longrightarrow> byte_val (digit_char d) = 48 + d"
  by (simp add: digit_char_def)

lemma is_digit_char_digit_char [simp]: "d < 10 \<Longrightarrow> is_digit_char (digit_char d)"
  by (simp add: is_digit_char_def)

lemma parse_digits_append:
  "parse_digits acc (xs @ ys) =
     (case parse_digits acc xs of None \<Rightarrow> None | Some n \<Rightarrow> parse_digits n ys)"
  by (induction xs arbitrary: acc) auto

lemma format_nat_nonempty [simp]: "format_nat n \<noteq> []"
  by (subst format_nat.simps) simp

lemma format_nat_digits: "c \<in> set (format_nat n) \<Longrightarrow> is_digit_char c"
proof (induction n rule: format_nat.induct)
  case (1 n)
  then show ?case
    by (cases "n < 10") (auto simp: format_nat.simps [of n])
qed

lemma parse_digits_format_nat: "parse_digits 0 (format_nat n) = Some n"
proof (induction n rule: format_nat.induct)
  case (1 n)
  then show ?case
    by (cases "n < 10") (auto simp: format_nat.simps [of n] parse_digits_append)
qed

lemma parse_nat_format_nat [simp]: "parse_nat (format_nat n) = Some n"
  by (simp add: parse_nat_def parse_digits_format_nat)

text \<open>Formatting an \<^verbatim>\<open>int64\<close> and parsing it back is the identity.\<close>

lemma ParseInt_FormatInt [simp]:
  assumes "int64_range i"
  shows "ParseInt (FormatInt i) = Some i"
proof (cases "i < 0")
  case True
  with assms show ?thesis by (simp add: ParseInt_def FormatInt_def)
next
  case False
  obtain c cs where fmt: "format_nat (nat i) = c # cs"
    by (cases "format_nat (nat i)") auto
  have "is_digit_char c"
    using fmt by (intro format_nat_digits [of _ "nat i"]) simp
  then have "c \<noteq> CHR ''-''" and "c \<noteq> CHR ''+''"
    by (auto simp: is_digit_char_def)
  with False fmt assms show ?thesis
    using parse_nat_format_nat [of "nat i"] by (simp add: ParseInt_def FormatInt_def)
qed

end
