(* ===== verification/Hash_Table.thy ===== *)
theory Hash_Table
  imports Go_Prelude
begin

text \<open>
  The two leaf components of package \<^verbatim>\<open>inmemory\<close>: the hash table (hash_table.go), with the
  interface through which its clients use it as a locale, and the LSN generator (id_generator.go),
  with its two atomic operations as separate steps.
\<close>

section \<open>The interface of a key-value table\<close>

text \<open>
  What a table promises to a client that writes through \<^verbatim>\<open>Set\<close> and \<^verbatim>\<open>Del\<close>
  (\<^verbatim>\<open>wal.CommandHashTable\<close>): the map it stands for is updated at that key and nowhere else. A table
  with reads also promises that \<^verbatim>\<open>Get\<close> answers from that map.
\<close>

locale command_table =
  fixes tset :: "string \<Rightarrow> string \<Rightarrow> 't \<Rightarrow> 't"
    and tdel :: "string \<Rightarrow> 't \<Rightarrow> 't"
    and view :: "'t \<Rightarrow> string \<Rightarrow> string option"
  assumes view_set: "view (tset k v t) = (view t)(k := Some v)"
    and view_del: "view (tdel k t) = (view t)(k := None)"
begin

lemma view_del_set: "view (tdel k (tset k v t)) = view (tdel k t)"
  by (simp add: view_set view_del)

lemma view_set_set: "view (tset k w (tset k v t)) = view (tset k w t)"
  by (simp add: view_set)

lemma view_del_absent: "view t k = None \<Longrightarrow> view (tdel k t) = view t"
  by (auto simp: view_del)

lemma view_set_commute: "k \<noteq> l \<Longrightarrow> view (tset k v (tset l w t)) = view (tset l w (tset k v t))"
  by (simp add: view_set fun_upd_twist)

end

locale kv_table = command_table tset tdel view
  for tset :: "string \<Rightarrow> string \<Rightarrow> 't \<Rightarrow> 't" and tdel :: "string \<Rightarrow> 't \<Rightarrow> 't"
    and view :: "'t \<Rightarrow> string \<Rightarrow> string option" +
  fixes tempty :: 't
    and tget :: "string \<Rightarrow> 't \<Rightarrow> string \<times> bool"
  assumes view_empty: "view tempty = (\<lambda>_. None)"
    and get_view: "tget k t = (case view t k of Some v \<Rightarrow> (v, True) | None \<Rightarrow> ('''', False))"
begin

lemma get_set: "tget k (tset l v t) = (if k = l then (v, True) else tget k t)"
  by (simp add: get_view view_set)

lemma get_del: "tget k (tdel l t) = (if k = l then ('''', False) else tget k t)"
  by (simp add: get_view view_del)

lemma get_empty: "tget k tempty = ('''', False)"
  by (simp add: get_view view_empty)

end

section \<open>The hash table (hash_table.go)\<close>

text \<open>
  Each method runs under the table's \<^verbatim>\<open>RWMutex\<close> from its first statement to its return, so it is
  one atomic operation on the map.
\<close>

record HashTable =
  ht_data :: "string \<Rightarrow> string option"

definition NewHashTable :: HashTable where
  "NewHashTable = \<lparr>ht_data = (\<lambda>_. None)\<rparr>"

definition HashTable_Set :: "string \<Rightarrow> string \<Rightarrow> HashTable \<Rightarrow> HashTable" where
  "HashTable_Set key val h = h\<lparr>ht_data := (ht_data h)(key := Some val)\<rparr>"

definition HashTable_Get :: "string \<Rightarrow> HashTable \<Rightarrow> string \<times> bool" where
  "HashTable_Get key h = (case ht_data h key of None \<Rightarrow> ('''', False) | Some result \<Rightarrow> (result, True))"

definition HashTable_Del :: "string \<Rightarrow> HashTable \<Rightarrow> HashTable" where
  "HashTable_Del key h = h\<lparr>ht_data := (ht_data h)(key := None)\<rparr>"

interpretation ht: kv_table HashTable_Set HashTable_Del ht_data NewHashTable HashTable_Get
  by unfold_locales
    (auto simp: HashTable_Set_def HashTable_Del_def NewHashTable_def HashTable_Get_def
      split: option.splits)

lemma HashTable_eqI: "ht_data h = ht_data h' \<Longrightarrow> h = (h' :: HashTable)"
  by (cases h; cases h') simp

section \<open>The LSN generator (id_generator.go)\<close>

record IDGenerator =
  counter :: "64 word"

definition MaxInt64 :: "64 word" where
  "MaxInt64 = 2 ^ 63 - 1"

definition NewIDGenerator :: "64 word \<Rightarrow> IDGenerator" where
  "NewIDGenerator previousID = \<lparr>counter = previousID\<rparr>"

text \<open>The two atomic operations of \<^verbatim>\<open>Generate\<close>, and \<^verbatim>\<open>Generate\<close> run without interference.\<close>

definition gen_CompareAndSwap :: "IDGenerator \<Rightarrow> IDGenerator" where
  "gen_CompareAndSwap gen = (if counter gen = MaxInt64 then gen\<lparr>counter := 0\<rparr> else gen)"

definition gen_Add :: "IDGenerator \<Rightarrow> 64 word \<times> IDGenerator" where
  "gen_Add gen = (counter gen + 1, gen\<lparr>counter := counter gen + 1\<rparr>)"

definition Generate :: "IDGenerator \<Rightarrow> 64 word \<times> IDGenerator" where
  "Generate gen = gen_Add (gen_CompareAndSwap gen)"

lemmas gen_defs = NewIDGenerator_def gen_CompareAndSwap_def gen_Add_def Generate_def

text \<open>
  Concurrent callers: the atomic operations of all goroutines in the order they happen. The run
  yields the identifiers in the order of the additions.
\<close>

datatype gen_event = EvCAS nat | EvAdd nat

fun gen_run :: "IDGenerator \<Rightarrow> gen_event list \<Rightarrow> (nat \<times> 64 word) list" where
  "gen_run gen [] = []"
| "gen_run gen (EvCAS g # es) = gen_run (gen_CompareAndSwap gen) es"
| "gen_run gen (EvAdd g # es) = (case gen_Add gen of (x, gen') \<Rightarrow> (g, x) # gen_run gen' es)"

fun is_add :: "gen_event \<Rightarrow> bool" where
  "is_add (EvAdd g) = True"
| "is_add (EvCAS g) = False"

text \<open>The events one goroutine contributes: its calls of \<^verbatim>\<open>Generate\<close>, each a CAS and then an add.\<close>

fun gen_calls :: "nat \<Rightarrow> gen_event list \<Rightarrow> bool" where
  "gen_calls g [] = True"
| "gen_calls g [e] = False"
| "gen_calls g (e # f # es) = (e = EvCAS g \<and> f = EvAdd g \<and> gen_calls g es)"

definition gen_goroutine :: "gen_event \<Rightarrow> nat" where
  "gen_goroutine e = (case e of EvCAS g \<Rightarrow> g | EvAdd g \<Rightarrow> g)"

definition gen_schedule :: "gen_event list \<Rightarrow> bool" where
  "gen_schedule es \<longleftrightarrow>
     (\<forall>g \<in> set (map gen_goroutine es). gen_calls g (filter (\<lambda>e. gen_goroutine e = g) es))"

lemma unat_counter_lt: "k < 2 ^ 63 \<Longrightarrow> unat (of_nat k :: 64 word) = k"
  by (simp add: unat_of_nat take_bit_nat_eq_self)

lemma sint_of_small_nat: "k < 2 ^ 63 \<Longrightarrow> sint (of_nat k :: 64 word) = int k"
  by (simp add: sint_uint uint_nat unat_counter_lt signed_take_bit_int_eq_self)

lemma of_nat_MaxInt64: "k < 2 ^ 63 \<Longrightarrow> (of_nat k :: 64 word) = MaxInt64 \<longleftrightarrow> k = 2 ^ 63 - 1"
proof -
  assume k: "k < 2 ^ 63"
  have "MaxInt64 = of_nat (2 ^ 63 - 1)" by (simp add: MaxInt64_def)
  then show ?thesis using k unat_counter_lt [of k] unat_counter_lt [of "2 ^ 63 - 1"] by force
qed

lemma gen_run_no_adds: "filter is_add es = [] \<Longrightarrow> gen_run gen es = []"
proof (induction es arbitrary: gen)
  case (Cons e es)
  then show ?case by (cases e) simp_all
qed simp

lemma gen_run_increasing:
  "k + length (filter is_add es) < 2 ^ 63 \<Longrightarrow>
   map (sint \<circ> snd) (gen_run \<lparr>counter = of_nat k\<rparr> es) =
     map int [Suc k..<Suc (k + length (filter is_add es))]"
proof (induction es arbitrary: k)
  case (Cons e es)
  show ?case
  proof (cases e)
    case (EvCAS g)
    show ?thesis
    proof (cases "filter is_add es = []")
      case True
      then have "gen_run gen es = []" for gen :: IDGenerator by (rule gen_run_no_adds)
      moreover have "filter is_add (e # es) = []" using EvCAS True by simp
      ultimately show ?thesis using EvCAS by (simp only: gen_run.simps) simp
    next
      case False
      then have "Suc k \<le> k + length (filter is_add es)" by (cases "filter is_add es") auto
      moreover have "k + length (filter is_add es) < 2 ^ 63" using Cons.prems EvCAS by simp
      ultimately have "k < 2 ^ 63 - 1" by linarith
      then have "gen_CompareAndSwap \<lparr>counter = of_nat k\<rparr> = \<lparr>counter = of_nat k\<rparr>"
        using of_nat_MaxInt64 [of k] by (simp add: gen_CompareAndSwap_def)
      with Cons EvCAS show ?thesis by simp
    qed
  next
    case (EvAdd g)
    have *: "Suc k + length (filter is_add es) < 2 ^ 63"
      using Cons.prems EvAdd by simp
    have "(of_nat k + 1 :: 64 word) = of_nat (Suc k)" by simp
    moreover have "sint (of_nat (Suc k) :: 64 word) = int (Suc k)"
      using * by (intro sint_of_small_nat) simp
    ultimately show ?thesis
      using Cons.IH [OF *] EvAdd
      by (simp add: gen_Add_def upt_conv_Cons del: of_nat_Suc upt_Suc)
  qed
qed simp

text \<open>
  Under every interleaving of any number of goroutines, the generator hands out 1, 2, 3, ... in
  the order of the atomic additions: as long as fewer than \<open>2^63\<close> identifiers have been produced since
  \<^verbatim>\<open>NewIDGenerator(0)\<close>, no two callers share one and none is zero or negative.
\<close>

theorem gen_run_from_zero:
  assumes "length (filter is_add es) < 2 ^ 63"
  shows "map (sint \<circ> snd) (gen_run (NewIDGenerator 0) es) = map int [1..<Suc (length (filter is_add es))]"
  using gen_run_increasing [of 0 es] assms by (simp add: NewIDGenerator_def)

theorem gen_run_from_zero_witness:
  "map (sint \<circ> snd) (gen_run (NewIDGenerator 0) [EvCAS 0, EvCAS 1, EvAdd 1, EvAdd 0]) = [1, 2]"
  using gen_run_from_zero [of "[EvCAS 0, EvCAS 1, EvAdd 1, EvAdd 0]"]
  by (simp add: upt_rec)

lemma Generate_sint:
  assumes "0 \<le> sint (counter gen)"
  shows "sint (fst (Generate gen)) = (if counter gen = MaxInt64 then 1 else sint (counter gen) + 1) \<and>
    0 < sint (fst (Generate gen)) \<and> 0 \<le> sint (counter (snd (Generate gen)))"
proof -
  have eq: "sint (fst (Generate gen)) = (if counter gen = MaxInt64 then 1 else sint (counter gen) + 1)"
  proof (cases "counter gen = MaxInt64")
    case False
    then have "sint (counter gen) \<noteq> sint MaxInt64" by (auto dest: signed_word_eqI)
    then have "sint (counter gen) + 1 < 2 ^ 63"
      using sint_lt [of "counter gen"] by (simp add: MaxInt64_def)
    then have "sint (counter gen + 1) = sint (counter gen) + 1"
      using assms by (simp add: sint_word_ariths signed_take_bit_int_eq_self)
    with False show ?thesis by (simp add: gen_defs)
  qed (simp add: gen_defs)
  with assms have "0 < sint (fst (Generate gen))" by simp
  moreover have "counter (snd (Generate gen)) = fst (Generate gen)" by (simp add: gen_defs)
  ultimately show ?thesis using eq by simp
qed

lemmas Generate_sint_pos = Generate_sint [THEN conjunct2]

text \<open>
  Without interference the generator wraps from the largest \<^verbatim>\<open>int64\<close> back to 1, so that
  starting from any non-negative counter it returns a positive identifier: \<^verbatim>\<open>Generate\<close> never returns
  the 0 that \<^verbatim>\<open>Engine.Set\<close> and \<^verbatim>\<open>Engine.Del\<close> treat as a failure.
\<close>

theorem Generate_positive:
  assumes "0 \<le> sint (counter gen)"
  shows "sint (fst (Generate gen)) = (if counter gen = MaxInt64 then 1 else sint (counter gen) + 1) \<and>
    0 < sint (fst (Generate gen)) \<and> 0 \<le> sint (counter (snd (Generate gen)))"
  using Generate_sint [OF assms] by simp

theorem Generate_positive_witness:
  "0 \<le> sint (counter (NewIDGenerator MaxInt64)) \<and>
   sint (fst (Generate (NewIDGenerator MaxInt64))) = 1"
proof -
  have h: "0 \<le> sint (counter (NewIDGenerator MaxInt64))"
    by (simp add: NewIDGenerator_def MaxInt64_def)
  from Generate_positive [OF h] h show ?thesis by (simp add: NewIDGenerator_def)
qed

text \<open>
  The wrap-around is not atomic: two goroutines that both pass the compare-and-swap while the
  counter is one below the largest \<^verbatim>\<open>int64\<close> make the second addition overflow, and its caller gets the
  most negative \<^verbatim>\<open>int64\<close> instead of 1.
\<close>

theorem gen_run_wrap_race:
  "gen_schedule [EvCAS 0, EvCAS 1, EvAdd 0, EvAdd 1] \<and>
   map (\<lambda>(g, x). (g, sint x)) (gen_run (NewIDGenerator (MaxInt64 - 1)) [EvCAS 0, EvCAS 1, EvAdd 0, EvAdd 1])
     = [(0, 2 ^ 63 - 1), (1, - (2 ^ 63))]"
  by (simp add: gen_schedule_def gen_goroutine_def gen_defs MaxInt64_def)

end
