(* ===== verification/Context_Id.thy ===== *)
theory Context_Id
  imports Go_Prelude
begin

text \<open>
  Package \<^verbatim>\<open>internal/lib/context_util\<close>: the transaction id (LSN) carried by a context. A context is its
  chain of \<^verbatim>\<open>WithValue\<close> bindings, newest first; its cancellation is modelled where it is used.
\<close>

text \<open>Keys are compared with their type: \<^verbatim>\<open>ctxKey\<close> is a type of its own.\<close>

datatype ctx_key = CtxKey string | OtherKey nat

datatype ctx_value = StringVal string | OtherVal nat

type_synonym ctx = "(ctx_key \<times> ctx_value) list"

definition WithValue :: "ctx \<Rightarrow> ctx_key \<Rightarrow> ctx_value \<Rightarrow> ctx" where
  "WithValue ctx key value = (key, value) # ctx"

definition ctx_Value :: "ctx \<Rightarrow> ctx_key \<Rightarrow> ctx_value option" where
  "ctx_Value ctx key = map_of ctx key"

definition TxIDKey :: ctx_key where
  "TxIDKey = CtxKey ''TxID''"

definition GetTxIDFromContext :: "ctx \<Rightarrow> int64" where
  "GetTxIDFromContext ctx =
     (case ctx_Value ctx TxIDKey of
        Some (StringVal idStr) \<Rightarrow> (case ParseInt idStr of None \<Rightarrow> 0 | Some n \<Rightarrow> n)
      | _ \<Rightarrow> 0)"

lemma GetTxID_FormatInt [simp]:
  "int64_range i \<Longrightarrow> GetTxIDFromContext (WithValue ctx TxIDKey (StringVal (FormatInt i))) = i"
  by (simp add: GetTxIDFromContext_def WithValue_def ctx_Value_def)

lemma GetTxID_absent: "TxIDKey \<notin> fst ` set ctx \<Longrightarrow> GetTxIDFromContext ctx = 0"
  by (simp add: GetTxIDFromContext_def ctx_Value_def map_of_eq_None_iff [THEN iffD2])

lemma GetTxID_range: "int64_range (GetTxIDFromContext ctx)"
  by (auto simp: GetTxIDFromContext_def ParseInt_def int64_range_def Let_def
      split: option.splits ctx_value.splits if_splits prod.splits)

end
