(* ===== verification/Concurrency.thy ===== *)
theory Concurrency
  imports Go_Prelude
begin

text \<open>
  Package \<^verbatim>\<open>internal/concurrency\<close>: Go channels as the package uses them, \<^verbatim>\<open>Promise\<close> and
  \<^verbatim>\<open>Future\<close> (promise.go, future.go), the counting \<^verbatim>\<open>Semaphore\<close> built on \<^verbatim>\<open>sync.Cond\<close>
  (semaphore.go) as a step relation over any number of goroutines, and \<^verbatim>\<open>WithLock\<close> (with_lock.go).
\<close>

section \<open>Channels\<close>

text \<open>
  A channel is a reference into a heap, because a \<^verbatim>\<open>Promise\<close> is copied by value while its channel
  is shared. An operation completes, blocks, or panics.
\<close>

type_synonym chan_ref = nat

record 'a chan =
  ch_cap :: nat
  ch_buf :: "'a list"
  ch_closed :: bool

record 'a chan_heap =
  ch_next :: chan_ref
  ch_at :: "chan_ref \<Rightarrow> 'a chan option"

datatype 'a outcome = Done 'a | Blocks | Panics string

text \<open>What follows an operation runs only when it completes.\<close>

fun outcome_bind :: "'a outcome \<Rightarrow> ('a \<Rightarrow> 'b outcome) \<Rightarrow> 'b outcome" where
  "outcome_bind (Done x) f = f x"
| "outcome_bind Blocks f = Blocks"
| "outcome_bind (Panics m) f = Panics m"

lemma outcome_bind_DoneE:
  assumes "outcome_bind r f = Done y"
  obtains x where "r = Done x" "f x = Done y"
  using assms by (cases r) auto

definition empty_heap :: "'a chan_heap" where
  "empty_heap = \<lparr>ch_next = 0, ch_at = (\<lambda>_. None)\<rparr>"

definition make_chan :: "nat \<Rightarrow> 'a chan_heap \<Rightarrow> chan_ref \<times> 'a chan_heap" where
  "make_chan n h =
     (ch_next h,
      h\<lparr>ch_next := Suc (ch_next h),
        ch_at := (ch_at h)(ch_next h := Some \<lparr>ch_cap = n, ch_buf = [], ch_closed = False\<rparr>)\<rparr>)"

definition chan_send :: "chan_ref \<Rightarrow> 'a \<Rightarrow> 'a chan_heap \<Rightarrow> 'a chan_heap outcome" where
  "chan_send c v h = (case ch_at h c of
       None \<Rightarrow> Blocks
     | Some ch \<Rightarrow>
         if ch_closed ch then Panics ''send on closed channel''
         else if length (ch_buf ch) < ch_cap ch
         then Done (h\<lparr>ch_at := (ch_at h)(c := Some (ch\<lparr>ch_buf := ch_buf ch @ [v]\<rparr>))\<rparr>)
         else Blocks)"

definition chan_close :: "chan_ref \<Rightarrow> 'a chan_heap \<Rightarrow> 'a chan_heap outcome" where
  "chan_close c h = (case ch_at h c of
       None \<Rightarrow> Panics ''close of nil channel''
     | Some ch \<Rightarrow>
         if ch_closed ch then Panics ''close of closed channel''
         else Done (h\<lparr>ch_at := (ch_at h)(c := Some (ch\<lparr>ch_closed := True\<rparr>))\<rparr>))"

text \<open>Receiving from a closed, drained channel yields the zero value at once.\<close>

definition chan_recv :: "'a \<Rightarrow> chan_ref \<Rightarrow> 'a chan_heap \<Rightarrow> ('a \<times> 'a chan_heap) outcome" where
  "chan_recv zero c h = (case ch_at h c of
       None \<Rightarrow> Blocks
     | Some ch \<Rightarrow> (case ch_buf ch of
           v # vs \<Rightarrow> Done (v, h\<lparr>ch_at := (ch_at h)(c := Some (ch\<lparr>ch_buf := vs\<rparr>))\<rparr>)
         | [] \<Rightarrow> if ch_closed ch then Done (zero, h) else Blocks))"

lemmas chan_defs = make_chan_def chan_send_def chan_close_def chan_recv_def

section \<open>Promise and Future\<close>

record 'a Promise =
  prom_result :: chan_ref
  promised :: bool

record 'a Future =
  fut_result :: chan_ref

definition NewPromise :: "'a chan_heap \<Rightarrow> 'a Promise \<times> 'a chan_heap" where
  "NewPromise h = (case make_chan 1 h of (c, h') \<Rightarrow> (\<lparr>prom_result = c, promised = False\<rparr>, h'))"

definition Promise_Set :: "'a \<Rightarrow> 'a Promise \<Rightarrow> 'a chan_heap \<Rightarrow> ('a Promise \<times> 'a chan_heap) outcome" where
  "Promise_Set value p h =
     (if promised p then Done (p, h)
      else let p' = p\<lparr>promised := True\<rparr> in
        (case chan_send (prom_result p) value h of
           Done h1 \<Rightarrow> (case chan_close (prom_result p) h1 of
               Done h2 \<Rightarrow> Done (p', h2) | Blocks \<Rightarrow> Blocks | Panics m \<Rightarrow> Panics m)
         | Blocks \<Rightarrow> Blocks
         | Panics m \<Rightarrow> Panics m))"

definition NewFuture :: "chan_ref \<Rightarrow> 'a Future" where
  "NewFuture c = \<lparr>fut_result = c\<rparr>"

definition GetFuture :: "'a Promise \<Rightarrow> 'a Future" where
  "GetFuture p = NewFuture (prom_result p)"

definition Future_Get :: "'a \<Rightarrow> 'a Future \<Rightarrow> 'a chan_heap \<Rightarrow> ('a \<times> 'a chan_heap) outcome" where
  "Future_Get zero f h = chan_recv zero (fut_result f) h"

lemmas promise_defs = NewPromise_def Promise_Set_def NewFuture_def GetFuture_def Future_Get_def

text \<open>What a promise's channel can look like during its life.\<close>

definition fresh_chan :: "'a chan" where
  "fresh_chan = \<lparr>ch_cap = 1, ch_buf = [], ch_closed = False\<rparr>"

definition resolved_chan :: "'a \<Rightarrow> 'a chan" where
  "resolved_chan v = \<lparr>ch_cap = 1, ch_buf = [v], ch_closed = True\<rparr>"

definition drained_chan :: "'a chan" where
  "drained_chan = \<lparr>ch_cap = 1, ch_buf = [], ch_closed = True\<rparr>"

lemmas chan_state_defs = fresh_chan_def resolved_chan_def drained_chan_def

lemma NewPromise_fresh:
  "NewPromise h = (p, h') \<Longrightarrow>
     \<not> promised p \<and> ch_at h' (prom_result p) = Some fresh_chan \<and> prom_result p = ch_next h \<and>
     ch_next h' = Suc (ch_next h) \<and> (\<forall>c. c \<noteq> ch_next h \<longrightarrow> ch_at h' c = ch_at h c)"
  by (auto simp: promise_defs chan_defs fresh_chan_def)

lemma Promise_Set_fresh:
  "\<not> promised p \<Longrightarrow> ch_at h (prom_result p) = Some fresh_chan \<Longrightarrow>
     Promise_Set v p h =
       Done (p\<lparr>promised := True\<rparr>, h\<lparr>ch_at := (ch_at h)(prom_result p := Some (resolved_chan v))\<rparr>)"
  by (simp add: promise_defs chan_defs chan_state_defs)

lemma Future_Get_states:
  "ch_at h (fut_result f) = Some fresh_chan \<Longrightarrow> Future_Get zero f h = Blocks"
  "ch_at h (fut_result f) = Some (resolved_chan v) \<Longrightarrow>
     Future_Get zero f h = Done (v, h\<lparr>ch_at := (ch_at h)(fut_result f := Some drained_chan)\<rparr>)"
  "ch_at h (fut_result f) = Some drained_chan \<Longrightarrow> Future_Get zero f h = Done (zero, h)"
  by (simp_all add: promise_defs chan_defs chan_state_defs)

text \<open>
  A promise is one-shot: a future blocks until the promise is set, the first \<^verbatim>\<open>Get\<close> after
  \<^verbatim>\<open>Set\<close> delivers the value, every later \<^verbatim>\<open>Get\<close> delivers the zero value, and a second \<^verbatim>\<open>Set\<close> on
  the resolved promise changes nothing.
\<close>

theorem promise_one_shot:
  assumes "NewPromise h = (p, h1)"
  shows "Future_Get zero (GetFuture p) h1 = Blocks \<and>
    (\<exists>p2 h2 h3. Promise_Set v p h1 = Done (p2, h2) \<and>
       (\<forall>w. Promise_Set w p2 h2 = Done (p2, h2)) \<and>
       Future_Get zero (GetFuture p) h2 = Done (v, h3) \<and>
       Future_Get zero (GetFuture p) h3 = Done (zero, h3))"
proof -
  have p: "\<not> promised p" "ch_at h1 (prom_result p) = Some fresh_chan"
    using NewPromise_fresh [OF assms] by auto
  let ?p2 = "p\<lparr>promised := True\<rparr>"
  let ?h2 = "h1\<lparr>ch_at := (ch_at h1)(prom_result p := Some (resolved_chan v))\<rparr>"
  let ?h3 = "h1\<lparr>ch_at := (ch_at h1)(prom_result p := Some drained_chan)\<rparr>"
  have fut: "fut_result (GetFuture p) = prom_result p" by (simp add: promise_defs)
  have "Promise_Set v p h1 = Done (?p2, ?h2)" using p by (rule Promise_Set_fresh)
  moreover have "Promise_Set w ?p2 ?h2 = Done (?p2, ?h2)" for w by (simp add: Promise_Set_def)
  moreover have "Future_Get zero (GetFuture p) ?h2 = Done (v, ?h3)"
    using Future_Get_states(2) [of ?h2 "GetFuture p" v zero] by (simp add: fut)
  moreover have "Future_Get zero (GetFuture p) ?h3 = Done (zero, ?h3)"
    using Future_Get_states(3) [of ?h3 "GetFuture p" zero] by (simp add: fut)
  moreover have "Future_Get zero (GetFuture p) h1 = Blocks"
    using Future_Get_states(1) [of h1 "GetFuture p" zero] p by (simp add: fut)
  ultimately show ?thesis by metis
qed

theorem promise_one_shot_witness:
  "\<exists>p h1. NewPromise empty_heap = (p, h1) \<and>
     Future_Get (0::nat) (GetFuture p) h1 = Blocks \<and>
     (\<exists>p2 h2 h3. Promise_Set 7 p h1 = Done (p2, h2) \<and>
        (\<forall>w. Promise_Set w p2 h2 = Done (p2, h2)) \<and>
        Future_Get 0 (GetFuture p) h2 = Done (7, h3) \<and>
        Future_Get 0 (GetFuture p) h3 = Done (0, h3))"
proof -
  obtain p h1 where n: "NewPromise (empty_heap :: nat chan_heap) = (p, h1)" by fastforce
  with promise_one_shot [OF n, of 0 7] show ?thesis by blast
qed

text \<open>
  The guard against a second \<^verbatim>\<open>Set\<close> is a field of the \<^verbatim>\<open>Promise\<close> value, not of the shared
  channel: once one copy of a promise has been set, setting another copy that was taken before panics
  with a send on a closed channel. The WAL copies promises by value into its batch, so it must resolve
  only the batch's copy.
\<close>

theorem promise_copy_set_panics:
  assumes "NewPromise h = (p, h1)" and "Promise_Set v p h1 = Done (p2, h2)"
  shows "Promise_Set w p h2 = Panics ''send on closed channel''"
proof -
  have p: "\<not> promised p" "ch_at h1 (prom_result p) = Some fresh_chan"
    using NewPromise_fresh [OF assms(1)] by auto
  with assms(2) have "h2 = h1\<lparr>ch_at := (ch_at h1)(prom_result p := Some (resolved_chan v))\<rparr>"
    by (simp add: Promise_Set_fresh)
  with p show ?thesis by (simp add: Promise_Set_def chan_send_def resolved_chan_def)
qed

theorem promise_copy_set_panics_witness:
  "\<exists>p h1 p2 h2. NewPromise empty_heap = (p, h1) \<and> Promise_Set (7::nat) p h1 = Done (p2, h2) \<and>
     Promise_Set 8 p h2 = Panics ''send on closed channel''"
proof -
  obtain p h1 where n: "NewPromise (empty_heap :: nat chan_heap) = (p, h1)" by fastforce
  then have "\<not> promised p" "ch_at h1 (prom_result p) = Some fresh_chan"
    using NewPromise_fresh by auto
  then have s: "Promise_Set 7 p h1 = Done (p\<lparr>promised := True\<rparr>,
      h1\<lparr>ch_at := (ch_at h1)(prom_result p := Some (resolved_chan 7))\<rparr>)"
    by (rule Promise_Set_fresh)
  from promise_copy_set_panics [OF n s, of 8] n s show ?thesis by blast
qed

section \<open>WithLock\<close>

text \<open>
  \<^verbatim>\<open>WithLock(mutex, action)\<close>: a nil action returns at once, without touching the mutex; otherwise the
  mutex is taken (which blocks while someone holds it), the action runs, and the mutex is released.
  The state is the pair of the mutex (held or not) and what the action works on.
\<close>

definition WithLock :: "('s \<Rightarrow> 's) option \<Rightarrow> bool \<times> 's \<Rightarrow> (bool \<times> 's) outcome" where
  "WithLock action ms = (case action of
       None \<Rightarrow> Done ms
     | Some act \<Rightarrow> if fst ms then Blocks else Done (False, act (snd ms)))"

section \<open>Semaphore\<close>

text \<open>
  The fields of the struct, with the goroutines parked in \<^verbatim>\<open>condition.Wait\<close>, those a \<^verbatim>\<open>Signal\<close> has
  woken that have not re-checked the loop condition yet, and those past \<^verbatim>\<open>Acquire\<close> that still owe a
  \<^verbatim>\<open>Release\<close>. Each method runs under the condition's mutex between its waits, so each of its
  sections between waits is one step.
\<close>

record Semaphore =
  sem_count :: int
  sem_max :: int
  sem_waiting :: "nat list"
  sem_woken :: "nat list"
  sem_holders :: "nat list"

definition NewSemaphore :: "int \<Rightarrow> Semaphore" where
  "NewSemaphore limit =
     \<lparr>sem_count = 0, sem_max = limit, sem_waiting = [], sem_woken = [], sem_holders = []\<rparr>"

definition sem_take :: "nat \<Rightarrow> Semaphore \<Rightarrow> Semaphore" where
  "sem_take g s = s\<lparr>sem_count := sem_count s + 1, sem_holders := g # sem_holders s\<rparr>"

text \<open>
  \<^verbatim>\<open>Acquire\<close>: the loop test on entry (\<open>acquire_now\<close>, \<open>acquire_park\<close>) and again after every wake-up
  (\<open>wake_now\<close>, \<open>wake_park\<close>). \<^verbatim>\<open>Release\<close>: the decrement, and \<^verbatim>\<open>Signal\<close>, which wakes one waiter if
  there is one; which one is not determined.
\<close>

inductive sem_step :: "Semaphore \<Rightarrow> Semaphore \<Rightarrow> bool" where
  acquire_now: "\<not> sem_count s \<ge> sem_max s \<Longrightarrow> sem_step s (sem_take g s)"
| acquire_park: "sem_count s \<ge> sem_max s \<Longrightarrow> sem_step s (s\<lparr>sem_waiting := sem_waiting s @ [g]\<rparr>)"
| wake_now: "sem_woken s = us @ g # vs \<Longrightarrow> \<not> sem_count s \<ge> sem_max s \<Longrightarrow>
     sem_step s (sem_take g (s\<lparr>sem_woken := us @ vs\<rparr>))"
| wake_park: "sem_woken s = us @ g # vs \<Longrightarrow> sem_count s \<ge> sem_max s \<Longrightarrow>
     sem_step s (s\<lparr>sem_woken := us @ vs, sem_waiting := sem_waiting s @ [g]\<rparr>)"
| release_idle: "sem_holders s = hs @ h # ks \<Longrightarrow> sem_waiting s = [] \<Longrightarrow>
     sem_step s (s\<lparr>sem_count := sem_count s - 1, sem_holders := hs @ ks\<rparr>)"
| release_signal: "sem_holders s = hs @ h # ks \<Longrightarrow> sem_waiting s = us @ g # vs \<Longrightarrow>
     sem_step s (s\<lparr>sem_count := sem_count s - 1, sem_holders := hs @ ks,
                   sem_waiting := us @ vs, sem_woken := sem_woken s @ [g]\<rparr>)"

inductive sem_reachable :: "int \<Rightarrow> Semaphore \<Rightarrow> bool" for limit where
  sem_start: "sem_reachable limit (NewSemaphore limit)"
| sem_next: "sem_reachable limit s \<Longrightarrow> sem_step s t \<Longrightarrow> sem_reachable limit t"

text \<open>
  The counter is the number of holders and never passes the limit; and while anybody waits, the free
  slots do not outnumber the woken goroutines, so no wake-up is lost.
\<close>

definition sem_inv :: "int \<Rightarrow> Semaphore \<Rightarrow> bool" where
  "sem_inv limit s \<longleftrightarrow> sem_max s = limit \<and> sem_count s = int (length (sem_holders s)) \<and>
     (0 \<le> limit \<longrightarrow> sem_count s \<le> limit) \<and>
     (sem_waiting s \<noteq> [] \<longrightarrow> limit \<le> sem_count s + int (length (sem_woken s)))"

lemma sem_step_inv: "sem_step s t \<Longrightarrow> sem_inv limit s \<Longrightarrow> sem_inv limit t"
  by (induction rule: sem_step.induct) (auto simp: sem_inv_def sem_take_def split: if_splits)

lemma sem_reachable_inv: "sem_reachable limit s \<Longrightarrow> sem_inv limit s"
proof (induction rule: sem_reachable.induct)
  case sem_start
  show ?case by (simp add: sem_inv_def NewSemaphore_def)
next
  case (sem_next s t)
  then show ?case by (blast intro: sem_step_inv)
qed

text \<open>
  C29. The semaphore bounds its holders and loses no wake-up: in every reachable state at most
  \<^verbatim>\<open>limit\<close> goroutines are past \<^verbatim>\<open>Acquire\<close>, the counter is exactly their number, and if some goroutine
  is parked while a slot is free then another one has been woken and can take that slot in its next
  step.
\<close>

theorem semaphore_bounded_no_lost_wakeup:
  assumes "sem_reachable limit s" and "0 < limit"
  shows "int (length (sem_holders s)) \<le> limit \<and> sem_count s = int (length (sem_holders s)) \<and>
    (sem_waiting s \<noteq> [] \<and> sem_count s < limit \<longrightarrow>
       (\<exists>g t. g \<in> set (sem_woken s) \<and> sem_step s t \<and> sem_holders t = g # sem_holders s))"
proof -
  have inv: "sem_inv limit s" using assms(1) by (rule sem_reachable_inv)
  have "\<exists>g t. g \<in> set (sem_woken s) \<and> sem_step s t \<and> sem_holders t = g # sem_holders s"
    if "sem_waiting s \<noteq> []" "sem_count s < limit"
  proof -
    from that inv have "sem_woken s \<noteq> []" by (auto simp: sem_inv_def)
    then obtain g vs where w: "sem_woken s = [] @ g # vs" by (cases "sem_woken s") auto
    moreover have "\<not> sem_count s \<ge> sem_max s" using that inv by (simp add: sem_inv_def)
    ultimately have "sem_step s (sem_take g (s\<lparr>sem_woken := [] @ vs\<rparr>))" by (rule wake_now)
    with w show ?thesis by (force simp: sem_take_def)
  qed
  with inv assms(2) show ?thesis by (simp add: sem_inv_def)
qed

theorem semaphore_bounded_no_lost_wakeup_witness:
  "\<exists>s. sem_reachable 1 s \<and> (0::int) < 1 \<and> sem_holders s = [] \<and> sem_waiting s = [2] \<and>
     int (length (sem_holders s)) \<le> 1 \<and>
     (\<exists>g t. g \<in> set (sem_woken s) \<and> sem_step s t \<and> sem_holders t = g # sem_holders s)"
proof -
  let ?s0 = "NewSemaphore 1"
  let ?s1 = "sem_take 0 ?s0"
  let ?s2 = "?s1\<lparr>sem_waiting := sem_waiting ?s1 @ [1]\<rparr>"
  let ?s3 = "?s2\<lparr>sem_waiting := sem_waiting ?s2 @ [2]\<rparr>"
  let ?s4 = "?s3\<lparr>sem_count := sem_count ?s3 - 1, sem_holders := [] @ [],
                   sem_waiting := [] @ [2], sem_woken := sem_woken ?s3 @ [1]\<rparr>"
  have t1: "sem_step ?s0 ?s1" by (rule acquire_now) (simp add: NewSemaphore_def)
  have t2: "sem_step ?s1 ?s2" by (rule acquire_park) (simp add: NewSemaphore_def sem_take_def)
  have t3: "sem_step ?s2 ?s3" by (rule acquire_park) (simp add: NewSemaphore_def sem_take_def)
  have t4: "sem_step ?s3 ?s4" by (rule release_signal) (simp_all add: NewSemaphore_def sem_take_def)
  have r: "sem_reachable 1 ?s4"
    by (rule sem_next [OF sem_next [OF sem_next [OF sem_next [OF sem_start t1] t2] t3] t4])
  define s where "s = ?s4"
  have s: "sem_holders s = []" "sem_waiting s = [2]" "sem_count s < 1"
    by (simp_all add: s_def NewSemaphore_def sem_take_def)
  have "sem_reachable 1 s" using r by (simp only: s_def)
  with semaphore_bounded_no_lost_wakeup [OF this] s show ?thesis
    by (intro exI [of _ s]) simp
qed

end
