(* ===== verification/Engine.thy ===== *)
theory Engine
  imports Hash_Table Context_Id Concurrency
begin

text \<open>
  The storage engine (engine.go): LSN assignment on the write side, reads straight from the hash table.
  The write side is reached through the interface \<^verbatim>\<open>CommandEngine\<close>, whose contract is the locale
  \<open>command_engine\<close>; what the engine promises in turn is the locale \<open>storage_engine\<close>.
\<close>

section \<open>The engine\<close>

text \<open>
  The methods of a \<^verbatim>\<open>CommandEngine\<close>, on the state \<^typ>\<open>'s\<close> they work on: a call may return an error,
  block for ever, or panic.
\<close>

record 's CommandEngine =
  ce_Set :: "ctx \<Rightarrow> string \<Rightarrow> string \<Rightarrow> 's \<Rightarrow> (go_error option \<times> 's) outcome"
  ce_Del :: "ctx \<Rightarrow> string \<Rightarrow> 's \<Rightarrow> (go_error option \<times> 's) outcome"

text \<open>
  \<^verbatim>\<open>QueryEngine\<close> holds a pointer to the hash table that the WAL writes to: following it is a function of
  the state.
\<close>

record 's QueryEngine =
  qe_hashTable :: "'s \<Rightarrow> HashTable"

record 's Engine =
  eng_log :: logger
  eng_currentLSN :: IDGenerator
  eng_commandEngine :: "'s CommandEngine"
  eng_queryEngine :: "'s QueryEngine"

definition NewEngine ::
    "logger option \<Rightarrow> 's CommandEngine option \<Rightarrow> ('s \<Rightarrow> HashTable) option \<Rightarrow> 's Engine result" where
  "NewEngine log wal hashTable =
     (case log of None \<Rightarrow> Inl InMemory_ErrInvalidLogger
      | Some l \<Rightarrow> (case wal of None \<Rightarrow> Inl InMemory_ErrCreateWal
          | Some w \<Rightarrow> (case hashTable of None \<Rightarrow> Inl InMemory_ErrCreateWal
              | Some ht \<Rightarrow> Inr \<lparr>eng_log = l, eng_currentLSN = NewIDGenerator 0, eng_commandEngine = w,
                  eng_queryEngine = \<lparr>qe_hashTable = ht\<rparr>\<rparr>)))"

text \<open>
  The engine's own state is the generator; the state of the system is the engine and what its
  dependencies work on.
\<close>

type_synonym 's engine_state = "'s Engine \<times> 's"

definition Engine_Set :: "ctx \<Rightarrow> string \<Rightarrow> string \<Rightarrow> 's engine_state \<Rightarrow> (go_error option \<times> 's engine_state) outcome" where
  "Engine_Set ctx key value st =
     (let (engine, s) = st;
          (txID, gen) = Generate (eng_currentLSN engine);
          engine1 = engine\<lparr>eng_currentLSN := gen\<rparr>
      in if txID = 0 then Done (Some InMemory_ErrFailedGenerateLSN, engine1, s)
         else let ctxCommand = WithValue ctx TxIDKey (StringVal (FormatInt (sint txID)))
              in outcome_bind (ce_Set (eng_commandEngine engine1) ctxCommand key value s) (\<lambda>(err, s'). Done (err, engine1, s')))"

definition Engine_Del :: "ctx \<Rightarrow> string \<Rightarrow> 's engine_state \<Rightarrow> (go_error option \<times> 's engine_state) outcome" where
  "Engine_Del ctx key st =
     (let (engine, s) = st;
          (txID, gen) = Generate (eng_currentLSN engine);
          engine1 = engine\<lparr>eng_currentLSN := gen\<rparr>
      in if txID = 0 then Done (Some InMemory_ErrFailedGenerateLSN, engine1, s)
         else let ctxCommand = WithValue ctx TxIDKey (StringVal (FormatInt (sint txID)))
              in outcome_bind (ce_Del (eng_commandEngine engine1) ctxCommand key s) (\<lambda>(err, s'). Done (err, engine1, s')))"

definition Engine_Get :: "ctx \<Rightarrow> string \<Rightarrow> 's engine_state \<Rightarrow> string result" where
  "Engine_Get ctx key st =
     (case HashTable_Get key (qe_hashTable (eng_queryEngine (fst st)) (snd st)) of
        (result, ok) \<Rightarrow> if \<not> ok then Inl Storage_ErrKeyNotFound else Inr result)"

section \<open>What the engine relies on and what it promises\<close>

text \<open>
  A write through \<^verbatim>\<open>CommandEngine\<close> returns; with nil it has had its effect on the table, with an error it
  has had none.
\<close>

locale command_engine =
  fixes cset :: "ctx \<Rightarrow> string \<Rightarrow> string \<Rightarrow> 's \<Rightarrow> (go_error option \<times> 's) outcome"
    and cdel :: "ctx \<Rightarrow> string \<Rightarrow> 's \<Rightarrow> (go_error option \<times> 's) outcome"
    and table :: "'s \<Rightarrow> HashTable"
    and ok :: "'s \<Rightarrow> bool"
  assumes cset_returns: "ok s \<Longrightarrow> \<exists>err s'. cset ctx k v s = Done (err, s') \<and> ok s' \<and>
      ht_data (table s') = (if err = None then (ht_data (table s))(k := Some v) else ht_data (table s))"
    and cdel_returns: "ok s \<Longrightarrow> \<exists>err s'. cdel ctx k s = Done (err, s') \<and> ok s' \<and>
      ht_data (table s') = (if err = None then (ht_data (table s))(k := None) else ht_data (table s))"

text \<open>The contract of \<^verbatim>\<open>CommandStorage\<close> and \<^verbatim>\<open>QueryStorage\<close> together: writes as above, and reads of the same map.\<close>

locale storage_engine =
  fixes eset :: "ctx \<Rightarrow> string \<Rightarrow> string \<Rightarrow> 'e \<Rightarrow> (go_error option \<times> 'e) outcome"
    and edel :: "ctx \<Rightarrow> string \<Rightarrow> 'e \<Rightarrow> (go_error option \<times> 'e) outcome"
    and eget :: "ctx \<Rightarrow> string \<Rightarrow> 'e \<Rightarrow> string result"
    and view :: "'e \<Rightarrow> string \<Rightarrow> string option"
    and wf :: "'e \<Rightarrow> bool"
  assumes eset_returns: "wf e \<Longrightarrow> \<exists>err e'. eset ctx k v e = Done (err, e') \<and> wf e' \<and>
      view e' = (if err = None then (view e)(k := Some v) else view e)"
    and edel_returns: "wf e \<Longrightarrow> \<exists>err e'. edel ctx k e = Done (err, e') \<and> wf e' \<and>
      view e' = (if err = None then (view e)(k := None) else view e)"
    and eget_view: "wf e \<Longrightarrow> eget ctx k e = (case view e k of None \<Rightarrow> Inl Storage_ErrKeyNotFound | Some v \<Rightarrow> Inr v)"
begin

lemma eget_after_set: "wf e \<Longrightarrow> eset ctx k v e = Done (None, e') \<Longrightarrow> eget ctx' l e' = (if l = k then Inr v else eget ctx' l e)"
  using eset_returns [of e ctx k v] by (auto simp: eget_view)

lemma eget_after_del:
  "wf e \<Longrightarrow> edel ctx k e = Done (None, e') \<Longrightarrow> eget ctx' l e' = (if l = k then Inl Storage_ErrKeyNotFound else eget ctx' l e)"
  using edel_returns [of e ctx k] by (auto simp: eget_view)

lemma eget_after_failed_set: "wf e \<Longrightarrow> eset ctx k v e = Done (Some err, e') \<Longrightarrow> eget ctx' l e' = eget ctx' l e"
  using eset_returns [of e ctx k v] by (auto simp: eget_view)

end

text \<open>The engine over its dependencies: the generator has not gone negative, and the pointers are the wired ones.\<close>

definition engine_ok :: "'s CommandEngine \<Rightarrow> ('s \<Rightarrow> HashTable) \<Rightarrow> ('s \<Rightarrow> bool) \<Rightarrow> 's engine_state \<Rightarrow> bool" where
  "engine_ok wal table ok st \<longleftrightarrow> eng_commandEngine (fst st) = wal \<and> qe_hashTable (eng_queryEngine (fst st)) = table \<and>
     0 \<le> sint (counter (eng_currentLSN (fst st))) \<and> ok (snd st)"

text \<open>The context a write travels with, and the engine after its generator has advanced.\<close>

definition lsn_ctx :: "ctx \<Rightarrow> 's Engine \<Rightarrow> ctx" where
  "lsn_ctx ctx engine = WithValue ctx TxIDKey (StringVal (FormatInt (sint (fst (Generate (eng_currentLSN engine))))))"

definition next_lsn :: "'s Engine \<Rightarrow> 's Engine" where
  "next_lsn engine = engine\<lparr>eng_currentLSN := snd (Generate (eng_currentLSN engine))\<rparr>"

lemma Engine_writes:
  assumes "0 \<le> sint (counter (eng_currentLSN engine))"
  shows "Engine_Set ctx k v (engine, s) = outcome_bind (ce_Set (eng_commandEngine engine) (lsn_ctx ctx engine) k v s)
      (\<lambda>(err, s'). Done (err, next_lsn engine, s'))"
    and "Engine_Del ctx k (engine, s) = outcome_bind (ce_Del (eng_commandEngine engine) (lsn_ctx ctx engine) k s)
      (\<lambda>(err, s'). Done (err, next_lsn engine, s'))"
    and "0 < GetTxIDFromContext (lsn_ctx ctx engine)"
    and "0 \<le> sint (counter (eng_currentLSN (next_lsn engine)))"
  using Generate_sint_pos [OF assms]
  by (auto simp: Engine_Set_def Engine_Del_def lsn_ctx_def next_lsn_def Let_def split: prod.splits)

lemma engine_ok_next:
  "engine_ok wal table ok (engine, s) \<Longrightarrow> ok s' \<Longrightarrow> engine_ok wal table ok (next_lsn engine, s')"
  using Engine_writes(4) [of engine] by (simp add: engine_ok_def next_lsn_def)

sublocale command_engine \<subseteq> engine:
  storage_engine Engine_Set Engine_Del Engine_Get "\<lambda>st. ht_data (table (snd st))" "engine_ok \<lparr>ce_Set = cset, ce_Del = cdel\<rparr> table ok"
proof
  fix e :: "'s engine_state" and ctx k v
  let ?ok = "engine_ok \<lparr>ce_Set = cset, ce_Del = cdel\<rparr> table ok"
  assume e: "?ok e"
  obtain en s where es: "e = (en, s)" by fastforce
  have h: "0 \<le> sint (counter (eng_currentLSN en))" "ok s" "eng_commandEngine en = \<lparr>ce_Set = cset, ce_Del = cdel\<rparr>"
    using e by (simp_all add: engine_ok_def es)
  note step = Engine_writes(1,2) [OF h(1)] engine_ok_next [OF e [unfolded es]]
  show "\<exists>err e'. Engine_Set ctx k v e = Done (err, e') \<and> ?ok e' \<and>
      ht_data (table (snd e')) = (if err = None then (ht_data (table (snd e)))(k := Some v) else ht_data (table (snd e)))"
    using cset_returns [OF h(2), of "lsn_ctx ctx en" k v] step by (auto simp: es h(3))
  show "\<exists>err e'. Engine_Del ctx k e = Done (err, e') \<and> ?ok e' \<and>
      ht_data (table (snd e')) = (if err = None then (ht_data (table (snd e)))(k := None) else ht_data (table (snd e)))"
    using cdel_returns [OF h(2), of "lsn_ctx ctx en" k] step by (auto simp: es h(3))
  show "Engine_Get ctx k e = (case ht_data (table (snd e)) k of None \<Rightarrow> Inl Storage_ErrKeyNotFound | Some v \<Rightarrow> Inr v)"
    using e by (auto simp: Engine_Get_def engine_ok_def HashTable_Get_def split: option.splits)
qed


section \<open>LSN assignment\<close>

text \<open>
  Every write gets the next LSN: from a non-negative generator, \<^verbatim>\<open>Engine.Set\<close> and \<^verbatim>\<open>Engine.Del\<close> never
  fail by themselves, whatever the write side is. They call it once, with a context from which the WAL
  reads back the generator's next value, which is positive and follows the previous one (or is 1 after
  the largest \<^verbatim>\<open>int64\<close>), and return what it returns.
\<close>

theorem Engine_assigns_lsn:
  assumes "0 \<le> sint (counter (eng_currentLSN engine))"
  shows "\<exists>ctx' engine' lsn. 0 < lsn \<and> GetTxIDFromContext ctx' = lsn \<and> sint (counter (eng_currentLSN engine')) = lsn \<and>
    lsn = (if counter (eng_currentLSN engine) = MaxInt64 then 1 else sint (counter (eng_currentLSN engine)) + 1) \<and>
    Engine_Set ctx k v (engine, s) =
      outcome_bind (ce_Set (eng_commandEngine engine) ctx' k v s) (\<lambda>(err, s'). Done (err, engine', s')) \<and>
    Engine_Del ctx k (engine, s) =
      outcome_bind (ce_Del (eng_commandEngine engine) ctx' k s) (\<lambda>(err, s'). Done (err, engine', s'))"
proof (intro exI conjI)
  let ?lsn = "sint (fst (Generate (eng_currentLSN engine)))"
  show "0 < ?lsn" "?lsn = (if counter (eng_currentLSN engine) = MaxInt64 then 1 else sint (counter (eng_currentLSN engine)) + 1)"
    using Generate_sint [OF assms] by simp_all
  show "GetTxIDFromContext (lsn_ctx ctx engine) = ?lsn" by (simp add: lsn_ctx_def)
  show "sint (counter (eng_currentLSN (next_lsn engine))) = ?lsn" by (simp add: next_lsn_def gen_defs)
qed (rule Engine_writes [OF assms])+

theorem Engine_assigns_lsn_witness:
  "\<exists>engine :: nat Engine. 0 \<le> sint (counter (eng_currentLSN engine)) \<and> eng_currentLSN engine = NewIDGenerator 41 \<and>
    (\<exists>ctx' engine'. GetTxIDFromContext ctx' = 42 \<and> sint (counter (eng_currentLSN engine')) = 42 \<and>
       Engine_Set [] ''k'' ''v'' (engine, 7) = Done (None, engine', 8))"
proof -
  define wal :: "nat CommandEngine" where "wal = \<lparr>ce_Set = \<lambda>_ _ _ s. Done (None, Suc s), ce_Del = \<lambda>_ _ s. Done (None, s)\<rparr>"
  define engine :: "nat Engine" where "engine = \<lparr>eng_log = DiscardLogger, eng_currentLSN = NewIDGenerator 41,
    eng_commandEngine = wal, eng_queryEngine = \<lparr>qe_hashTable = \<lambda>_. NewHashTable\<rparr>\<rparr>"
  have g: "eng_currentLSN engine = NewIDGenerator 41" by (simp add: engine_def)
  have h: "0 \<le> sint (counter (eng_currentLSN engine))" by (simp add: g NewIDGenerator_def)
  from Engine_assigns_lsn [OF h, of "[]" "''k''" "''v''" 7] have
    "\<exists>ctx' engine'. GetTxIDFromContext ctx' = 42 \<and> sint (counter (eng_currentLSN engine')) = 42 \<and>
       Engine_Set [] ''k'' ''v'' (engine, 7) = Done (None, engine', 8)"
    by (auto simp: g NewIDGenerator_def MaxInt64_def engine_def wal_def)
  with g h show ?thesis by blast
qed

end
