(* ===== verification/Storage.thy ===== *)
theory Storage
  imports Engine
begin

text \<open>
  The storage facade (storage.go) over an engine behind the interfaces \<^verbatim>\<open>CommandStorage\<close> and
  \<^verbatim>\<open>QueryStorage\<close>. It logs and passes every result on; what the layers above rely on is the locale
  \<open>storage_layer\<close>.
\<close>

section \<open>The facade\<close>

record 'e CommandStorage =
  cs_Set :: "ctx \<Rightarrow> string \<Rightarrow> string \<Rightarrow> 'e \<Rightarrow> (go_error option \<times> 'e) outcome"
  cs_Del :: "ctx \<Rightarrow> string \<Rightarrow> 'e \<Rightarrow> (go_error option \<times> 'e) outcome"

record 'e QueryStorage =
  qs_Get :: "ctx \<Rightarrow> string \<Rightarrow> 'e \<Rightarrow> string result"

record 'e Storage =
  stg_log :: logger
  stg_commandStorage :: "'e CommandStorage"
  stg_queryStorage :: "'e QueryStorage"

text \<open>The engine is one value of both interfaces.\<close>

definition NewStorage :: "logger option \<Rightarrow> 'e CommandStorage \<times> 'e QueryStorage \<Rightarrow> 'e Storage result" where
  "NewStorage log eng =
     (case log of None \<Rightarrow> Inl Storage_ErrInvalidLogger
      | Some l \<Rightarrow> Inr \<lparr>stg_log = l, stg_commandStorage = fst eng, stg_queryStorage = snd eng\<rparr>)"

definition Storage_Set :: "'e Storage \<Rightarrow> ctx \<Rightarrow> string \<Rightarrow> string \<Rightarrow> 'e \<Rightarrow> (go_error option \<times> 'e) outcome" where
  "Storage_Set stg ctx key value e =
     outcome_bind (cs_Set (stg_commandStorage stg) ctx key value e) (\<lambda>(err, e').
       case err of Some x \<Rightarrow> Done (Some x, e') | None \<Rightarrow> Done (None, e'))"

definition Storage_Get :: "'e Storage \<Rightarrow> ctx \<Rightarrow> string \<Rightarrow> 'e \<Rightarrow> string result" where
  "Storage_Get stg ctx key e =
     (case qs_Get (stg_queryStorage stg) ctx key e of Inl err \<Rightarrow> Inl err | Inr result \<Rightarrow> Inr result)"

text \<open>
  The two branches of the error case of \<^verbatim>\<open>Del\<close> (and of \<^verbatim>\<open>Get\<close>) differ only in the level of the log
  entry.
\<close>

definition Storage_Del :: "'e Storage \<Rightarrow> ctx \<Rightarrow> string \<Rightarrow> 'e \<Rightarrow> (go_error option \<times> 'e) outcome" where
  "Storage_Del stg ctx key e =
     outcome_bind (cs_Del (stg_commandStorage stg) ctx key e) (\<lambda>(err, e').
       case err of Some x \<Rightarrow> Done (Some x, e') | None \<Rightarrow> Done (None, e'))"

section \<open>What the facade promises\<close>

locale storage_layer =
  fixes sset :: "ctx \<Rightarrow> string \<Rightarrow> string \<Rightarrow> 'e \<Rightarrow> (go_error option \<times> 'e) outcome"
    and sdel :: "ctx \<Rightarrow> string \<Rightarrow> 'e \<Rightarrow> (go_error option \<times> 'e) outcome"
    and sget :: "ctx \<Rightarrow> string \<Rightarrow> 'e \<Rightarrow> string result"
    and view :: "'e \<Rightarrow> string \<Rightarrow> string option"
    and wf :: "'e \<Rightarrow> bool"
  assumes sset_returns: "wf e \<Longrightarrow> \<exists>err e'. sset ctx k v e = Done (err, e') \<and> wf e' \<and>
      view e' = (if err = None then (view e)(k := Some v) else view e)"
    and sdel_returns: "wf e \<Longrightarrow> \<exists>err e'. sdel ctx k e = Done (err, e') \<and> wf e' \<and>
      view e' = (if err = None then (view e)(k := None) else view e)"
    and sget_view: "wf e \<Longrightarrow> sget ctx k e = (case view e k of None \<Rightarrow> Inl Storage_ErrKeyNotFound | Some v \<Rightarrow> Inr v)"

lemma pass_on_result:
  "outcome_bind r (\<lambda>(err, e'). case err of Some x \<Rightarrow> Done (Some x, e') | None \<Rightarrow> Done (None, e')) = r"
  by (cases r) (auto split: option.splits)

lemma Storage_passes_on:
  "Storage_Set stg = cs_Set (stg_commandStorage stg)" "Storage_Del stg = cs_Del (stg_commandStorage stg)"
  "Storage_Get stg = qs_Get (stg_queryStorage stg)"
  by (auto simp: fun_eq_iff Storage_Set_def Storage_Del_def Storage_Get_def pass_on_result split: sum.splits)

text \<open>The facade over an engine: every engine that keeps its contract gives a storage layer.\<close>

definition facade :: "logger \<Rightarrow> (ctx \<Rightarrow> string \<Rightarrow> string \<Rightarrow> 'e \<Rightarrow> (go_error option \<times> 'e) outcome) \<Rightarrow>
    (ctx \<Rightarrow> string \<Rightarrow> 'e \<Rightarrow> (go_error option \<times> 'e) outcome) \<Rightarrow> (ctx \<Rightarrow> string \<Rightarrow> 'e \<Rightarrow> string result) \<Rightarrow> 'e Storage" where
  "facade log eset edel eget = \<lparr>stg_log = log, stg_commandStorage = \<lparr>cs_Set = eset, cs_Del = edel\<rparr>,
     stg_queryStorage = \<lparr>qs_Get = eget\<rparr>\<rparr>"

sublocale storage_engine \<subseteq> facade: storage_layer "Storage_Set (facade log eset edel eget)"
    "Storage_Del (facade log eset edel eget)" "Storage_Get (facade log eset edel eget)" view wf for log
  by unfold_locales (simp_all add: Storage_passes_on facade_def eset_returns edel_returns eget_view)

end
