(* ===== verification/Go_Strings.thy ===== *)
theory Go_Strings
  imports Go_Prelude
begin

text \<open>
  The part of Go's \<^verbatim>\<open>strings\<close>, \<^verbatim>\<open>unicode\<close> and \<^verbatim>\<open>unicode/utf8\<close> packages that the service
  uses: decoding a byte string into runes (what \<^verbatim>\<open>for _, r := range s\<close> does),
  \<^verbatim>\<open>unicode.IsSpace\<close>, \<^verbatim>\<open>strings.TrimSpace\<close>, \<^verbatim>\<open>strings.Fields\<close> and \<^verbatim>\<open>strings.ToUpper\<close>,
  all over arbitrary bytes, valid UTF-8 or not.
\<close>

section \<open>UTF-8 decoding\<close>

type_synonym rune = nat

definition RuneError :: rune where
  "RuneError = 65533"

definition cont_byte :: "byte \<Rightarrow> bool" where
  "cont_byte c \<longleftrightarrow> 128 \<le> byte_val c \<and> byte_val c \<le> 191"

text \<open>
  The range the second byte must lie in, by first byte (\<^verbatim>\<open>acceptRanges\<close>): it excludes overlong
  encodings, surrogates and values above U+10FFFF.
\<close>

definition second_ok :: "byte \<Rightarrow> byte \<Rightarrow> bool" where
  "second_ok b0 b1 \<longleftrightarrow>
     (let x = byte_val b0; y = byte_val b1 in
      if x = 224 then 160 \<le> y \<and> y \<le> 191
      else if x = 237 then 128 \<le> y \<and> y \<le> 159
      else if x = 240 then 144 \<le> y \<and> y \<le> 191
      else if x = 244 then 128 \<le> y \<and> y \<le> 143
      else 128 \<le> y \<and> y \<le> 191)"

text \<open>
  \<^verbatim>\<open>utf8.DecodeRune\<close>: the first rune and its width in bytes; an invalid or truncated sequence is
  \<^verbatim>\<open>RuneError\<close> of width one.
\<close>

definition DecodeRune :: "string \<Rightarrow> rune \<times> nat" where
  "DecodeRune s = (case s of
       [] \<Rightarrow> (RuneError, 0)
     | b0 # t \<Rightarrow>
        (let x = byte_val b0 in
         if x < 128 then (x, 1)
         else if 194 \<le> x \<and> x \<le> 223 then
           (case t of
              b1 # _ \<Rightarrow> if second_ok b0 b1 then ((x - 192) * 64 + (byte_val b1 - 128), 2) else (RuneError, 1)
            | _ \<Rightarrow> (RuneError, 1))
         else if 224 \<le> x \<and> x \<le> 239 then
           (case t of
              b1 # b2 # _ \<Rightarrow>
                if second_ok b0 b1 \<and> cont_byte b2
                then ((x - 224) * 4096 + (byte_val b1 - 128) * 64 + (byte_val b2 - 128), 3)
                else (RuneError, 1)
            | _ \<Rightarrow> (RuneError, 1))
         else if 240 \<le> x \<and> x \<le> 244 then
           (case t of
              b1 # b2 # b3 # _ \<Rightarrow>
                if second_ok b0 b1 \<and> cont_byte b2 \<and> cont_byte b3
                then ((x - 240) * 262144 + (byte_val b1 - 128) * 4096 + (byte_val b2 - 128) * 64
                        + (byte_val b3 - 128), 4)
                else (RuneError, 1)
            | _ \<Rightarrow> (RuneError, 1))
         else (RuneError, 1)))"

lemma DecodeRune_width: "s \<noteq> [] \<Longrightarrow> 0 < snd (DecodeRune s)"
  by (cases s) (auto simp: DecodeRune_def Let_def split: list.splits)

text \<open>The runes of a string, each with the bytes it was decoded from.\<close>

function rune_spans :: "string \<Rightarrow> (rune \<times> string) list" where
  "rune_spans s =
     (if s = [] then []
      else (fst (DecodeRune s), take (snd (DecodeRune s)) s) # rune_spans (drop (snd (DecodeRune s)) s))"
  by pat_completeness auto
termination
  by (relation "measure length") (use DecodeRune_width in auto)

declare rune_spans.simps [simp del]

text \<open>\<^verbatim>\<open>for _, symbol := range s\<close>.\<close>

definition range_string :: "string \<Rightarrow> rune list" where
  "range_string s = map fst (rune_spans s)"

section \<open>ASCII strings\<close>

definition ascii :: "string \<Rightarrow> bool" where
  "ascii s \<longleftrightarrow> list_all (\<lambda>c. byte_val c < 128) s"

section \<open>Spaces, fields and case\<close>

text \<open>\<^verbatim>\<open>unicode.IsSpace\<close>: the Latin-1 spaces and the \<^verbatim>\<open>White_Space\<close> property above them.\<close>

definition IsSpace :: "rune \<Rightarrow> bool" where
  "IsSpace r \<longleftrightarrow> r \<in> {9, 10, 11, 12, 13, 32, 133, 160, 5760, 8232, 8233, 8239, 8287, 12288}
     \<or> (8192 \<le> r \<and> r \<le> 8202)"

definition spans_bytes :: "(rune \<times> string) list \<Rightarrow> string" where
  "spans_bytes sp = concat (map snd sp)"

definition trim_spans :: "(rune \<times> string) list \<Rightarrow> (rune \<times> string) list" where
  "trim_spans sp = rev (dropWhile (IsSpace \<circ> fst) (rev (dropWhile (IsSpace \<circ> fst) sp)))"

text \<open>\<^verbatim>\<open>strings.TrimSpace\<close> (and \<^verbatim>\<open>bytes.TrimSpace\<close>).\<close>

definition TrimSpace :: "string \<Rightarrow> string" where
  "TrimSpace s = spans_bytes (trim_spans (rune_spans s))"

text \<open>
  \<^verbatim>\<open>strings.Fields\<close>: the maximal runs of non-space runes. The first argument is the field being
  collected, empty between fields.
\<close>

fun fields_spans :: "string \<Rightarrow> (rune \<times> string) list \<Rightarrow> string list" where
  "fields_spans cur [] = (if cur = [] then [] else [cur])"
| "fields_spans cur ((r, b) # sp) =
     (if IsSpace r then (if cur = [] then fields_spans [] sp else cur # fields_spans [] sp)
      else fields_spans (cur @ b) sp)"

definition Fields :: "string \<Rightarrow> string list" where
  "Fields s = fields_spans [] (rune_spans s)"

text \<open>
  \<^verbatim>\<open>strings.ToUpper\<close> maps \<^verbatim>\<open>unicode.ToUpper\<close> over the runes and encodes the result again. The
  mapping of non-ASCII runes is a Unicode table of the standard library; \<open>upper_map\<close> is the argument
  that stands for it: it gives the UTF-8 bytes of the upper-case form of a rune above U+007F.
  Two entries of that table lead into ASCII: U+0131 (dotless i) to I, and U+017F (long s) to S.
  \<open>ascii_upper_images\<close> has those two and leaves every other rune as it is; \<open>upper_map_ok\<close> says what a
  table must do for the command parser to behave as it does with \<open>ascii_upper_images\<close>.
\<close>

type_synonym upper_map = "rune \<Rightarrow> string \<Rightarrow> string"

definition ascii_upper_images :: upper_map where
  "ascii_upper_images r b = (if r = 305 then ''I'' else if r = 383 then ''S'' else b)"

definition upper_map_ok :: "upper_map \<Rightarrow> bool" where
  "upper_map_ok up \<longleftrightarrow>
     (\<forall>b. up 305 b = ''I'') \<and> (\<forall>b. up 383 b = ''S'') \<and>
     (\<forall>r b. 128 \<le> r \<longrightarrow> r \<noteq> 305 \<longrightarrow> r \<noteq> 383 \<longrightarrow>
        \<not> ascii b \<longrightarrow> \<not> ascii (up r b))"

definition upper_span :: "upper_map \<Rightarrow> rune \<times> string \<Rightarrow> string" where
  "upper_span up rb =
     (case rb of (r, b) \<Rightarrow>
        if 97 \<le> r \<and> r \<le> 122 then [mk_byte (r - 32)]
        else if r < 128 then [mk_byte r]
        else up r b)"

definition ToUpper :: "upper_map \<Rightarrow> string \<Rightarrow> string" where
  "ToUpper up s = concat (map (upper_span up) (rune_spans s))"

section \<open>Decoding ASCII\<close>

lemma ascii_simps [simp]:
  "ascii []" "ascii (c # s) \<longleftrightarrow> byte_val c < 128 \<and> ascii s" "ascii (s @ t) \<longleftrightarrow> ascii s \<and> ascii t"
  by (simp_all add: ascii_def)

lemma rune_spans_Nil [simp]: "rune_spans [] = []"
  by (simp add: rune_spans.simps)

lemma rune_spans_ascii_Cons [simp]:
  "byte_val c < 128 \<Longrightarrow> rune_spans (c # s) = (byte_val c, [c]) # rune_spans s"
  by (subst rune_spans.simps) (simp add: DecodeRune_def Let_def)

lemma rune_spans_nonascii_Cons:
  assumes "\<not> byte_val c < 128"
  obtains r b t where "rune_spans (c # s) = (r, b) # rune_spans t" "128 \<le> r" "c # s = b @ t"
    "c \<in> set b"
proof -
  let ?d = "DecodeRune (c # s)"
  have r: "128 \<le> fst ?d"
    using assms by (auto simp: DecodeRune_def Let_def RuneError_def second_ok_def split: list.splits)
  have w: "0 < snd ?d" by (rule DecodeRune_width) simp
  show thesis
  proof (rule that [of "fst ?d" "take (snd ?d) (c # s)" "drop (snd ?d) (c # s)"])
    show "rune_spans (c # s) = (fst ?d, take (snd ?d) (c # s)) # rune_spans (drop (snd ?d) (c # s))"
      by (subst rune_spans.simps) simp
    show "c \<in> set (take (snd ?d) (c # s))" using w by (cases "snd ?d") auto
  qed (use r in auto)
qed

lemma rune_spans_ascii: "ascii s \<Longrightarrow> rune_spans s = map (\<lambda>c. (byte_val c, [c])) s"
  by (induction s) auto

lemma rune_spans_append_ascii: "ascii s \<Longrightarrow> rune_spans (s @ t) = rune_spans s @ rune_spans t"
  by (induction s) auto

lemma spans_bytes_rune_spans [simp]: "spans_bytes (rune_spans s) = s"
proof (induction s rule: rune_spans.induct)
  case (1 s)
  then show ?case
    by (cases "s = []") (auto simp: rune_spans.simps [of s] spans_bytes_def)
qed

text \<open>
  A predicate on runes that holds of ASCII runes only may be checked byte by byte: the runes of a
  string satisfy it exactly when its bytes do. This is why the rune loops of the validators accept
  no multi-byte character and no invalid UTF-8.
\<close>

lemma range_string_all_ascii:
  assumes P: "\<And>r. P r \<Longrightarrow> r < 128"
  shows "list_all P (range_string s) \<longleftrightarrow> list_all (\<lambda>c. P (byte_val c)) s"
proof (induction "length s" arbitrary: s rule: less_induct)
  case less
  show ?case
  proof (cases s)
    case (Cons c t)
    show ?thesis
    proof (cases "byte_val c < 128")
      case True
      then show ?thesis using less [of t] Cons by (simp add: range_string_def)
    next
      case False
      then obtain r b u where "rune_spans s = (r, b) # rune_spans u" "128 \<le> r"
        using Cons by (metis rune_spans_nonascii_Cons)
      moreover from False have "\<not> P (byte_val c)" using P by auto
      ultimately show ?thesis using P [of r] Cons by (auto simp: range_string_def)
    qed
  qed (simp add: range_string_def)
qed

section \<open>Facts about fields\<close>

text \<open>Tokens and separators over ASCII, for the round trip of the command language.\<close>

definition ascii_space :: "char \<Rightarrow> bool" where
  "ascii_space c \<longleftrightarrow> byte_val c \<in> {9, 10, 11, 12, 13, 32}"

lemma IsSpace_ascii: "byte_val c < 128 \<Longrightarrow> IsSpace (byte_val c) \<longleftrightarrow> ascii_space c"
  by (auto simp: IsSpace_def ascii_space_def)

lemma ascii_space_ascii: "list_all ascii_space s \<Longrightarrow> ascii s"
  by (induction s) (auto simp: ascii_space_def)

lemma fields_spans_token:
  "ascii tok \<Longrightarrow> list_all (\<lambda>c. \<not> ascii_space c) tok \<Longrightarrow>
   fields_spans cur (rune_spans (tok @ rest)) = fields_spans (cur @ tok) (rune_spans rest)"
  by (induction tok arbitrary: cur) (auto simp: IsSpace_ascii)

lemma fields_spans_spaces:
  "list_all ascii_space ws \<Longrightarrow> fields_spans [] (rune_spans (ws @ rest)) = fields_spans [] (rune_spans rest)"
proof (induction ws)
  case (Cons c ws)
  then have c: "byte_val c < 128" "IsSpace (byte_val c)"
    by (auto simp: ascii_space_def IsSpace_def)
  from Cons show ?case by (simp add: c)
qed simp

lemma fields_spans_close:
  "cur \<noteq> [] \<Longrightarrow> list_all ascii_space ws \<Longrightarrow> ws \<noteq> [] \<Longrightarrow>
   fields_spans cur (rune_spans (ws @ rest)) = cur # fields_spans [] (rune_spans rest)"
proof (cases ws)
  case (Cons c cs)
  assume "cur \<noteq> []" "list_all ascii_space ws"
  moreover from this Cons have "byte_val c < 128" "IsSpace (byte_val c)"
    by (auto simp: ascii_space_def IsSpace_def)
  ultimately show ?thesis using Cons by (simp add: fields_spans_spaces)
qed simp

text \<open>Every field is a non-empty run of runes none of which is a space.\<close>

lemma fields_spans_nonempty: "t \<in> set (fields_spans cur sp) \<Longrightarrow> t \<noteq> []"
  by (induction cur sp rule: fields_spans.induct) (auto split: if_splits)

lemma Fields_nonempty: "t \<in> set (Fields s) \<Longrightarrow> t \<noteq> []"
  unfolding Fields_def by (rule fields_spans_nonempty)

lemma dropWhile_fields_spans:
  "fields_spans [] (dropWhile (IsSpace \<circ> fst) sp) = fields_spans [] sp"
  by (induction sp) auto

lemma fields_spans_append_space:
  "list_all (IsSpace \<circ> fst) ws \<Longrightarrow> fields_spans cur (sp @ ws) = fields_spans cur sp"
proof (induction cur sp rule: fields_spans.induct)
  case (1 cur)
  then show ?case by (induction ws arbitrary: cur) auto
qed auto

text \<open>Trimming the runes first does not change the fields: the surrounding spaces are dropped anyway.\<close>

lemma fields_spans_trim: "fields_spans [] (trim_spans sp) = fields_spans [] sp"
proof -
  let ?d = "dropWhile (IsSpace \<circ> fst) sp"
  have "?d = trim_spans sp @ rev (takeWhile (IsSpace \<circ> fst) (rev ?d))"
    unfolding trim_spans_def by (metis rev_append rev_rev_ident takeWhile_dropWhile_id)
  moreover have "list_all (IsSpace \<circ> fst) (rev (takeWhile (IsSpace \<circ> fst) (rev ?d)))"
    by (auto simp: list_all_iff dest: set_takeWhileD)
  ultimately have "fields_spans [] ?d = fields_spans [] (trim_spans sp)"
    by (metis fields_spans_append_space)
  then show ?thesis by (simp add: dropWhile_fields_spans)
qed

section \<open>Cutting a string at a rune boundary\<close>

text \<open>
  UTF-8 decoding is self-synchronising: the first rune does not change when bytes behind it are cut
  off, so the runes of a string that was cut between two of its runes are those that remain.
\<close>

lemma DecodeRune_take:
  assumes "s \<noteq> []" "snd (DecodeRune s) \<le> n"
  shows "DecodeRune (take n s) = DecodeRune s"
proof -
  obtain b0 t where s: "s = b0 # t" using assms(1) by (cases s) auto
  have n: "0 < n" using assms DecodeRune_width [of s] by simp
  then obtain m where m: "n = Suc m" by (cases n) auto
  show ?thesis
    using assms(2) unfolding s m
    by (auto simp: DecodeRune_def Let_def take_Cons' split: list.splits if_splits)
qed

lemma rune_spans_suffix: "rune_spans s = p @ q \<Longrightarrow> rune_spans (spans_bytes q) = q"
proof (induction p arbitrary: s)
  case (Cons x p)
  then have "s \<noteq> []" by auto
  with Cons.prems have "rune_spans (drop (snd (DecodeRune s)) s) = p @ q"
    by (simp add: rune_spans.simps [of s])
  then show ?case by (rule Cons.IH)
next
  case Nil
  then have "spans_bytes q = s" by (metis append_Nil spans_bytes_rune_spans)
  with Nil show ?case by simp
qed

lemma rune_spans_prefix: "rune_spans s = p @ q \<Longrightarrow> rune_spans (spans_bytes p) = p"
proof (induction p arbitrary: s)
  case (Cons x p)
  define w where "w = snd (DecodeRune s)"
  define u where "u = spans_bytes (x # p)"
  have ne: "s \<noteq> []" using Cons.prems by auto
  then have x: "x = (fst (DecodeRune s), take w s)" and tl: "rune_spans (drop w s) = p @ q"
    using Cons.prems by (simp_all add: w_def rune_spans.simps [of s])
  have ws: "w \<le> length s" using ne
    by (cases s) (auto simp: w_def DecodeRune_def Let_def split: list.splits)
  then have w: "w \<le> length u" and dr: "drop w u = spans_bytes p" and tk: "take w u = take w s"
    by (simp_all add: u_def x spans_bytes_def)
  have "s = u @ spans_bytes q"
    using Cons.prems unfolding u_def by (metis concat_append map_append spans_bytes_def spans_bytes_rune_spans)
  then have u: "u = take (length u) s" by (metis append_eq_conv_conj)
  then have dec: "DecodeRune u = DecodeRune s"
    using DecodeRune_take [OF ne, of "length u"] w by (simp add: w_def)
  have une: "u \<noteq> []" using w DecodeRune_width [OF ne] by (auto simp: w_def)
  have "rune_spans u = (fst (DecodeRune s), take w s) # rune_spans (spans_bytes p)"
    using une dec dr tk by (simp add: rune_spans.simps [of u] flip: w_def)
  then show ?case using Cons.IH [OF tl] u_def x by simp
qed (simp add: spans_bytes_def)

lemma rune_spans_TrimSpace: "rune_spans (TrimSpace s) = trim_spans (rune_spans s)"
proof -
  let ?sp = "rune_spans s" and ?isp = "IsSpace \<circ> fst"
  let ?d = "dropWhile ?isp ?sp"
  have "?sp = takeWhile ?isp ?sp @ ?d" by simp
  then have d: "rune_spans (spans_bytes ?d) = ?d" by (rule rune_spans_suffix)
  moreover have "?d = trim_spans ?sp @ rev (takeWhile ?isp (rev ?d))"
    unfolding trim_spans_def by (metis rev_append rev_rev_ident takeWhile_dropWhile_id)
  ultimately show ?thesis unfolding TrimSpace_def by (metis rune_spans_prefix)
qed

lemma Fields_TrimSpace: "Fields (TrimSpace s) = Fields s"
  by (simp add: Fields_def rune_spans_TrimSpace fields_spans_trim)

section \<open>Facts about upper-casing\<close>

definition upper_ascii :: "char \<Rightarrow> char" where
  "upper_ascii c = (if byte_val c \<in> {97..122} then mk_byte (byte_val c - 32) else c)"

lemma ToUpper_ascii: "ascii s \<Longrightarrow> ToUpper up s = map upper_ascii s"
  by (induction s) (auto simp: ToUpper_def upper_span_def upper_ascii_def)

lemma not_asciiI: "c \<in> set s \<Longrightarrow> \<not> byte_val c < 128 \<Longrightarrow> \<not> ascii s"
  by (auto simp: ascii_def list_all_iff)

lemma rune_spans_span: "(r, b) \<in> set (rune_spans s) \<Longrightarrow> (r < 128 \<and> b = [mk_byte r]) \<or> (128 \<le> r \<and> \<not> ascii b)"
proof (induction "length s" arbitrary: s rule: less_induct)
  case less
  show ?case
  proof (cases s)
    case (Cons c t)
    show ?thesis
    proof (cases "byte_val c < 128")
      case True
      with less Cons show ?thesis by auto
    next
      case False
      then obtain r' b' u where u: "rune_spans s = (r', b') # rune_spans u" "128 \<le> r'" "s = b' @ u" "c \<in> set b'"
        using Cons by (metis rune_spans_nonascii_Cons)
      then have "length u < length s" by (cases b') auto
      with u less(1) [of u] less(2) False show ?thesis by (auto dest: not_asciiI)
    qed
  qed (use less in simp)
qed

text \<open>
  Two admissible tables give the same upper-case string, or two strings that both contain a
  non-ASCII byte.
\<close>

lemma ToUpper_tables:
  assumes "upper_map_ok up" "upper_map_ok up'"
  shows "ToUpper up s = ToUpper up' s \<or> (\<not> ascii (ToUpper up s) \<and> \<not> ascii (ToUpper up' s))"
proof -
  have span: "upper_span up x = upper_span up' x \<or> (\<not> ascii (upper_span up x) \<and> \<not> ascii (upper_span up' x))"
    if "x \<in> set (rune_spans s)" for x
  proof -
    obtain r b where x: "x = (r, b)" by (cases x)
    from that x have "(r < 128 \<and> b = [mk_byte r]) \<or> (128 \<le> r \<and> \<not> ascii b)"
      using rune_spans_span by auto
    then show ?thesis
      using assms by (auto simp: x upper_span_def upper_map_ok_def)
  qed
  have "concat (map (upper_span up) xs) = concat (map (upper_span up') xs) \<or>
      (\<not> ascii (concat (map (upper_span up) xs)) \<and> \<not> ascii (concat (map (upper_span up') xs)))"
    if "set xs \<subseteq> set (rune_spans s)" for xs
    using that
  proof (induction xs)
    case (Cons x xs)
    then show ?case using span [of x] by auto
  qed simp
  then show ?thesis by (simp add: ToUpper_def)
qed

lemma upper_map_ok_ascii_upper_images [simp]: "upper_map_ok ascii_upper_images"
  by (simp add: upper_map_ok_def ascii_upper_images_def)

lemma upper_span_nonempty:
  assumes "upper_map_ok up" "x \<in> set (rune_spans s)"
  shows "upper_span up x \<noteq> []"
proof -
  obtain r b where x: "x = (r, b)" by (cases x)
  with assms(2) have "(r < 128 \<and> b = [mk_byte r]) \<or> (128 \<le> r \<and> \<not> ascii b)"
    using rune_spans_span by auto
  then show ?thesis
  proof
    assume "128 \<le> r \<and> \<not> ascii b"
    then have "up r b = ''I'' \<or> up r b = ''S'' \<or> \<not> ascii (up r b)"
      using assms(1) by (auto simp: upper_map_ok_def)
    then have "up r b \<noteq> []" by auto
    with \<open>128 \<le> r \<and> \<not> ascii b\<close> show ?thesis by (simp add: x upper_span_def)
  qed (simp add: x upper_span_def)
qed

lemma ToUpper_nonempty:
  assumes "upper_map_ok up" "s \<noteq> []"
  shows "ToUpper up s \<noteq> []"
proof -
  obtain x xs where sp: "rune_spans s = x # xs" using assms(2) by (subst (asm) rune_spans.simps) auto
  then have "upper_span up x \<noteq> []" using upper_span_nonempty [OF assms(1), of x s] by simp
  then show ?thesis by (simp add: ToUpper_def sp)
qed

end
