(* ===== verification/Compute.thy ===== *)
theory Compute
  imports Go_Strings
begin

text \<open>
  Package \<^verbatim>\<open>internal/database/compute\<close>: the command names and character classes, the validators,
  and \<^verbatim>\<open>Compute.ParseAndValidate\<close>. The package keeps no state.
\<close>

section \<open>Constants (command.go)\<close>

definition CommandSet :: string where "CommandSet = ''SET''"
definition CommandGet :: string where "CommandGet = ''GET''"
definition CommandDel :: string where "CommandDel = ''DEL''"

definition CommandSetID :: int where "CommandSetID = 1"
definition CommandDelID :: int where "CommandDelID = 2"

definition Punctuation :: "rune list" where
  "Punctuation = map byte_val ''*/_.''"

definition LetterRangeLower :: "rune \<times> rune" where
  "LetterRangeLower = (byte_val (CHR ''a''), byte_val (CHR ''z''))"

definition LetterRangeUpper :: "rune \<times> rune" where
  "LetterRangeUpper = (byte_val (CHR ''A''), byte_val (CHR ''Z''))"

definition DigitRange :: "rune \<times> rune" where
  "DigitRange = (byte_val (CHR ''0''), byte_val (CHR ''9''))"

definition CommandSetQ :: int where "CommandSetQ = 2"
definition CommandGetQ :: int where "CommandGetQ = 1"
definition CommandDelQ :: int where "CommandDelQ = 1"

lemmas command_consts =
  CommandSet_def CommandGet_def CommandDel_def CommandSetID_def CommandDelID_def
  CommandSetQ_def CommandGetQ_def CommandDelQ_def

lemmas range_consts = Punctuation_def LetterRangeLower_def LetterRangeUpper_def DigitRange_def

section \<open>Validators (validation.go)\<close>

definition IsAnyLetter :: "rune \<Rightarrow> bool" where
  "IsAnyLetter symbol \<longleftrightarrow>
     (fst LetterRangeLower \<le> symbol \<and> symbol \<le> snd LetterRangeLower) \<or>
     (fst LetterRangeUpper \<le> symbol \<and> symbol \<le> snd LetterRangeUpper)"

definition IsUpperLetter :: "rune \<Rightarrow> bool" where
  "IsUpperLetter symbol \<longleftrightarrow> fst LetterRangeUpper \<le> symbol \<and> symbol \<le> snd LetterRangeUpper"

definition IsDigit :: "rune \<Rightarrow> bool" where
  "IsDigit symbol \<longleftrightarrow> fst DigitRange \<le> symbol \<and> symbol \<le> snd DigitRange"

fun punctuation_loop :: "rune list \<Rightarrow> rune \<Rightarrow> bool" where
  "punctuation_loop [] symbol = False"
| "punctuation_loop (pct # pcts) symbol = (if symbol = pct then True else punctuation_loop pcts symbol)"

definition IsPunctuation :: "rune \<Rightarrow> bool" where
  "IsPunctuation symbol = punctuation_loop Punctuation symbol"

fun validate_loop :: "(rune \<Rightarrow> bool) \<Rightarrow> rune list \<Rightarrow> bool" where
  "validate_loop ok [] = True"
| "validate_loop ok (symbol # rest) = (if \<not> ok symbol then False else validate_loop ok rest)"

definition ValidateCommand :: "string \<Rightarrow> bool" where
  "ValidateCommand raw = validate_loop IsUpperLetter (range_string raw)"

definition ValidateArgument :: "string \<Rightarrow> bool" where
  "ValidateArgument raw =
     validate_loop (\<lambda>symbol. IsAnyLetter symbol \<or> IsDigit symbol \<or> IsPunctuation symbol) (range_string raw)"

section \<open>The parser (compute.go)\<close>

record Compute =
  compute_log :: logger

definition NewCompute :: "logger option \<Rightarrow> Compute result" where
  "NewCompute log = (case log of
       None \<Rightarrow> Inl (Errorf ''compute.NewCompute: logger is invalid'' None)
     | Some l \<Rightarrow> Inr \<lparr>compute_log = l\<rparr>)"

fun validate_tokens :: "string list \<Rightarrow> bool" where
  "validate_tokens [] = True"
| "validate_tokens (token # rest) = (if \<not> ValidateArgument token then False else validate_tokens rest)"

definition ParseAndValidate :: "upper_map \<Rightarrow> string \<Rightarrow> string list result" where
  "ParseAndValidate up raw =
     (case Fields (TrimSpace raw) of
        [] \<Rightarrow> Inl Compute_ErrEmptyCommand
      | t0 # args \<Rightarrow>
          (let tokens = ToUpper up t0 # args in
           if \<not> ValidateCommand (hd tokens) then Inl Compute_ErrInvalidCommand
           else if \<not> validate_tokens tokens then Inl Compute_ErrInvalidArgument
           else Inr tokens))"

section \<open>The character classes, byte by byte\<close>

definition upper_char :: "char \<Rightarrow> bool" where
  "upper_char c \<longleftrightarrow> byte_val c \<in> {65..90}"

definition letter_char :: "char \<Rightarrow> bool" where
  "letter_char c \<longleftrightarrow> byte_val c \<in> {65..90} \<union> {97..122}"

definition arg_char :: "char \<Rightarrow> bool" where
  "arg_char c \<longleftrightarrow> letter_char c \<or> byte_val c \<in> {48..57} \<union> {42, 46, 47, 95}"

lemmas char_class_defs = upper_char_def letter_char_def arg_char_def

lemma validate_loop_list_all: "validate_loop ok rs = list_all ok rs"
  by (induction rs) auto

lemma punctuation_loop_member: "punctuation_loop ps r \<longleftrightarrow> r \<in> set ps"
  by (induction ps) auto

lemma validate_tokens_list_all: "validate_tokens ts = list_all ValidateArgument ts"
  by (induction ts) auto

lemma ValidateCommand_bytes: "ValidateCommand s \<longleftrightarrow> list_all upper_char s"
proof -
  have "ValidateCommand s \<longleftrightarrow> list_all (\<lambda>c. IsUpperLetter (byte_val c)) s"
    unfolding ValidateCommand_def validate_loop_list_all
    by (rule range_string_all_ascii) (simp add: IsUpperLetter_def LetterRangeUpper_def)
  moreover have "IsUpperLetter (byte_val c) \<longleftrightarrow> upper_char c" for c
    by (simp add: IsUpperLetter_def LetterRangeUpper_def upper_char_def)
  ultimately show ?thesis by simp
qed

lemma ValidateArgument_bytes: "ValidateArgument s \<longleftrightarrow> list_all arg_char s"
proof -
  let ?ok = "\<lambda>r. IsAnyLetter r \<or> IsDigit r \<or> IsPunctuation r"
  have "ValidateArgument s \<longleftrightarrow> list_all (\<lambda>c. ?ok (byte_val c)) s"
    unfolding ValidateArgument_def validate_loop_list_all
    by (rule range_string_all_ascii)
      (auto simp: IsAnyLetter_def IsDigit_def IsPunctuation_def punctuation_loop_member range_consts)
  moreover have "?ok (byte_val c) \<longleftrightarrow> arg_char c" for c
    by (auto simp: IsAnyLetter_def IsDigit_def IsPunctuation_def punctuation_loop_member range_consts
        arg_char_def letter_char_def)
  ultimately show ?thesis by simp
qed

lemma arg_char_ascii: "list_all arg_char s \<Longrightarrow> ascii s"
  by (induction s) (auto simp: char_class_defs)

lemma arg_char_not_space: "arg_char c \<Longrightarrow> \<not> ascii_space c"
  by (auto simp: char_class_defs ascii_space_def)

lemma letter_arg_char: "letter_char c \<Longrightarrow> arg_char c"
  by (simp add: arg_char_def)

lemma upper_arg_char: "upper_char c \<Longrightarrow> arg_char c"
  by (simp add: arg_char_def letter_char_def upper_char_def)

lemma upper_ascii_letter: "letter_char c \<Longrightarrow> upper_char (upper_ascii c)"
  by (auto simp: char_class_defs upper_ascii_def)

lemma ParseAndValidate_Fields:
  "ParseAndValidate up raw =
     (case Fields raw of
        [] \<Rightarrow> Inl Compute_ErrEmptyCommand
      | t0 # args \<Rightarrow>
          if \<not> list_all upper_char (ToUpper up t0) then Inl Compute_ErrInvalidCommand
          else if \<not> list_all (list_all arg_char) args then Inl Compute_ErrInvalidArgument
          else Inr (ToUpper up t0 # args))"
proof (cases "Fields raw")
  case (Cons t0 args)
  have "list_all upper_char (ToUpper up t0) \<Longrightarrow> list_all arg_char (ToUpper up t0)"
    by (auto simp: list_all_iff upper_arg_char)
  moreover have "list_all ValidateArgument args = list_all (list_all arg_char) args"
    by (simp add: list_all_iff ValidateArgument_bytes)
  ultimately show ?thesis
    using Cons by (auto simp: ParseAndValidate_def Fields_TrimSpace Let_def ValidateCommand_bytes
        validate_tokens_list_all ValidateArgument_bytes)
qed (simp add: ParseAndValidate_def Fields_TrimSpace)

section \<open>Rendering a command\<close>

text \<open>
  A command line: optional leading space, a name, each argument preceded by its separator, optional
  trailing space. \<open>render_ok\<close> is what makes it a line of the command language.
\<close>

definition render :: "string \<Rightarrow> string \<Rightarrow> (string \<times> string) list \<Rightarrow> string \<Rightarrow> string" where
  "render lead name args trail = lead @ name @ concat (map (\<lambda>(sep, arg). sep @ arg) args) @ trail"

definition render_ok :: "string \<Rightarrow> string \<Rightarrow> (string \<times> string) list \<Rightarrow> string \<Rightarrow> bool" where
  "render_ok lead name args trail \<longleftrightarrow>
     list_all ascii_space lead \<and> name \<noteq> [] \<and> list_all letter_char name \<and>
     list_all (\<lambda>(sep, arg). sep \<noteq> [] \<and> list_all ascii_space sep \<and> arg \<noteq> [] \<and> list_all arg_char arg) args \<and>
     list_all ascii_space trail"

lemma fields_spans_arg:
  "arg \<noteq> [] \<Longrightarrow> list_all arg_char arg \<Longrightarrow>
   fields_spans [] (rune_spans (arg @ rest)) = fields_spans arg (rune_spans rest)"
  using fields_spans_token [of arg "[]" rest]
  by (simp add: arg_char_ascii list_all_iff arg_char_not_space)

lemma fields_spans_args:
  assumes "list_all (\<lambda>(sep, arg). sep \<noteq> [] \<and> list_all ascii_space sep \<and> arg \<noteq> [] \<and> list_all arg_char arg) args"
    and "list_all ascii_space trail" and "cur \<noteq> []"
  shows "fields_spans cur (rune_spans (concat (map (\<lambda>(sep, arg). sep @ arg) args) @ trail)) = cur # map snd args"
  using assms
proof (induction args arbitrary: cur)
  case Nil
  then show ?case
    using fields_spans_close [of cur trail "[]"] by (cases "trail = []") simp_all
next
  case (Cons a args)
  obtain sep arg where a: "a = (sep, arg)" by (cases a)
  with Cons show ?case
    by (simp add: fields_spans_close fields_spans_arg)
qed

lemma Fields_render: "render_ok lead name args trail \<Longrightarrow> Fields (render lead name args trail) = name # map snd args"
  by (simp add: Fields_def render_def render_ok_def fields_spans_spaces fields_spans_arg fields_spans_args
      list_all_iff letter_arg_char)

lemma fields_spans_empty_iff: "fields_spans [] (rune_spans s) = [] \<longleftrightarrow> list_all IsSpace (range_string s)"
proof -
  have ne: "fields_spans cur sp = [] \<Longrightarrow> cur = []" for cur sp
    by (induction cur sp rule: fields_spans.induct) (auto split: if_splits)
  have "set sp \<subseteq> set (rune_spans s) \<Longrightarrow>
      fields_spans [] sp = [] \<longleftrightarrow> list_all IsSpace (map fst sp)" for sp
  proof (induction sp)
    case (Cons x sp)
    obtain r b where x: "x = (r, b)" by (cases x)
    with Cons.prems have "b \<noteq> []" using rune_spans_span [of r b s] by auto
    with Cons x show ?case by (auto dest: ne)
  qed simp
  then show ?thesis by (simp add: range_string_def)
qed

text \<open>The facts that evaluate the parser on a concrete ASCII line.\<close>

lemmas parse_eval =
  ParseAndValidate_Fields Fields_def IsSpace_def ToUpper_def upper_span_def char_class_defs
  mk_byte_eq_iff

section \<open>Properties\<close>

text \<open>
  C30. Whatever bytes a client sends, a successful parse yields a non-empty command name of upper-case
  ASCII letters followed by non-empty arguments made of letters, digits and the four punctuation
  characters, so nothing outside that alphabet ever reaches the storage layer.
\<close>

theorem ParseAndValidate_sound:
  assumes "upper_map_ok up" and "ParseAndValidate up raw = Inr tokens"
  shows "\<exists>name args. tokens = name # args \<and> name \<noteq> [] \<and> list_all upper_char name \<and>
           (\<forall>arg \<in> set args. arg \<noteq> [] \<and> list_all arg_char arg)"
proof -
  obtain t0 args where f: "Fields raw = t0 # args" and tok: "tokens = ToUpper up t0 # args"
    and name: "list_all upper_char (ToUpper up t0)" and args: "list_all (list_all arg_char) args"
    using assms(2) by (auto simp: ParseAndValidate_Fields split: list.splits if_splits)
  have "t0 \<noteq> []" and "\<forall>arg \<in> set args. arg \<noteq> []"
    using Fields_nonempty [of _ raw] by (auto simp: f)
  with assms(1) tok name args show ?thesis
    by (auto simp: ToUpper_nonempty list_all_iff)
qed

theorem ParseAndValidate_sound_witness:
  "\<exists>name args. [''SET'', ''k'', ''v''] = name # args \<and> name \<noteq> [] \<and> list_all upper_char name \<and>
     (\<forall>arg \<in> set args. arg \<noteq> [] \<and> list_all arg_char arg)"
proof (rule ParseAndValidate_sound)
  show "upper_map_ok ascii_upper_images" by simp
  show "ParseAndValidate ascii_upper_images ''set k v'' = Inr [''SET'', ''k'', ''v'']"
    by (simp add: parse_eval)
qed

text \<open>
  C31. Printing and parsing round-trip: any line built from a name in any letter case and valid
  arguments, with any non-empty runs of ASCII white space between them and around them, parses to the
  upper-cased name and exactly those arguments.
\<close>

theorem ParseAndValidate_render:
  assumes "render_ok lead name args trail"
  shows "ParseAndValidate up (render lead name args trail) = Inr (map upper_ascii name # map snd args)"
proof -
  have name: "list_all letter_char name" and args: "list_all (list_all arg_char) (map snd args)"
    using assms by (auto simp: render_ok_def list_all_iff)
  then have "ToUpper up name = map upper_ascii name"
    by (intro ToUpper_ascii arg_char_ascii) (auto simp: list_all_iff letter_arg_char)
  moreover have "list_all upper_char (map upper_ascii name)"
    using name by (auto simp: list_all_iff upper_ascii_letter)
  ultimately show ?thesis
    using args by (simp add: ParseAndValidate_Fields Fields_render [OF assms])
qed

theorem ParseAndValidate_render_witness:
  "ParseAndValidate ascii_upper_images (render '' '' ''Set'' [('' '', ''user/1''), ('' '', ''bob'')] ''  '')
     = Inr (map upper_ascii ''Set'' # map snd [('' '', ''user/1''), ('' '', ''bob'')])"
  by (rule ParseAndValidate_render) (simp add: render_ok_def ascii_space_def char_class_defs)

text \<open>
  C32. The three parse errors, exactly: \<^verbatim>\<open>ErrEmptyCommand\<close> when and only when every rune is white
  space; otherwise \<^verbatim>\<open>ErrInvalidCommand\<close> when the upper-cased first token is not all upper-case ASCII
  letters; otherwise \<^verbatim>\<open>ErrInvalidArgument\<close> when some later token has a byte outside the alphabet;
  and no other error is ever returned.
\<close>

theorem ParseAndValidate_errors:
  "ParseAndValidate up raw = Inl e \<longleftrightarrow>
     (e = Compute_ErrEmptyCommand \<and> list_all IsSpace (range_string raw)) \<or>
     (\<exists>t0 args. Fields raw = t0 # args \<and>
        ((e = Compute_ErrInvalidCommand \<and> \<not> list_all upper_char (ToUpper up t0)) \<or>
         (e = Compute_ErrInvalidArgument \<and> list_all upper_char (ToUpper up t0) \<and>
          (\<exists>arg \<in> set args. \<exists>c \<in> set arg. \<not> arg_char c))))"
proof (cases "Fields raw")
  case Nil
  then have "list_all IsSpace (range_string raw)"
    by (simp add: Fields_def flip: fields_spans_empty_iff)
  with Nil show ?thesis by (auto simp: ParseAndValidate_Fields)
next
  case (Cons t0 args)
  then have "\<not> list_all IsSpace (range_string raw)"
    by (simp add: Fields_def flip: fields_spans_empty_iff)
  with Cons show ?thesis by (auto simp: ParseAndValidate_Fields list_all_iff)
qed

text \<open>
  The result of the parser does not depend on the Unicode upper-case table beyond its two entries
  that lead into ASCII: every table that maps the other non-ASCII runes to non-ASCII text gives the
  same result as the two-entry one.
\<close>

theorem ParseAndValidate_table_independent:
  assumes "upper_map_ok up"
  shows "ParseAndValidate up raw = ParseAndValidate ascii_upper_images raw"
proof (cases "Fields raw")
  case (Cons t0 args)
  have "list_all upper_char s \<Longrightarrow> ascii s" for s
    by (induction s) (auto simp: upper_char_def)
  then show ?thesis
    using ToUpper_tables [OF assms upper_map_ok_ascii_upper_images, of t0] Cons
    by (auto simp: ParseAndValidate_Fields)
qed (simp add: ParseAndValidate_Fields)

theorem ParseAndValidate_table_independent_witness:
  "ParseAndValidate ascii_upper_images ''get k'' = ParseAndValidate ascii_upper_images ''get k''"
  by (rule ParseAndValidate_table_independent) simp

text \<open>
  The command name is upper-cased as Unicode before it is validated, so a name that is not ASCII
  can be accepted: the bytes C5 BF (U+017F, long s) followed by ET are the command SET.
\<close>

theorem ParseAndValidate_accepts_long_s:
  "ParseAndValidate ascii_upper_images ([mk_byte 197, mk_byte 191] @ ''et k v'') = Inr [''SET'', ''k'', ''v'']"
proof -
  let ?rest = "''et k v''"
  have "rune_spans (mk_byte 197 # mk_byte 191 # ?rest) = (383, [mk_byte 197, mk_byte 191]) # rune_spans ?rest"
    by (subst rune_spans.simps) (simp add: DecodeRune_def second_ok_def)
  moreover have "rune_spans [mk_byte 197, mk_byte 191, CHR ''e'', CHR ''t''] =
      (383, [mk_byte 197, mk_byte 191]) # rune_spans ''et''"
    by (subst rune_spans.simps) (simp add: DecodeRune_def second_ok_def)
  ultimately show ?thesis
    by (simp add: parse_eval ascii_upper_images_def)
qed

end
