(* ===== verification/Database.thy ===== *)
theory Database
  imports Storage Compute
begin

text \<open>
  The request dispatcher (database.go): one text command in, one response string out. The compute and
  storage layers are interfaces; their contracts are the locales \<open>compute_layer\<close> and \<open>storage_layer\<close>,
  and the dispatcher is proved over them to refine a map with failing writes.
\<close>

section \<open>The dispatcher\<close>

record ComputeLayer =
  cl_ParseAndValidate :: "string \<Rightarrow> string list result"

record 'e StorageLayer =
  sl_Set :: "ctx \<Rightarrow> string \<Rightarrow> string \<Rightarrow> 'e \<Rightarrow> (go_error option \<times> 'e) outcome"
  sl_Del :: "ctx \<Rightarrow> string \<Rightarrow> 'e \<Rightarrow> (go_error option \<times> 'e) outcome"
  sl_Get :: "ctx \<Rightarrow> string \<Rightarrow> 'e \<Rightarrow> string result"

record 'e Database =
  db_Compute :: ComputeLayer
  db_Storage :: "'e StorageLayer"
  db_log :: logger

definition NewDatabase ::
    "logger option \<Rightarrow> ComputeLayer option \<Rightarrow> 'e StorageLayer option \<Rightarrow> 'e Database result" where
  "NewDatabase log computeLayer storageLayer =
     (case computeLayer of None \<Rightarrow> Inl (Errorf ''database.NewDatabase: compute is invalid'' None)
      | Some c \<Rightarrow> (case storageLayer of None \<Rightarrow> Inl (Errorf ''database.NewDatabase: storage is invalid'' None)
          | Some s \<Rightarrow> (case log of None \<Rightarrow> Inl (Errorf ''database.NewDatabase: logger is invalid'' None)
              | Some l \<Rightarrow> Inr \<lparr>db_Compute = c, db_Storage = s, db_log = l\<rparr>)))"

text \<open>\<^verbatim>\<open>tokens[i]\<close>, with the panic of an index out of range.\<close>

definition token_at :: "string list \<Rightarrow> nat \<Rightarrow> string outcome" where
  "token_at tokens i = (if i < length tokens then Done (tokens ! i) else Panics ''index out of range'')"

definition handleSet :: "'e Database \<Rightarrow> ctx \<Rightarrow> string list \<Rightarrow> 'e \<Rightarrow> (string \<times> 'e) outcome" where
  "handleSet db ctx tokens e =
     (if int (length tokens) - 1 \<noteq> CommandSetQ then Done (''must be two arguments'', e)
      else outcome_bind (token_at tokens 1) (\<lambda>key. outcome_bind (token_at tokens 2) (\<lambda>value.
        outcome_bind (sl_Set (db_Storage db) ctx key value e) (\<lambda>(err, e').
          if err \<noteq> None then Done (''failed SET'', e') else Done (''OK'', e')))))"

definition handleGet :: "'e Database \<Rightarrow> ctx \<Rightarrow> string list \<Rightarrow> 'e \<Rightarrow> (string \<times> 'e) outcome" where
  "handleGet db ctx tokens e =
     (if int (length tokens) - 1 \<noteq> CommandGetQ then Done (''must be one argument'', e)
      else outcome_bind (token_at tokens 1) (\<lambda>key.
        case sl_Get (db_Storage db) ctx key e of
          Inl err \<Rightarrow> if errors_Is err Storage_ErrKeyNotFound then Done (''NOT_FOUND'', e) else Done (''failed GET'', e)
        | Inr result \<Rightarrow> Done (''VALUE '' @ result, e)))"

definition handleDel :: "'e Database \<Rightarrow> ctx \<Rightarrow> string list \<Rightarrow> 'e \<Rightarrow> (string \<times> 'e) outcome" where
  "handleDel db ctx tokens e =
     (if int (length tokens) - 1 \<noteq> CommandDelQ then Done (''must be one argument'', e)
      else outcome_bind (token_at tokens 1) (\<lambda>key.
        outcome_bind (sl_Del (db_Storage db) ctx key e) (\<lambda>(err, e').
          if err \<noteq> None then Done (''failed DEL'', e') else Done (''DELETED'', e'))))"

definition DatabaseHandler :: "'e Database \<Rightarrow> ctx \<Rightarrow> string \<Rightarrow> 'e \<Rightarrow> (string \<times> 'e) outcome" where
  "DatabaseHandler db ctx raw e =
     (case cl_ParseAndValidate (db_Compute db) raw of
        Inl err \<Rightarrow> Done (''failed to parse command'', e)
      | Inr tokens \<Rightarrow> outcome_bind (token_at tokens 0) (\<lambda>cmd.
          if cmd = CommandSet then handleSet db ctx tokens e
          else if cmd = CommandGet then handleGet db ctx tokens e
          else if cmd = CommandDel then handleDel db ctx tokens e
          else Done (''invalid command'', e)))"

section \<open>The specification\<close>

text \<open>
  A command on a map: \<open>failed\<close> says whether the write, if it is one, fails. Reads and rejected commands
  never change the map.
\<close>

fun exec_spec :: "string list \<Rightarrow> bool \<Rightarrow> (string \<Rightarrow> string option) \<Rightarrow> string \<times> (string \<Rightarrow> string option)" where
  "exec_spec [] failed m = (''failed to parse command'', m)"
| "exec_spec (cmd # args) failed m =
     (if cmd = ''SET'' then
        (case args of
           [k, v] \<Rightarrow> if failed then (''failed SET'', m) else (''OK'', m(k := Some v))
         | _ \<Rightarrow> (''must be two arguments'', m))
      else if cmd = ''GET'' then
        (case args of
           [k] \<Rightarrow> ((case m k of None \<Rightarrow> ''NOT_FOUND'' | Some v \<Rightarrow> ''VALUE '' @ v), m)
         | _ \<Rightarrow> (''must be one argument'', m))
      else if cmd = ''DEL'' then
        (case args of
           [k] \<Rightarrow> if failed then (''failed DEL'', m) else (''DELETED'', m(k := None))
         | _ \<Rightarrow> (''must be one argument'', m))
      else (''invalid command'', m))"

text \<open>A run of the specification: one command after another, each with its own fate.\<close>

fun spec_run :: "(string list \<times> bool) list \<Rightarrow> (string \<Rightarrow> string option) \<Rightarrow> string list \<times> (string \<Rightarrow> string option)" where
  "spec_run [] m = ([], m)"
| "spec_run ((tokens, failed) # cs) m =
     (case exec_spec tokens failed m of (resp, m1) \<Rightarrow> case spec_run cs m1 of (resps, m2) \<Rightarrow> (resp # resps, m2))"

lemma spec_run_length: "spec_run cs m = (resps, m') \<Longrightarrow> length resps = length cs"
  by (induction cs m arbitrary: resps m' rule: spec_run.induct) (auto split: prod.splits)

fun handle_all :: "'e Database \<Rightarrow> (ctx \<times> string) list \<Rightarrow> 'e \<Rightarrow> (string list \<times> 'e) outcome" where
  "handle_all db [] e = Done ([], e)"
| "handle_all db ((ctx, raw) # reqs) e =
     outcome_bind (DatabaseHandler db ctx raw e) (\<lambda>(resp, e1).
     outcome_bind (handle_all db reqs e1) (\<lambda>(resps, e2). Done (resp # resps, e2)))"

text \<open>The tokens the specification sees: none when the parse fails.\<close>

definition tokens_of :: "(string \<Rightarrow> string list result) \<Rightarrow> string \<Rightarrow> string list" where
  "tokens_of parse raw = (case parse raw of Inl err \<Rightarrow> [] | Inr tokens \<Rightarrow> tokens)"

section \<open>The dispatcher over its contracts\<close>

text \<open>What the dispatcher needs of the compute layer: a successful parse has a command name.\<close>

locale compute_layer =
  fixes parse :: "string \<Rightarrow> string list result"
  assumes parse_nonempty: "parse raw = Inr tokens \<Longrightarrow> tokens \<noteq> []"

locale dispatcher = compute_layer parse + storage_layer sset sdel sget view wf
  for parse :: "string \<Rightarrow> string list result"
    and sset :: "ctx \<Rightarrow> string \<Rightarrow> string \<Rightarrow> 'e \<Rightarrow> (go_error option \<times> 'e) outcome"
    and sdel :: "ctx \<Rightarrow> string \<Rightarrow> 'e \<Rightarrow> (go_error option \<times> 'e) outcome"
    and sget :: "ctx \<Rightarrow> string \<Rightarrow> 'e \<Rightarrow> string result"
    and view :: "'e \<Rightarrow> string \<Rightarrow> string option"
    and wf :: "'e \<Rightarrow> bool" +
  fixes db :: "'e Database"
  assumes wired: "cl_ParseAndValidate (db_Compute db) = parse" "sl_Set (db_Storage db) = sset"
      "sl_Del (db_Storage db) = sdel" "sl_Get (db_Storage db) = sget"
begin

lemma handleSet_refines:
  assumes "wf e"
  shows "\<exists>resp e' failed. handleSet db ctx (''SET'' # args) e = Done (resp, e') \<and> wf e' \<and>
    exec_spec (''SET'' # args) failed (view e) = (resp, view e')"
proof (cases "length args = 2")
  case True
  then obtain k v where args: "args = [k, v]" by (auto simp: length_Suc_conv numeral_2_eq_2)
  from sset_returns [OF assms, of ctx k v] obtain err e' where
    "sset ctx k v e = Done (err, e')" "wf e'" "view e' = (if err = None then (view e)(k := Some v) else view e)" by blast
  then show ?thesis
    by (intro exI [of _ "if err = None then ''OK'' else ''failed SET''"] exI [of _ e'] exI [of _ "err \<noteq> None"])
      (auto simp: handleSet_def args wired token_at_def command_consts)
next
  case False
  with assms show ?thesis
    by (auto simp: handleSet_def command_consts numeral_2_eq_2 split: list.splits)
qed

lemma handleDel_refines:
  assumes "wf e"
  shows "\<exists>resp e' failed. handleDel db ctx (''DEL'' # args) e = Done (resp, e') \<and> wf e' \<and>
    exec_spec (''DEL'' # args) failed (view e) = (resp, view e')"
proof (cases "length args = 1")
  case True
  then obtain k where args: "args = [k]" by (auto simp: length_Suc_conv)
  from sdel_returns [OF assms, of ctx k] obtain err e' where
    "sdel ctx k e = Done (err, e')" "wf e'" "view e' = (if err = None then (view e)(k := None) else view e)" by blast
  then show ?thesis
    by (intro exI [of _ "if err = None then ''DELETED'' else ''failed DEL''"] exI [of _ e'] exI [of _ "err \<noteq> None"])
      (auto simp: handleDel_def args wired token_at_def command_consts)
next
  case False
  with assms show ?thesis by (auto simp: handleDel_def command_consts split: list.splits)
qed

lemma handleGet_refines:
  assumes "wf e"
  shows "\<exists>resp e' failed. handleGet db ctx (''GET'' # args) e = Done (resp, e') \<and> wf e' \<and>
    exec_spec (''GET'' # args) failed (view e) = (resp, view e')"
  using assms
  by (cases "length args = 1")
    (auto simp: handleGet_def wired token_at_def command_consts sget_view length_Suc_conv split: list.splits option.splits)

lemma handler_refines:
  assumes "wf e"
  shows "\<exists>resp e' failed. DatabaseHandler db ctx raw e = Done (resp, e') \<and> wf e' \<and>
    exec_spec (tokens_of parse raw) failed (view e) = (resp, view e')"
proof (cases "parse raw")
  case (Inl err)
  with assms show ?thesis by (simp add: DatabaseHandler_def wired tokens_of_def)
next
  case (Inr tokens)
  with parse_nonempty obtain cmd args where t: "tokens = cmd # args" by (cases tokens) auto
  show ?thesis
    using assms handleSet_refines [OF assms, of ctx args] handleGet_refines [OF assms, of ctx args]
      handleDel_refines [OF assms, of ctx args]
    by (simp add: DatabaseHandler_def wired tokens_of_def Inr t token_at_def command_consts del: exec_spec.simps)
      (auto simp: command_consts)
qed

lemma handle_all_refines:
  "wf e \<Longrightarrow> \<exists>resps e' fates. handle_all db reqs e = Done (resps, e') \<and> wf e' \<and> length fates = length reqs \<and>
    spec_run (zip (map (tokens_of parse \<circ> snd) reqs) fates) (view e) = (resps, view e')"
proof (induction reqs arbitrary: e)
  case (Cons req reqs)
  obtain ctx raw where req: "req = (ctx, raw)" by fastforce
  from handler_refines [OF Cons.prems, of ctx raw] obtain resp e1 failed where
    h: "DatabaseHandler db ctx raw e = Done (resp, e1)" "wf e1" "exec_spec (tokens_of parse raw) failed (view e) = (resp, view e1)" by blast
  from Cons.IH [OF h(2)] obtain resps e2 fates where "handle_all db reqs e1 = Done (resps, e2)" "wf e2"
    "length fates = length reqs" "spec_run (zip (map (tokens_of parse \<circ> snd) reqs) fates) (view e1) = (resps, view e2)" by blast
  with h show ?case by (intro exI [of _ "resp # resps"] exI [of _ e2] exI [of _ "failed # fates"]) (simp add: req comp_def)
qed simp

end

interpretation pv: compute_layer "ParseAndValidate up" for up
  by unfold_locales (auto simp: ParseAndValidate_def Let_def split: list.splits if_splits)

end
