(* ===== verification/Gob.thy ===== *)
theory Gob
  imports Go_Prelude "HOL-Library.Sublist"
begin

text \<open>
  The wire format of \<^verbatim>\<open>encoding/gob\<close> as far as the WAL uses it, at the level of bytes: unsigned
  and signed integers, strings, slices of strings, and length-prefixed messages. The format of the
  \<^verbatim>\<open>Log\<close> type on top of it is in the theory of the WAL records.
\<close>

section \<open>Unsigned integers\<close>

text \<open>Big-endian bytes without leading zeros, and their value.\<close>

fun be_bytes :: "nat \<Rightarrow> bytes" where
  "be_bytes n = (if n = 0 then [] else be_bytes (n div 256) @ [mk_byte (n mod 256)])"

declare be_bytes.simps [simp del]

definition be_val :: "bytes \<Rightarrow> nat" where
  "be_val bs = foldl (\<lambda>x b. x * 256 + byte_val b) 0 bs"

text \<open>
  A value up to 127 is one byte; a larger one is a byte holding the negated count of the bytes that
  follow.
\<close>

definition encodeUint :: "nat \<Rightarrow> bytes" where
  "encodeUint x =
     (if x \<le> 127 then [mk_byte x]
      else mk_byte (256 - length (be_bytes x)) # be_bytes x)"

definition decodeUint :: "bytes \<Rightarrow> gob_error + (nat \<times> bytes)" where
  "decodeUint bs = (case bs of
       [] \<Rightarrow> Inl Gob_EOF
     | b # t \<Rightarrow>
         if byte_val b \<le> 127 then Inr (byte_val b, t)
         else let n = 256 - byte_val b in
           if 8 < n then Inl Gob_Bad_Data
           else if length t < n then Inl Gob_UnexpectedEOF
           else Inr (be_val (take n t), drop n t))"

lemma be_bytes_0 [simp]: "be_bytes 0 = []"
  by (simp add: be_bytes.simps [of 0])

lemma be_val_be_bytes [simp]: "be_val (be_bytes n) = n"
proof (induction n rule: be_bytes.induct)
  case (1 n)
  then show ?case
    by (cases "n = 0") (auto simp: be_bytes.simps [of n] be_val_def)
qed

lemma length_be_bytes: "n < 256 ^ k \<Longrightarrow> length (be_bytes n) \<le> k"
proof (induction k arbitrary: n)
  case (Suc k)
  show ?case
  proof (cases "n = 0")
    case False
    have "n div 256 < 256 ^ k" using Suc.prems by (simp add: less_mult_imp_div_less mult.commute)
    then show ?thesis using Suc.IH False by (simp add: be_bytes.simps [of n])
  qed simp
qed simp

lemma be_bytes_nonempty: "0 < n \<Longrightarrow> be_bytes n \<noteq> []"
  by (simp add: be_bytes.simps [of n])

lemma encodeUint_nonempty [simp]: "encodeUint x \<noteq> []"
  by (simp add: encodeUint_def)

lemma length_be_bytes_u64: "x < 2 ^ 64 \<Longrightarrow> length (be_bytes x) \<le> 8"
  using length_be_bytes [of x 8] by simp

lemma length_encodeUint: "x < 2 ^ 64 \<Longrightarrow> length (encodeUint x) \<le> 9"
  using length_be_bytes_u64 [of x] by (simp add: encodeUint_def)

lemma decodeUint_encodeUint [simp]:
  assumes "x < 2 ^ 64"
  shows "decodeUint (encodeUint x @ rest) = Inr (x, rest)"
proof (cases "x \<le> 127")
  case True
  then show ?thesis by (simp add: encodeUint_def decodeUint_def)
next
  case False
  let ?n = "length (be_bytes x)"
  have n: "0 < ?n" "?n \<le> 8"
    using assms False be_bytes_nonempty [of x] length_be_bytes_u64 [of x] by auto
  then have "256 - ?n < 256" by simp
  then have "byte_val (mk_byte (256 - ?n)) = 256 - ?n" by (rule byte_val_mk_byte)
  with n False show ?thesis by (simp add: encodeUint_def decodeUint_def Let_def)
qed

lemma decodeUint_shorter: "decodeUint bs = Inr (x, rest) \<Longrightarrow> length rest < length bs"
  by (auto simp: decodeUint_def Let_def split: list.splits if_splits)

text \<open>Any proper, non-empty prefix of an encoded integer ends in the middle of it.\<close>

lemma decodeUint_cut:
  assumes "x < 2 ^ 64" "strict_prefix p (encodeUint x)" "p \<noteq> []"
  shows "decodeUint p = Inl Gob_UnexpectedEOF"
proof -
  have big: "\<not> x \<le> 127"
  proof
    assume "x \<le> 127"
    with assms(2,3) show False by (auto simp: encodeUint_def strict_prefix_def prefix_Cons)
  qed
  let ?n = "length (be_bytes x)"
  obtain t where p: "p = mk_byte (256 - ?n) # t" and t: "strict_prefix t (be_bytes x)"
    using assms(2,3) big by (cases p) (auto simp: encodeUint_def)
  have n: "0 < ?n" "?n \<le> 8"
    using assms(1) big be_bytes_nonempty [of x] length_be_bytes_u64 [of x] by auto
  then have "256 - ?n < 256" by simp
  then have "byte_val (mk_byte (256 - ?n)) = 256 - ?n" by (rule byte_val_mk_byte)
  with n t show ?thesis by (simp add: p decodeUint_def Let_def prefix_length_less)
qed

section \<open>Signed integers\<close>

text \<open>The sign goes to the lowest bit; a negative value is complemented first.\<close>

definition int_bits :: "int \<Rightarrow> nat" where
  "int_bits i = (if i < 0 then nat (2 * (- i - 1) + 1) else nat (2 * i))"

definition toInt :: "nat \<Rightarrow> int" where
  "toInt x = (if odd x then - int (x div 2) - 1 else int (x div 2))"

definition encodeInt :: "int \<Rightarrow> bytes" where
  "encodeInt i = encodeUint (int_bits i)"

definition decodeInt :: "bytes \<Rightarrow> gob_error + (int \<times> bytes)" where
  "decodeInt bs = (case decodeUint bs of Inl e \<Rightarrow> Inl e | Inr (x, r) \<Rightarrow> Inr (toInt x, r))"

lemma toInt_int_bits [simp]: "toInt (int_bits i) = i"
proof (cases "i < 0")
  case True
  then have "int (int_bits i) = 2 * (- i - 1) + 1" by (simp add: int_bits_def)
  then have "odd (int (int_bits i))" and "int (int_bits i) div 2 = - i - 1" by simp_all
  then have "odd (int_bits i)" and "int (int_bits i div 2) = - i - 1" by (simp_all add: zdiv_int)
  then show ?thesis by (simp add: toInt_def)
next
  case False
  then have "int (int_bits i) = 2 * i" by (simp add: int_bits_def)
  then have "even (int (int_bits i))" and "int (int_bits i) div 2 = i" by simp_all
  then have "even (int_bits i)" and "int (int_bits i div 2) = i" by (simp_all add: zdiv_int)
  then show ?thesis by (simp add: toInt_def)
qed

lemma int_bits_range: "int64_range i \<Longrightarrow> int_bits i < 2 ^ 64"
  by (auto simp: int64_range_def int_bits_def nat_less_iff)

lemma decodeInt_encodeInt [simp]: "int64_range i \<Longrightarrow> decodeInt (encodeInt i @ rest) = Inr (i, rest)"
  using decodeUint_encodeUint [OF int_bits_range] by (simp add: decodeInt_def encodeInt_def)

lemma encodeInt_nonempty [simp]: "encodeInt i \<noteq> []"
  by (simp add: encodeInt_def)

section \<open>Strings and slices of strings\<close>

definition encodeString :: "string \<Rightarrow> bytes" where
  "encodeString s = encodeUint (length s) @ s"

definition decodeString :: "bytes \<Rightarrow> gob_error + (string \<times> bytes)" where
  "decodeString bs = (case decodeUint bs of
       Inl e \<Rightarrow> Inl e
     | Inr (n, r) \<Rightarrow> if length r < n then Inl Gob_Bad_Data else Inr (take n r, drop n r))"

text \<open>The largest message the package accepts: \<^verbatim>\<open>(1 << 30) << (^uint(0) >> 62)\<close>.\<close>

definition tooBig :: nat where
  "tooBig = 2 ^ 33"

definition encodeStrings :: "string list \<Rightarrow> bytes" where
  "encodeStrings ss = encodeUint (length ss) @ concat (map encodeString ss)"

fun decode_elems :: "nat \<Rightarrow> bytes \<Rightarrow> gob_error + (string list \<times> bytes)" where
  "decode_elems 0 bs = Inr ([], bs)"
| "decode_elems (Suc n) bs =
     (if bs = [] then Inl Gob_Bad_Data
      else case decodeString bs of
          Inl e \<Rightarrow> Inl e
        | Inr (s, r) \<Rightarrow> (case decode_elems n r of Inl e \<Rightarrow> Inl e | Inr (ss, r') \<Rightarrow> Inr (s # ss, r')))"

text \<open>A string header takes 16 bytes; a slice whose elements would take \<open>tooBig\<close> bytes is refused.\<close>

definition decodeStrings :: "bytes \<Rightarrow> gob_error + (string list \<times> bytes)" where
  "decodeStrings bs = (case decodeUint bs of
       Inl e \<Rightarrow> Inl e
     | Inr (n, r) \<Rightarrow> if tooBig < n * 16 then Inl Gob_Bad_Data else decode_elems n r)"

lemma decodeString_encodeString [simp]:
  "length s < 2 ^ 64 \<Longrightarrow> decodeString (encodeString s @ rest) = Inr (s, rest)"
  by (simp add: decodeString_def encodeString_def)

lemma encodeString_nonempty [simp]: "encodeString s \<noteq> []"
  by (simp add: encodeString_def)

lemma decode_elems_encode:
  "\<forall>s \<in> set ss. length s < 2 ^ 64 \<Longrightarrow>
   decode_elems (length ss) (concat (map encodeString ss) @ rest) = Inr (ss, rest)"
  by (induction ss) auto

lemma decodeStrings_encodeStrings [simp]:
  "length ss * 16 \<le> tooBig \<Longrightarrow> \<forall>s \<in> set ss. length s < 2 ^ 64 \<Longrightarrow>
   decodeStrings (encodeStrings ss @ rest) = Inr (ss, rest)"
  by (simp add: decodeStrings_def encodeStrings_def tooBig_def decode_elems_encode)

section \<open>Messages\<close>

text \<open>A message on the stream: its length and its bytes.\<close>

definition frame :: "bytes \<Rightarrow> bytes" where
  "frame m = encodeUint (length m) @ m"

definition recvMessage :: "bytes \<Rightarrow> gob_error + (bytes \<times> bytes)" where
  "recvMessage bs = (case decodeUint bs of
       Inl e \<Rightarrow> Inl e
     | Inr (n, r) \<Rightarrow>
         if tooBig \<le> n then Inl Gob_Bad_Data
         else if length r < n then Inl Gob_UnexpectedEOF
         else Inr (take n r, drop n r))"

lemma recvMessage_frame [simp]:
  "length m < tooBig \<Longrightarrow> recvMessage (frame m @ rest) = Inr (m, rest)"
  by (simp add: recvMessage_def frame_def tooBig_def)

lemma recvMessage_Nil [simp]: "recvMessage [] = Inl Gob_EOF"
  by (simp add: recvMessage_def decodeUint_def)

lemma recvMessage_shorter: "recvMessage bs = Inr (m, rest) \<Longrightarrow> length rest < length bs"
  by (auto simp: recvMessage_def split: sum.splits prod.splits if_splits dest!: decodeUint_shorter)

lemma frame_nonempty [simp]: "frame m \<noteq> []"
  by (simp add: frame_def)

text \<open>A stream cut inside a message is never mistaken for its end.\<close>

lemma recvMessage_cut:
  assumes "length m < tooBig" "strict_prefix p (frame m)" "p \<noteq> []"
  shows "recvMessage p = Inl Gob_UnexpectedEOF"
proof (cases "strict_prefix p (encodeUint (length m))")
  case True
  have "length m < 2 ^ 64" using assms(1) by (simp add: tooBig_def)
  with True assms(3) show ?thesis by (simp add: recvMessage_def decodeUint_cut)
next
  case False
  have "prefix p (frame m)" using assms(2) by simp
  then have "prefix p (encodeUint (length m)) \<or> (\<exists>q. p = encodeUint (length m) @ q)"
    by (auto simp: frame_def prefix_append)
  with False obtain q where q: "p = encodeUint (length m) @ q"
    by (metis append_Nil2 prefix_order.le_less)
  with assms(2) have "length q < length m"
    using prefix_length_less [OF assms(2)] by (simp add: frame_def)
  with q assms(1) show ?thesis by (simp add: recvMessage_def tooBig_def)
qed

end
