(* ===== verification/Wal_Log.thy ===== *)
theory Wal_Log
  imports Gob Concurrency
begin

text \<open>
  wal_log.go and write_request.go: the record \<^verbatim>\<open>Log\<close> with its gob encoding and decoding, byte for
  byte, and \<^verbatim>\<open>WriteRequest\<close>. A gob encoder sends the definition of a type once, before the first
  value of that type; a decoder refuses a second definition of a type it knows.
\<close>

section \<open>The record\<close>

record Log =
  LSN :: int64
  CommandID :: int64
  Arguments :: "string list"

definition zero_Log :: Log where
  "zero_Log = \<lparr>LSN = 0, CommandID = 0, Arguments = []\<rparr>"

section \<open>Type definitions on the wire\<close>

text \<open>
  Gob numbers user types from 65 in the order it meets them: \<^verbatim>\<open>Log\<close> is 65 and its field type
  \<^verbatim>\<open>[]string\<close> is 66. The built-in types \<^verbatim>\<open>int\<close> and \<^verbatim>\<open>string\<close> are 2 and 6. A definition is sent as
  the negated number and a value of gob's own type \<^verbatim>\<open>wireType\<close>: structs are encoded as (field
  distance, value) pairs ended by a zero.
\<close>

definition log_type_id :: int where "log_type_id = 65"
definition args_type_id :: int where "args_type_id = 66"
definition firstUserId :: int where "firstUserId = 64"

definition common_type :: "string \<Rightarrow> int \<Rightarrow> bytes" where
  "common_type name tid = [mk_byte 1] @ encodeString name @ [mk_byte 1] @ encodeInt tid @ [mk_byte 0]"

definition field_type :: "string \<Rightarrow> int \<Rightarrow> bytes" where
  "field_type name tid = [mk_byte 1] @ encodeString name @ [mk_byte 1] @ encodeInt tid @ [mk_byte 0]"

definition log_wire :: bytes where
  "log_wire = [mk_byte 3, mk_byte 1] @ common_type ''Log'' log_type_id @
     [mk_byte 1] @ encodeUint 3 @
     field_type ''LSN'' 2 @ field_type ''CommandID'' 2 @ field_type ''Arguments'' args_type_id @
     [mk_byte 0, mk_byte 0]"

definition args_wire :: bytes where
  "args_wire = [mk_byte 2, mk_byte 1] @ common_type ''[]string'' args_type_id @
     [mk_byte 1] @ encodeInt 6 @ [mk_byte 0, mk_byte 0]"

definition log_def :: bytes where
  "log_def = encodeInt (- log_type_id) @ log_wire"

definition args_def :: bytes where
  "args_def = encodeInt (- args_type_id) @ args_wire"

section \<open>Encoding\<close>

text \<open>
  A struct value: each field that is not its zero value, as the distance from the previous field sent
  and the value, then a zero. The first argument is one more than the number of the last field sent.
\<close>

fun encode_fields :: "nat \<Rightarrow> (nat \<times> bytes option) list \<Rightarrow> bytes" where
  "encode_fields prev [] = [mk_byte 0]"
| "encode_fields prev ((i, None) # fs) = encode_fields prev fs"
| "encode_fields prev ((i, Some b) # fs) = encodeUint (Suc i - prev) @ b @ encode_fields (Suc i) fs"

definition log_fields :: "Log \<Rightarrow> (nat \<times> bytes option) list" where
  "log_fields l =
     [(0, if LSN l = 0 then None else Some (encodeInt (LSN l))),
      (1, if CommandID l = 0 then None else Some (encodeInt (CommandID l))),
      (2, if Arguments l = [] then None else Some (encodeStrings (Arguments l)))]"

definition log_message :: "Log \<Rightarrow> bytes" where
  "log_message l = encodeInt log_type_id @ encode_fields 0 (log_fields l)"

text \<open>
  \<^verbatim>\<open>gob.Encoder\<close>: whether the definitions of \<^verbatim>\<open>Log\<close> and \<^verbatim>\<open>[]string\<close> have been sent, and the bytes
  written to its buffer.
\<close>

record Encoder =
  enc_sent :: bool
  enc_buf :: bytes

definition NewEncoder :: "bytes \<Rightarrow> Encoder" where
  "NewEncoder buffer = \<lparr>enc_sent = False, enc_buf = buffer\<rparr>"

definition EncodeTo :: "Log \<Rightarrow> Encoder \<Rightarrow> go_error option \<times> Encoder" where
  "EncodeTo l enc =
     (let buf = (if enc_sent enc then enc_buf enc else enc_buf enc @ frame log_def @ frame args_def);
          enc' = enc\<lparr>enc_sent := True, enc_buf := buf\<rparr>
      in if tooBig \<le> length (log_message l) then (Some (GobError Gob_Too_Big), enc')
         else (None, enc'\<lparr>enc_buf := buf @ frame (log_message l)\<rparr>))"

definition Log_Encode :: "Log \<Rightarrow> bytes \<Rightarrow> go_error option \<times> bytes" where
  "Log_Encode l buffer = (case EncodeTo l (NewEncoder buffer) of (err, enc) \<Rightarrow> (err, enc_buf enc))"

section \<open>Decoding\<close>

text \<open>The type definitions a decoder has received, by number, and the input it has not read yet.\<close>

record Decoder =
  dec_wire :: "(int \<times> bytes) list"
  dec_in :: bytes

definition NewDecoder :: "bytes \<Rightarrow> Decoder" where
  "NewDecoder buffer = \<lparr>dec_wire = [], dec_in = buffer\<rparr>"

text \<open>
  \<^verbatim>\<open>recvType\<close>: a number that is not a user type's or is already defined is an error. Of the
  definitions themselves the model knows the two an encoder of this program sends; any other is
  treated as data that cannot be decoded into a \<^verbatim>\<open>Log\<close>.
\<close>

definition recvType :: "int \<Rightarrow> bytes \<Rightarrow> (int \<times> bytes) list \<Rightarrow> gob_error + (int \<times> bytes) list" where
  "recvType tid body wire =
     (if tid < firstUserId \<or> tid \<in> fst ` set wire then Inl Gob_Duplicate_Type
      else if (tid = log_type_id \<and> body = log_wire) \<or> (tid = args_type_id \<and> body = args_wire)
      then Inr (wire @ [(tid, body)])
      else Inl Gob_Bad_Data)"

text \<open>
  \<^verbatim>\<open>decodeTypeSequence\<close>: read messages, taking in type definitions, until one holds a value; the end
  of the input after a definition is unexpected. The flag is the local \<^verbatim>\<open>firstMessage\<close>.
\<close>

function decodeTypeSequence ::
    "bool \<Rightarrow> (int \<times> bytes) list \<Rightarrow> bytes \<Rightarrow> gob_error + ((int \<times> bytes) list \<times> int \<times> bytes \<times> bytes)" where
  "decodeTypeSequence first wire bs =
     (case recvMessage bs of
        Inl e \<Rightarrow> Inl (if \<not> first \<and> e = Gob_EOF then Gob_UnexpectedEOF else e)
      | Inr (m, rest) \<Rightarrow>
          (case decodeInt m of
             Inl e \<Rightarrow> Inl e
           | Inr (tid, body) \<Rightarrow>
               if 0 \<le> tid then Inr (wire, tid, body, rest)
               else (case recvType (- tid) body wire of
                   Inl e \<Rightarrow> Inl e
                 | Inr wire' \<Rightarrow> decodeTypeSequence False wire' rest)))"
  by pat_completeness auto
termination
  by (relation "measure (\<lambda>(_, _, bs). length bs)") (auto dest: recvMessage_shorter)

declare decodeTypeSequence.simps [simp del]

definition decode_field :: "nat \<Rightarrow> Log \<Rightarrow> bytes \<Rightarrow> gob_error + (Log \<times> bytes)" where
  "decode_field i l bs =
     (if i = 0 then (case decodeInt bs of Inl e \<Rightarrow> Inl e | Inr (x, r) \<Rightarrow> Inr (l\<lparr>LSN := x\<rparr>, r))
      else if i = 1 then (case decodeInt bs of Inl e \<Rightarrow> Inl e | Inr (x, r) \<Rightarrow> Inr (l\<lparr>CommandID := x\<rparr>, r))
      else (case decodeStrings bs of Inl e \<Rightarrow> Inl e | Inr (x, r) \<Rightarrow> Inr (l\<lparr>Arguments := x\<rparr>, r)))"

text \<open>\<^verbatim>\<open>decodeStruct\<close>: the field loop. Field numbers only grow, and a struct \<^verbatim>\<open>Log\<close> has three.\<close>

function decode_struct :: "nat \<Rightarrow> Log \<Rightarrow> bytes \<Rightarrow> gob_error + Log" where
  "decode_struct prev l bs =
     (if bs = [] then Inr l
      else case decodeUint bs of
          Inl e \<Rightarrow> Inl e
        | Inr (delta, r) \<Rightarrow>
            if delta = 0 then Inr l
            else if 3 < prev + delta then Inl Gob_Bad_Data
            else (case decode_field (prev + delta - 1) l r of
                Inl e \<Rightarrow> Inl e
              | Inr (l', r') \<Rightarrow> decode_struct (prev + delta) l' r'))"
  by pat_completeness auto
termination
  by (relation "measure (\<lambda>(prev, _, _). 3 - prev)") auto

declare decode_struct.simps [simp del]

definition decodeValue :: "(int \<times> bytes) list \<Rightarrow> int \<Rightarrow> bytes \<Rightarrow> gob_error + Log" where
  "decodeValue wire tid body =
     (if tid = log_type_id \<and> log_type_id \<in> fst ` set wire \<and> args_type_id \<in> fst ` set wire
      then decode_struct 0 zero_Log body
      else Inl Gob_Bad_Data)"

definition DecodeFrom :: "Decoder \<Rightarrow> gob_error + (Log \<times> Decoder)" where
  "DecodeFrom dec =
     (case decodeTypeSequence True (dec_wire dec) (dec_in dec) of
        Inl e \<Rightarrow> Inl e
      | Inr (wire, tid, body, rest) \<Rightarrow>
          (case decodeValue wire tid body of
             Inl e \<Rightarrow> Inl e
           | Inr l \<Rightarrow> Inr (l, \<lparr>dec_wire = wire, dec_in = rest\<rparr>)))"

definition Log_Decode :: "bytes \<Rightarrow> gob_error + (Log \<times> bytes)" where
  "Log_Decode buffer = (case DecodeFrom (NewDecoder buffer) of
       Inl e \<Rightarrow> Inl e | Inr (l, dec) \<Rightarrow> Inr (l, dec_in dec))"

lemma decodeTypeSequence_shorter:
  "decodeTypeSequence first wire bs = Inr (wire', tid, body, rest) \<Longrightarrow> length rest < length bs"
proof (induction first wire bs rule: decodeTypeSequence.induct)
  case (1 first wire bs)
  from "1.prems" obtain m r where m: "recvMessage bs = Inr (m, r)"
    by (auto simp: decodeTypeSequence.simps [of first wire bs] split: sum.splits)
  then have "length r < length bs" by (rule recvMessage_shorter)
  with "1.prems" m show ?case
    by (auto simp: decodeTypeSequence.simps [of first wire bs] split: sum.splits prod.splits if_splits
        dest!: "1.IH" [OF m refl])
qed

lemma DecodeFrom_shorter: "DecodeFrom dec = Inr (l, dec') \<Longrightarrow> length (dec_in dec') < length (dec_in dec)"
  by (auto simp: DecodeFrom_def split: sum.splits prod.splits dest!: decodeTypeSequence_shorter)

text \<open>
  The decoding loop of \<^verbatim>\<open>Wal.Recovery\<close>: records until the end of the input, or the first error.
\<close>

function decode_logs :: "Decoder \<Rightarrow> gob_error + Log list" where
  "decode_logs dec =
     (case DecodeFrom dec of
        Inl e \<Rightarrow> if e = Gob_EOF then Inr [] else Inl e
      | Inr (l, dec') \<Rightarrow> (case decode_logs dec' of Inl e \<Rightarrow> Inl e | Inr ls \<Rightarrow> Inr (l # ls)))"
  by pat_completeness auto
termination
  by (relation "measure (\<lambda>dec. length (dec_in dec))") (auto dest: DecodeFrom_shorter)

declare decode_logs.simps [simp del]

section \<open>One record\<close>

definition wf_log :: "Log \<Rightarrow> bool" where
  "wf_log l \<longleftrightarrow> int64_range (LSN l) \<and> int64_range (CommandID l) \<and>
     length (Arguments l) * 16 \<le> tooBig \<and> length (log_message l) < tooBig"

lemma length_encodeInt: "int64_range i \<Longrightarrow> length (encodeInt i) \<le> 9"
  using length_encodeUint [OF int_bits_range] by (simp add: encodeInt_def)

lemma length_log_def: "length log_def < tooBig" and length_args_def: "length args_def < tooBig"
proof -
  have ids: "length (encodeInt i) \<le> 9" if "i \<in> {- 66, - 65, 2, 6, 65, 66}" for i
    using that by (intro length_encodeInt) (auto simp: int64_range_def)
  have str: "length (encodeString s) \<le> 9 + length s" if "length s < 2 ^ 64" for s
    using length_encodeUint [OF that] by (simp add: encodeString_def)
  show "length log_def < tooBig"
    using ids [of "- 65"] ids [of 65] ids [of 66] ids [of 2] length_encodeUint [of 3]
      str [of "''Log''"] str [of "''LSN''"] str [of "''CommandID''"] str [of "''Arguments''"]
    by (simp add: log_def_def log_wire_def common_type_def field_type_def log_type_id_def
        args_type_id_def tooBig_def)
  show "length args_def < tooBig"
    using ids [of "- 66"] ids [of 66] ids [of 6] str [of "''[]string''"]
    by (simp add: args_def_def args_wire_def common_type_def args_type_id_def tooBig_def)
qed

lemma decode_struct_end: "decode_struct prev l (mk_byte 0 # rest) = Inr l"
  by (simp add: decode_struct.simps [of prev l "mk_byte 0 # rest"] decodeUint_def)

lemma decode_struct_field:
  assumes "prev \<le> i" "i < 3" "decode_field i l (b @ rest) = Inr (l', rest)"
  shows "decode_struct prev l (encodeUint (Suc i - prev) @ b @ rest) = decode_struct (Suc i) l' rest"
proof -
  define d where "d = Suc i - prev"
  have d: "d \<noteq> 0" "prev + d = Suc i" "d < 2 ^ 64" using assms(1,2) by (auto simp: d_def)
  have "decode_struct prev l (encodeUint d @ b @ rest) = decode_struct (Suc i) l' rest"
    using d assms(2,3) by (simp add: decode_struct.simps [of prev l "encodeUint d @ b @ rest"])
  then show ?thesis by (simp add: d_def)
qed

lemma args_length:
  assumes "length (log_message l) < tooBig" "s \<in> set (Arguments l)"
  shows "length s < 2 ^ 64"
proof -
  have "length s \<le> length (concat (map encodeString ss))" if "s \<in> set ss" for ss
    using that by (induction ss) (auto simp: encodeString_def)
  from this [OF assms(2)] have "length s \<le> length (encodeStrings (Arguments l))"
    by (simp add: encodeStrings_def)
  also have "\<dots> \<le> length (log_message l)"
    using assms(2) by (auto simp: log_message_def log_fields_def)
  finally show ?thesis using assms(1) by (simp add: tooBig_def)
qed

lemma decode_struct_log:
  assumes "wf_log l"
  shows "decode_struct 0 zero_Log (encode_fields 0 (log_fields l)) = Inr l"
proof -
  have r: "int64_range (LSN l)" "int64_range (CommandID l)" "length (Arguments l) * 16 \<le> tooBig"
    "\<forall>s \<in> set (Arguments l). length s < 2 ^ 64"
    using assms args_length [of l] by (auto simp: wf_log_def)
  have 0: "decode_struct 0 m (encodeUint (Suc 0) @ encodeInt (LSN l) @ rest) =
      decode_struct 1 (m\<lparr>LSN := LSN l\<rparr>) rest" for m rest
    using decode_struct_field [of 0 0 m "encodeInt (LSN l)" rest] r by (simp add: decode_field_def)
  have 1: "decode_struct p m (encodeUint (2 - p) @ encodeInt (CommandID l) @ rest) =
      decode_struct 2 (m\<lparr>CommandID := CommandID l\<rparr>) rest" if "p \<le> 1" for p m rest
    using decode_struct_field [of p 1 m "encodeInt (CommandID l)" rest] r that
    by (simp add: decode_field_def numeral_2_eq_2)
  have 2: "decode_struct p m (encodeUint (3 - p) @ encodeStrings (Arguments l) @ rest) =
      decode_struct 3 (m\<lparr>Arguments := Arguments l\<rparr>) rest" if "p \<le> 2" for p m rest
    using decode_struct_field [of p 2 m "encodeStrings (Arguments l)" rest] r that
    by (simp add: decode_field_def numeral_3_eq_3)
  show ?thesis
    using 0 1 [of 0] 1 [of 1] 2 [of 0] 2 [of 1] 2 [of 2]
    by (cases l) (auto simp: log_fields_def zero_Log_def decode_struct_end numeral_2_eq_2 numeral_3_eq_3)
qed

text \<open>What a decoder knows once it has received both definitions.\<close>

abbreviation log_wires :: "(int \<times> bytes) list" where
  "log_wires \<equiv> [(log_type_id, log_wire), (args_type_id, args_wire)]"

lemma decodeTypeSequence_pos:
  assumes "length (encodeInt tid @ body) < tooBig" "int64_range tid" "0 \<le> tid"
  shows "decodeTypeSequence first wire (frame (encodeInt tid @ body) @ rest) = Inr (wire, tid, body, rest)"
  using assms
  by (simp add: decodeTypeSequence.simps [of first wire "frame (encodeInt tid @ body) @ rest"])

lemma decodeTypeSequence_value:
  assumes "wf_log l"
  shows "decodeTypeSequence first wire (frame (log_message l) @ rest) =
    Inr (wire, log_type_id, encode_fields 0 (log_fields l), rest)"
  using decodeTypeSequence_pos [of log_type_id "encode_fields 0 (log_fields l)" first wire rest] assms
  by (simp add: wf_log_def log_message_def log_type_id_def int64_range_def)

lemma decodeTypeSequence_def:
  assumes "length (encodeInt (- tid) @ body) < tooBig" "int64_range (- tid)" "0 < tid"
  shows "decodeTypeSequence first wire (frame (encodeInt (- tid) @ body) @ rest) =
    (case recvType tid body wire of Inl e \<Rightarrow> Inl e | Inr wire' \<Rightarrow> decodeTypeSequence False wire' rest)"
  using assms
  by (simp add: decodeTypeSequence.simps [of first wire "frame (encodeInt (- tid) @ body) @ rest"])

lemma type_ids: "int64_range (- log_type_id)" "0 < log_type_id" "int64_range (- args_type_id)" "0 < args_type_id"
  by (simp_all add: log_type_id_def args_type_id_def int64_range_def)

lemma decodeTypeSequence_log_def:
  "decodeTypeSequence first wire (frame log_def @ rest) =
    (case recvType log_type_id log_wire wire of Inl e \<Rightarrow> Inl e | Inr wire' \<Rightarrow> decodeTypeSequence False wire' rest)"
  using decodeTypeSequence_def [of log_type_id log_wire first wire rest] length_log_def type_ids
  by (simp add: log_def_def)

lemma decodeTypeSequence_args_def:
  "decodeTypeSequence first wire (frame args_def @ rest) =
    (case recvType args_type_id args_wire wire of Inl e \<Rightarrow> Inl e | Inr wire' \<Rightarrow> decodeTypeSequence False wire' rest)"
  using decodeTypeSequence_def [of args_type_id args_wire first wire rest] length_args_def type_ids
  by (simp add: args_def_def)

lemma recvType_fresh:
  "recvType log_type_id log_wire [] = Inr [(log_type_id, log_wire)]"
  "recvType args_type_id args_wire [(log_type_id, log_wire)] = Inr log_wires"
  by (simp_all add: recvType_def firstUserId_def log_type_id_def args_type_id_def)

lemma DecodeFrom_value:
  assumes "wf_log l"
  shows "DecodeFrom \<lparr>dec_wire = log_wires, dec_in = frame (log_message l) @ rest\<rparr> =
    Inr (l, \<lparr>dec_wire = log_wires, dec_in = rest\<rparr>)"
  using assms by (simp add: DecodeFrom_def decodeTypeSequence_value decodeValue_def decode_struct_log)

lemma DecodeFrom_first:
  assumes "wf_log l"
  shows "DecodeFrom (NewDecoder (frame log_def @ frame args_def @ frame (log_message l) @ rest)) =
    Inr (l, \<lparr>dec_wire = log_wires, dec_in = rest\<rparr>)"
  using assms
  by (simp add: DecodeFrom_def NewDecoder_def decodeTypeSequence_log_def decodeTypeSequence_args_def
      recvType_fresh decodeTypeSequence_value decodeValue_def decode_struct_log)

section \<open>A batch of records in one stream\<close>

text \<open>The encoding loop of \<^verbatim>\<open>WalWriter.Write\<close>: it stops at the first record that fails.\<close>

fun encode_all :: "Log list \<Rightarrow> Encoder \<Rightarrow> go_error option \<times> Encoder" where
  "encode_all [] enc = (None, enc)"
| "encode_all (l # ls) enc = (case EncodeTo l enc of
       (Some err, enc') \<Rightarrow> (Some err, enc')
     | (None, enc') \<Rightarrow> encode_all ls enc')"

primrec log_frames :: "Log list \<Rightarrow> bytes" where
  "log_frames [] = []"
| "log_frames (l # ls) = frame (log_message l) @ log_frames ls"

definition batch_stream :: "Log list \<Rightarrow> bytes" where
  "batch_stream ls = (if ls = [] then [] else frame log_def @ frame args_def @ log_frames ls)"

lemma encode_all_sent:
  "list_all wf_log ls \<Longrightarrow> enc_sent enc \<Longrightarrow>
   encode_all ls enc = (None, enc\<lparr>enc_buf := enc_buf enc @ log_frames ls\<rparr>)"
proof (induction ls arbitrary: enc)
  case (Cons l ls)
  then have "EncodeTo l enc = (None, enc\<lparr>enc_buf := enc_buf enc @ frame (log_message l)\<rparr>)"
    by (simp add: EncodeTo_def wf_log_def)
  with Cons show ?case by simp
qed simp

lemma encode_all_NewEncoder:
  assumes "list_all wf_log ls"
  shows "encode_all ls (NewEncoder []) = (None, \<lparr>enc_sent = (ls \<noteq> []), enc_buf = batch_stream ls\<rparr>)"
proof (cases ls)
  case (Cons l ls')
  with assms have "wf_log l" "list_all wf_log ls'" by auto
  then show ?thesis
    by (simp add: Cons EncodeTo_def NewEncoder_def wf_log_def encode_all_sent batch_stream_def)
qed (simp add: NewEncoder_def batch_stream_def)

text \<open>The buffer of an encoder that reported no error holds the stream of the batch.\<close>

lemma encode_all_sent_buf:
  "encode_all ls e = (None, e') \<Longrightarrow> enc_sent e \<Longrightarrow> enc_buf e' = enc_buf e @ log_frames ls"
  by (induction ls arbitrary: e)
    (fastforce simp: EncodeTo_def Let_def split: prod.splits option.splits if_splits)+

lemma encode_all_buf:
  assumes "encode_all ls (NewEncoder []) = (None, enc)"
  shows "enc_buf enc = batch_stream ls"
proof (cases ls)
  case (Cons l ls')
  with assms obtain e1 where e1: "EncodeTo l (NewEncoder []) = (None, e1)" "encode_all ls' e1 = (None, enc)"
    by (auto split: prod.splits option.splits)
  then have "enc_sent e1" "enc_buf e1 = frame log_def @ frame args_def @ frame (log_message l)"
    by (auto simp: EncodeTo_def NewEncoder_def Let_def split: if_splits)
  then show ?thesis using encode_all_sent_buf [OF e1(2)] by (simp add: Cons batch_stream_def)
qed (use assms in \<open>auto simp: NewEncoder_def batch_stream_def\<close>)

lemma encode_all_error: "encode_all ls enc = (Some err, enc') \<Longrightarrow> err = GobError Gob_Too_Big"
  by (induction ls arbitrary: enc)
    (auto simp: EncodeTo_def Let_def split: prod.splits option.splits if_splits)

lemma decode_logs_values:
  "list_all wf_log ls \<Longrightarrow>
   decode_logs \<lparr>dec_wire = log_wires, dec_in = log_frames ls @ rest\<rparr> =
     (case decode_logs \<lparr>dec_wire = log_wires, dec_in = rest\<rparr> of Inl e \<Rightarrow> Inl e | Inr ks \<Rightarrow> Inr (ls @ ks))"
proof (induction ls)
  case Nil
  then show ?case by (simp split: sum.splits)
next
  case (Cons l ls)
  let ?rest = "log_frames ls @ rest"
  have "decode_logs \<lparr>dec_wire = log_wires, dec_in = frame (log_message l) @ ?rest\<rparr> =
    (case decode_logs \<lparr>dec_wire = log_wires, dec_in = ?rest\<rparr> of Inl e \<Rightarrow> Inl e | Inr ks \<Rightarrow> Inr (l # ks))"
    using Cons.prems DecodeFrom_value [of l ?rest]
    by (simp add: decode_logs.simps [of "\<lparr>dec_wire = log_wires, dec_in = frame (log_message l) @ ?rest\<rparr>"])
  with Cons show ?case by (simp split: sum.splits)
qed

lemma decode_logs_batch:
  assumes "list_all wf_log ls" "ls \<noteq> []"
  shows "decode_logs (NewDecoder (batch_stream ls @ rest)) =
    (case decode_logs \<lparr>dec_wire = log_wires, dec_in = rest\<rparr> of Inl e \<Rightarrow> Inl e | Inr ks \<Rightarrow> Inr (ls @ ks))"
proof -
  obtain l ls' where ls: "ls = l # ls'" using assms(2) by (cases ls) auto
  let ?rest = "log_frames ls' @ rest"
  have first: "DecodeFrom (NewDecoder (batch_stream ls @ rest)) =
      Inr (l, \<lparr>dec_wire = log_wires, dec_in = ?rest\<rparr>)"
    using assms(1) DecodeFrom_first [of l ?rest] by (simp add: ls batch_stream_def)
  show ?thesis
    using assms(1) decode_logs_values [of ls' rest]
    by (simp add: decode_logs.simps [of "NewDecoder (batch_stream ls @ rest)"] first)
      (simp add: ls split: sum.splits)
qed

lemma decode_logs_eof: "decode_logs \<lparr>dec_wire = wire, dec_in = []\<rparr> = Inr []"
  by (simp add: decode_logs.simps [of "\<lparr>dec_wire = wire, dec_in = []\<rparr>"] DecodeFrom_def
      decodeTypeSequence.simps [of True wire "[]"])

lemma decode_logs_stream: "list_all wf_log ls \<Longrightarrow> decode_logs (NewDecoder (batch_stream ls)) = Inr ls"
  using decode_logs_batch [of ls "[]"] decode_logs_eof
  by (cases "ls = []") (simp_all add: batch_stream_def NewDecoder_def)

lemma decode_logs_second_def:
  "decode_logs \<lparr>dec_wire = log_wires, dec_in = frame log_def @ rest\<rparr> = Inl Gob_Duplicate_Type"
  by (simp add: decode_logs.simps [of "\<lparr>dec_wire = log_wires, dec_in = frame log_def @ rest\<rparr>"]
      DecodeFrom_def decodeTypeSequence_log_def recvType_def)

lemma decode_logs_two_streams:
  assumes "list_all wf_log ls" "ls \<noteq> []" "ls' \<noteq> []"
  shows "decode_logs (NewDecoder (batch_stream ls @ batch_stream ls' @ rest)) = Inl Gob_Duplicate_Type"
  using assms(3) decode_logs_batch [OF assms(1,2), of "batch_stream ls' @ rest"] decode_logs_second_def
  by (simp add: batch_stream_def)

text \<open>
  C20. A batch written by the WAL's encoder is read back exactly: the byte stream one encoder produces
  for any list of encodable records decodes, with one decoder, to that list.
\<close>

theorem encode_decode_batch:
  assumes "list_all wf_log ls"
  shows "\<exists>enc. encode_all ls (NewEncoder []) = (None, enc) \<and> decode_logs (NewDecoder (enc_buf enc)) = Inr ls"
  using encode_all_NewEncoder [OF assms] decode_logs_stream [OF assms] by auto

lemma length_encodeString: "length s < 2 ^ 64 \<Longrightarrow> length (encodeString s) \<le> 9 + length s"
  using length_encodeUint [of "length s"] by (simp add: encodeString_def)

lemma length_encode_fields:
  "\<forall>x \<in> set fs. fst x < 3 \<Longrightarrow>
   length (encode_fields p fs) \<le> 1 + sum_list (map (\<lambda>x. 9 + (case snd x of None \<Rightarrow> 0 | Some b \<Rightarrow> length b)) fs)"
proof (induction p fs rule: encode_fields.induct)
  case (3 prev i b fs)
  then have "length (encodeUint (Suc i - prev)) \<le> 9" by (intro length_encodeUint) auto
  with 3 show ?case by simp
qed auto

text \<open>A record with short arguments is encodable.\<close>

lemma wf_log_small:
  assumes "int64_range (LSN l)" "int64_range (CommandID l)" "length (Arguments l) \<le> 2"
    and "\<forall>s \<in> set (Arguments l). length s < 2 ^ 20"
  shows "wf_log l"
proof -
  have elems: "length (concat (map encodeString ss)) \<le> (9 + 2 ^ 20) * length ss"
    if "\<forall>s \<in> set ss. length s < 2 ^ 20" for ss
    using that
  proof (induction ss)
    case (Cons s ss)
    then have "length (encodeString s) \<le> 9 + 2 ^ 20"
      using length_encodeString [of s] by simp
    with Cons show ?case by simp
  qed simp
  have "length (encodeStrings (Arguments l)) \<le> 9 + (9 + 2 ^ 20) * length (Arguments l)"
    using elems [OF assms(4)] length_encodeUint [of "length (Arguments l)"] assms(3)
    by (simp add: encodeStrings_def)
  also have "\<dots> \<le> 9 + (9 + 2 ^ 20) * 2" using assms(3) by simp
  finally have args: "length (encodeStrings (Arguments l)) \<le> 9 + (9 + 2 ^ 20) * 2" .
  have "length (encodeInt log_type_id) \<le> 9"
    by (rule length_encodeInt) (simp add: log_type_id_def int64_range_def)
  moreover have "length (encode_fields 0 (log_fields l)) \<le> 1 + (9 + 9) + (9 + 9) + (9 + (9 + (9 + 2 ^ 20) * 2))"
    using length_encode_fields [of "log_fields l" 0] args length_encodeInt [OF assms(1)] length_encodeInt [OF assms(2)]
    by (simp add: log_fields_def split: if_splits)
  ultimately have "length (log_message l) < tooBig"
    by (simp add: log_message_def tooBig_def)
  with assms show ?thesis by (simp add: wf_log_def tooBig_def)
qed

theorem encode_decode_batch_witness:
  "\<exists>enc. encode_all [\<lparr>LSN = 2, CommandID = 1, Arguments = [''a'', ''1'']\<rparr>,
                     \<lparr>LSN = 1, CommandID = 2, Arguments = [''b'']\<rparr>] (NewEncoder []) = (None, enc) \<and>
     decode_logs (NewDecoder (enc_buf enc)) =
       Inr [\<lparr>LSN = 2, CommandID = 1, Arguments = [''a'', ''1'']\<rparr>,
            \<lparr>LSN = 1, CommandID = 2, Arguments = [''b'']\<rparr>]"
  by (rule encode_decode_batch) (simp add: wf_log_small int64_range_def)

text \<open>
  Two batches in one file cannot be read back: each flush uses a fresh encoder, which sends the
  type definitions again, and the decoder refuses the second definition, whatever follows it.
\<close>

theorem decode_two_batches_fails:
  assumes "list_all wf_log ls" and "ls \<noteq> []" and "list_all wf_log ls'" and "ls' \<noteq> []"
    and "encode_all ls (NewEncoder []) = (None, enc)" and "encode_all ls' (NewEncoder []) = (None, enc')"
  shows "decode_logs (NewDecoder (enc_buf enc @ enc_buf enc' @ rest)) = Inl Gob_Duplicate_Type"
  using assms encode_all_NewEncoder [of ls] encode_all_NewEncoder [of ls'] decode_logs_two_streams
  by auto

theorem decode_two_batches_fails_witness:
  "\<exists>enc enc'. encode_all [\<lparr>LSN = 1, CommandID = 1, Arguments = [''a'', ''1'']\<rparr>] (NewEncoder []) = (None, enc) \<and>
     encode_all [\<lparr>LSN = 2, CommandID = 2, Arguments = [''a'']\<rparr>] (NewEncoder []) = (None, enc') \<and>
     decode_logs (NewDecoder (enc_buf enc @ enc_buf enc' @ [])) = Inl Gob_Duplicate_Type"
proof -
  let ?a = "[\<lparr>LSN = 1, CommandID = 1, Arguments = [''a'', ''1'']\<rparr>]"
  let ?b = "[\<lparr>LSN = 2, CommandID = 2, Arguments = [''a'']\<rparr>]"
  have wf: "list_all wf_log ?a" "list_all wf_log ?b" by (simp_all add: wf_log_small int64_range_def)
  obtain enc where a: "encode_all ?a (NewEncoder []) = (None, enc)"
    using encode_all_NewEncoder [OF wf(1)] by auto
  obtain enc' where b: "encode_all ?b (NewEncoder []) = (None, enc')"
    using encode_all_NewEncoder [OF wf(2)] by auto
  have "decode_logs (NewDecoder (enc_buf enc @ enc_buf enc' @ [])) = Inl Gob_Duplicate_Type"
    by (rule decode_two_batches_fails [OF wf(1) _ wf(2) _ a b]) simp_all
  with a b show ?thesis by blast
qed

section \<open>A stream cut short\<close>

lemma prefix_append_cases:
  assumes "prefix p (a @ b)"
  obtains "strict_prefix p a" | q where "p = a @ q" "prefix q b"
  using assms by (auto simp: prefix_append) (metis append_Nil2 prefix_order.le_less prefix_bot.bot_least)

lemma decodeTypeSequence_cut:
  "length m < tooBig \<Longrightarrow> strict_prefix p (frame m) \<Longrightarrow> p \<noteq> [] \<Longrightarrow>
   decodeTypeSequence first wire p = Inl Gob_UnexpectedEOF"
  by (simp add: decodeTypeSequence.simps [of first wire p] recvMessage_cut)

lemma decodeTypeSequence_cut_False:
  assumes "length m < tooBig" "strict_prefix p (frame m)"
  shows "decodeTypeSequence False wire p = Inl Gob_UnexpectedEOF"
  using assms
  by (cases "p = []") (auto simp: decodeTypeSequence_cut decodeTypeSequence.simps [of False wire "[]"])

lemma decode_logs_cut:
  assumes "decodeTypeSequence True wire p = Inl Gob_UnexpectedEOF"
  shows "decode_logs \<lparr>dec_wire = wire, dec_in = p\<rparr> = Inl Gob_UnexpectedEOF"
  using assms by (simp add: decode_logs.simps [of "\<lparr>dec_wire = wire, dec_in = p\<rparr>"] DecodeFrom_def)

lemma decode_log_frames_prefix:
  assumes "list_all wf_log ls" "prefix p (log_frames ls)"
  shows "decode_logs \<lparr>dec_wire = log_wires, dec_in = p\<rparr> = Inl Gob_UnexpectedEOF \<or>
    (\<exists>k. p = log_frames (take k ls) \<and> decode_logs \<lparr>dec_wire = log_wires, dec_in = p\<rparr> = Inr (take k ls))"
  using assms
proof (induction ls arbitrary: p)
  case Nil
  then show ?case by (simp add: decode_logs_eof)
next
  case (Cons l ls)
  have l: "wf_log l" "length (log_message l) < tooBig" using Cons.prems by (auto simp: wf_log_def)
  from Cons.prems(2) have "prefix p (frame (log_message l) @ log_frames ls)" by simp
  then show ?case
  proof (cases rule: prefix_append_cases)
    case 1
    show ?thesis
    proof (cases "p = []")
      case True
      then have "p = log_frames (take 0 (l # ls)) \<and> decode_logs \<lparr>dec_wire = log_wires, dec_in = p\<rparr> = Inr (take 0 (l # ls))"
        by (simp add: decode_logs_eof)
      then show ?thesis by blast
    next
      case False
      with 1 l(2) show ?thesis by (simp add: decode_logs_cut decodeTypeSequence_cut)
    qed
  next
    case (2 q)
    have eq: "decode_logs \<lparr>dec_wire = log_wires, dec_in = p\<rparr> =
      (case decode_logs \<lparr>dec_wire = log_wires, dec_in = q\<rparr> of Inl e \<Rightarrow> Inl e | Inr ks \<Rightarrow> Inr (l # ks))"
      using decode_logs_values [of "[l]" q] l(1) 2(1) by (simp split: sum.splits)
    have "list_all wf_log ls" using Cons.prems(1) by simp
    from Cons.IH [OF this 2(2)] show ?thesis
    proof (elim disjE exE)
      fix k
      assume "q = log_frames (take k ls) \<and> decode_logs \<lparr>dec_wire = log_wires, dec_in = q\<rparr> = Inr (take k ls)"
      with eq 2(1) have "p = log_frames (take (Suc k) (l # ls)) \<and> decode_logs \<lparr>dec_wire = log_wires, dec_in = p\<rparr> = Inr (take (Suc k) (l # ls))"
        by auto
      then show ?thesis by blast
    qed (simp add: eq)
  qed
qed

lemma decode_logs_after_def:
  "decodeTypeSequence False [(log_type_id, log_wire)] p = Inl Gob_UnexpectedEOF \<Longrightarrow>
   decode_logs (NewDecoder (frame log_def @ p)) = Inl Gob_UnexpectedEOF"
  unfolding NewDecoder_def
  by (rule decode_logs_cut) (simp add: decodeTypeSequence_log_def recvType_fresh)

lemma decode_prefix_cases:
  assumes "list_all wf_log ls" and "prefix p (batch_stream ls)"
  shows "decode_logs (NewDecoder p) = Inl Gob_UnexpectedEOF \<or> 
    (\<exists>k. p = batch_stream (take k ls) \<and> decode_logs (NewDecoder p) = Inr (take k ls))"
proof (cases "p = []")
  case True
  then have "p = batch_stream (take 0 ls) \<and> decode_logs (NewDecoder p) = Inr (take 0 ls)"
    by (simp add: NewDecoder_def decode_logs_eof batch_stream_def)
  then show ?thesis by blast
next
  case False
  with assms(2) obtain l ls' where ls: "ls = l # ls'" by (cases ls) (auto simp: batch_stream_def)
  have defs: "prefix p (frame log_def @ frame args_def @ log_frames ls)"
    using assms(2) by (simp add: ls batch_stream_def)
  then show ?thesis
  proof (cases rule: prefix_append_cases)
    case 1
    from decodeTypeSequence_cut [OF length_log_def 1 False, of True "[]"] show ?thesis
      by (simp add: NewDecoder_def decode_logs_cut)
  next
    case (2 q)
    from 2(2) show ?thesis
    proof (cases rule: prefix_append_cases)
      case 1
      then have "decodeTypeSequence False [(log_type_id, log_wire)] q = Inl Gob_UnexpectedEOF"
        by (intro decodeTypeSequence_cut_False [OF length_args_def])
      with 2(1) show ?thesis by (simp add: decode_logs_after_def)
    next
      case q: (2 r)
      show ?thesis
      proof (cases "strict_prefix r (frame (log_message l))")
        case True
        have "length (log_message l) < tooBig" using assms(1) by (simp add: ls wf_log_def)
        from decodeTypeSequence_cut_False [OF this True]
        have "decodeTypeSequence False [(log_type_id, log_wire)] q = Inl Gob_UnexpectedEOF"
          by (simp add: q(1) decodeTypeSequence_args_def recvType_fresh)
        with 2(1) show ?thesis by (simp add: decode_logs_after_def)
      next
        case False
        with q(2) obtain t where t: "r = frame (log_message l) @ t" "prefix t (log_frames ls')"
          unfolding ls by (auto elim: prefix_append_cases)
        have p: "p = batch_stream [l] @ t" by (simp add: 2(1) q(1) t(1) batch_stream_def)
        have wf: "list_all wf_log [l]" "list_all wf_log ls'" using assms(1) by (simp_all add: ls)
        from decode_log_frames_prefix [OF wf(2) t(2)] show ?thesis
        proof (elim disjE exE)
          fix k
          assume "t = log_frames (take k ls') \<and> decode_logs \<lparr>dec_wire = log_wires, dec_in = t\<rparr> = Inr (take k ls')"
          then have "p = batch_stream (take (Suc k) ls) \<and> decode_logs (NewDecoder p) = Inr (take (Suc k) ls)"
            by (auto simp: p decode_logs_batch [OF wf(1)] ls) (simp add: batch_stream_def)
          then show ?thesis by blast
        qed (simp add: p decode_logs_batch [OF wf(1)])
      qed
    qed
  qed
qed



section \<open>Write requests (write_request.go)\<close>

record WriteRequest =
  wr_log :: Log
  wr_promise :: "go_error option Promise"

type_synonym heap = "go_error option chan_heap"

definition NewWriteRequest :: "int64 \<Rightarrow> int64 \<Rightarrow> string list \<Rightarrow> heap \<Rightarrow> WriteRequest \<times> heap" where
  "NewWriteRequest lsn commandID arguments h =
     (case NewPromise h of (p, h') \<Rightarrow>
        (\<lparr>wr_log = \<lparr>LSN = lsn, CommandID = commandID, Arguments = arguments\<rparr>, wr_promise = p\<rparr>, h'))"

definition SetResponse :: "go_error option \<Rightarrow> WriteRequest \<Rightarrow> heap \<Rightarrow> (WriteRequest \<times> heap) outcome" where
  "SetResponse err req h = (case Promise_Set err (wr_promise req) h of
       Done (p, h') \<Rightarrow> Done (req\<lparr>wr_promise := p\<rparr>, h') | Blocks \<Rightarrow> Blocks | Panics m \<Rightarrow> Panics m)"

definition FutureResponse :: "WriteRequest \<Rightarrow> go_error option Future" where
  "FutureResponse req = GetFuture (wr_promise req)"

end
