(* ===== verification/Go_Files.thy ===== *)
theory Go_Files
  imports Go_Prelude "HOL-Library.Char_ord" "HOL-Library.List_Lexorder" "HOL-Library.Sublist"
begin

text \<open>
  The operating system as the service sees it through \<^verbatim>\<open>os\<close>, \<^verbatim>\<open>path/filepath\<close>, \<^verbatim>\<open>sort\<close> and
  \<^verbatim>\<open>time\<close>: slash-separated paths, a file system whose every call may fail, files whose tail is lost
  in a crash unless it was synced, and a clock.
\<close>

section \<open>Paths\<close>

fun split_on :: "char \<Rightarrow> string \<Rightarrow> string list" where
  "split_on c [] = [[]]"
| "split_on c (x # xs) = (if x = c then [] # split_on c xs
     else (case split_on c xs of [] \<Rightarrow> [[x]] | y # ys \<Rightarrow> (x # y) # ys))"

fun join_with :: "string \<Rightarrow> string list \<Rightarrow> string" where
  "join_with sep [] = []"
| "join_with sep [x] = x"
| "join_with sep (x # xs) = x @ sep @ join_with sep xs"

text \<open>
  The elements of a path with empty and dot elements removed and dot-dot elements resolved; a
  dot-dot at the root stays there, one at the start of a relative path is kept.
\<close>

fun norm_comps :: "bool \<Rightarrow> string list \<Rightarrow> string list \<Rightarrow> string list" where
  "norm_comps rooted acc [] = rev acc"
| "norm_comps rooted acc (c # cs) =
     (if c = '''' \<or> c = ''.'' then norm_comps rooted acc cs
      else if c = ''..'' then
        (case acc of
           [] \<Rightarrow> norm_comps rooted (if rooted then [] else [''..'']) cs
         | a # as \<Rightarrow> norm_comps rooted (if a = ''..'' then ''..'' # acc else as) cs)
      else norm_comps rooted (c # acc) cs)"

definition IsAbs :: "string \<Rightarrow> bool" where
  "IsAbs p = (case p of c # _ \<Rightarrow> c = CHR ''/'' | [] \<Rightarrow> False)"

definition Clean :: "string \<Rightarrow> string" where
  "Clean p = (let cs = norm_comps (IsAbs p) [] (split_on (CHR ''/'') p) in
     if IsAbs p then ''/'' @ join_with ''/'' cs
     else if cs = [] then ''.'' else join_with ''/'' cs)"

definition Join :: "string list \<Rightarrow> string" where
  "Join elems = (case filter (\<lambda>e. e \<noteq> '''') elems of [] \<Rightarrow> '''' | es \<Rightarrow> Clean (join_with ''/'' es))"

text \<open>A name that is one path element.\<close>

definition plain_name :: "string \<Rightarrow> bool" where
  "plain_name n \<longleftrightarrow> n \<noteq> '''' \<and> n \<noteq> ''.'' \<and> n \<noteq> ''..'' \<and> CHR ''/'' \<notin> set n"

lemma split_on_nonempty [simp]: "split_on c s \<noteq> []"
  by (induction s) (auto split: list.splits)

lemma split_on_plain: "c \<notin> set s \<Longrightarrow> split_on c s = [s]"
  by (induction s) auto

lemma split_on_append: "split_on c (s @ c # t) = split_on c s @ split_on c t"
proof (induction s)
  case (Cons x s)
  then show ?case by (cases "split_on c s") (auto split: list.splits)
qed simp

lemma norm_comps_snoc:
  "plain_name n \<Longrightarrow> norm_comps rooted acc (cs @ [n]) = norm_comps rooted acc cs @ [n]"
  by (induction rooted acc cs rule: norm_comps.induct) (auto simp: plain_name_def split: list.splits)

lemma norm_comps_plain: "list_all plain_name cs \<Longrightarrow> norm_comps rooted acc cs = rev acc @ cs"
  by (induction cs arbitrary: acc) (auto simp: plain_name_def)

lemma split_on_no_sep: "x \<in> set (split_on c s) \<Longrightarrow> c \<notin> set x"
  by (induction s arbitrary: x) (auto split: list.splits if_splits)

lemma norm_comps_rooted_plain:
  "list_all plain_name acc \<Longrightarrow> \<forall>c \<in> set cs. CHR ''/'' \<notin> set c \<Longrightarrow>
   list_all plain_name (norm_comps True acc cs)"
proof (induction cs arbitrary: acc)
  case (Cons c cs)
  show ?case
  proof (cases "c = '''' \<or> c = ''.'' \<or> c = ''..''")
    case True
    with Cons show ?thesis by (cases acc) (auto simp: plain_name_def)
  next
    case False
    with Cons.prems have "plain_name c" by (simp add: plain_name_def)
    with Cons False show ?thesis by simp
  qed
qed (simp add: list_all_iff)

lemma split_on_join: "list_all plain_name cs \<Longrightarrow> cs \<noteq> [] \<Longrightarrow> split_on (CHR ''/'') (join_with ''/'' cs) = cs"
  by (induction "''/''" cs rule: join_with.induct) (auto simp: plain_name_def split_on_plain split_on_append)

section \<open>The file system\<close>

text \<open>
  A file is its bytes and how many of them are known to be on the disk. Files and directories are
  found by the elements of their absolute path; symbolic links are not modelled.
  The outcome of the n-th system call is \<open>fs_fault n\<close>, and the n-th reading of the clock is
  \<open>fs_clock n\<close>: both are the environment's choice.
\<close>

datatype fault = NoFault | Fails os_error | ShortWrite nat os_error

type_synonym path = "string list"

record fdata =
  fd_bytes :: bytes
  fd_synced :: nat

record fs =
  fs_cwd :: string
  fs_dirs :: "path list"
  fs_files :: "(path \<times> fdata) list"
  fs_fault :: "nat \<Rightarrow> fault"
  fs_calls :: nat
  fs_clock :: "nat \<Rightarrow> nat"
  fs_reads :: nat

text \<open>An open or closed \<^verbatim>\<open>*os.File\<close>.\<close>

record os_file =
  of_name :: string
  of_path :: path
  of_open :: bool

definition path_key :: "fs \<Rightarrow> string \<Rightarrow> path" where
  "path_key s p = norm_comps True [] (split_on (CHR ''/'') (if IsAbs p then p else fs_cwd s @ ''/'' @ p))"

definition fs_lookup :: "fs \<Rightarrow> path \<Rightarrow> fdata option" where
  "fs_lookup s k = map_of (fs_files s) k"

fun alist_set :: "'k \<Rightarrow> 'v \<Rightarrow> ('k \<times> 'v) list \<Rightarrow> ('k \<times> 'v) list" where
  "alist_set k v [] = [(k, v)]"
| "alist_set k v ((k', v') # xs) = (if k' = k then (k, v) # xs else (k', v') # alist_set k v xs)"

definition fs_store :: "path \<Rightarrow> fdata \<Rightarrow> fs \<Rightarrow> fs" where
  "fs_store k d s = s\<lparr>fs_files := alist_set k d (fs_files s)\<rparr>"

definition syscall :: "fs \<Rightarrow> fault \<times> fs" where
  "syscall s = (fs_fault s (fs_calls s), s\<lparr>fs_calls := Suc (fs_calls s)\<rparr>)"

text \<open>\<^verbatim>\<open>time.Now().UnixNano()\<close>.\<close>

definition UnixNano :: "fs \<Rightarrow> nat \<times> fs" where
  "UnixNano s = (fs_clock s (fs_reads s), s\<lparr>fs_reads := Suc (fs_reads s)\<rparr>)"

definition fault_error :: "fault \<Rightarrow> os_error option" where
  "fault_error f = (case f of NoFault \<Rightarrow> None | Fails e \<Rightarrow> Some e | ShortWrite _ e \<Rightarrow> Some e)"

definition os_Getwd :: "fs \<Rightarrow> string result \<times> fs" where
  "os_Getwd s = (case syscall s of (f, s1) \<Rightarrow>
     (case fault_error f of Some e \<Rightarrow> (Inl (OsError e), s1) | None \<Rightarrow> (Inr (fs_cwd s1), s1)))"

definition os_MkdirAll :: "string \<Rightarrow> fs \<Rightarrow> go_error option \<times> fs" where
  "os_MkdirAll p s = (case syscall s of (f, s1) \<Rightarrow>
     (case fault_error f of
        Some e \<Rightarrow> (Some (OsError e), s1)
      | None \<Rightarrow>
          let k = path_key s1 p in
          if list_ex (\<lambda>q. fs_lookup s1 q \<noteq> None) (prefixes k) then (Some (OsError (EOTHER 20)), s1)
          else (None, s1\<lparr>fs_dirs := fs_dirs s1 @ filter (\<lambda>q. q \<notin> set (fs_dirs s1)) (prefixes k)\<rparr>)))"

text \<open>\<^verbatim>\<open>os.OpenFile(path, O_CREATE|O_EXCL|O_WRONLY|O_APPEND, 0600)\<close>.\<close>

definition os_OpenFile_excl :: "string \<Rightarrow> fs \<Rightarrow> os_file result \<times> fs" where
  "os_OpenFile_excl p s = (case syscall s of (f, s1) \<Rightarrow>
     (case fault_error f of
        Some e \<Rightarrow> (Inl (OsError e), s1)
      | None \<Rightarrow>
          let k = path_key s1 p in
          if fs_lookup s1 k \<noteq> None \<or> k \<in> set (fs_dirs s1) then (Inl (OsError EEXIST), s1)
          else if butlast k \<notin> set (fs_dirs s1) then (Inl (OsError ENOENT), s1)
          else (Inr \<lparr>of_name = p, of_path = k, of_open = True\<rparr>,
                fs_store k \<lparr>fd_bytes = [], fd_synced = 0\<rparr> s1)))"

text \<open>\<^verbatim>\<open>os.OpenFile(path, O_WRONLY|O_APPEND, 0)\<close>.\<close>

definition os_OpenFile_append :: "string \<Rightarrow> fs \<Rightarrow> os_file result \<times> fs" where
  "os_OpenFile_append p s = (case syscall s of (f, s1) \<Rightarrow>
     (case fault_error f of
        Some e \<Rightarrow> (Inl (OsError e), s1)
      | None \<Rightarrow>
          let k = path_key s1 p in
          if fs_lookup s1 k = None then (Inl (OsError ENOENT), s1)
          else (Inr \<lparr>of_name = p, of_path = k, of_open = True\<rparr>, s1)))"

definition os_Open :: "string \<Rightarrow> fs \<Rightarrow> os_file result \<times> fs" where
  "os_Open p s = os_OpenFile_append p s"

text \<open>
  \<^verbatim>\<open>file.Write\<close> on a file opened for append: all of it, or an error after some prefix of it.
\<close>

definition file_Write :: "os_file \<Rightarrow> bytes \<Rightarrow> fs \<Rightarrow> nat result \<times> fs" where
  "file_Write file data s =
     (if \<not> of_open file then (Inl (OsError EBADF_CLOSED), s)
      else case syscall s of (f, s1) \<Rightarrow>
        (case fs_lookup s1 (of_path file) of
           None \<Rightarrow> (Inl (OsError ENOENT), s1)
         | Some d \<Rightarrow>
            (case f of
               NoFault \<Rightarrow> (Inr (length data), fs_store (of_path file) (d\<lparr>fd_bytes := fd_bytes d @ data\<rparr>) s1)
             | Fails e \<Rightarrow> (Inl (OsError e), s1)
             | ShortWrite n e \<Rightarrow> (Inl (OsError e),
                 fs_store (of_path file) (d\<lparr>fd_bytes := fd_bytes d @ take n data\<rparr>) s1))))"

definition file_Sync :: "os_file \<Rightarrow> fs \<Rightarrow> go_error option \<times> fs" where
  "file_Sync file s =
     (if \<not> of_open file then (Some (OsError EBADF_CLOSED), s)
      else case syscall s of (f, s1) \<Rightarrow>
        (case fault_error f of
           Some e \<Rightarrow> (Some (OsError e), s1)
         | None \<Rightarrow> (case fs_lookup s1 (of_path file) of
              None \<Rightarrow> (Some (OsError ENOENT), s1)
            | Some d \<Rightarrow> (None, fs_store (of_path file) (d\<lparr>fd_synced := length (fd_bytes d)\<rparr>) s1))))"

definition file_Close :: "os_file \<Rightarrow> fs \<Rightarrow> go_error option \<times> os_file \<times> fs" where
  "file_Close file s =
     (if \<not> of_open file then (Some (OsError EBADF_CLOSED), file, s)
      else case syscall s of (f, s1) \<Rightarrow>
        (map_option OsError (fault_error f), file\<lparr>of_open := False\<rparr>, s1))"

definition file_Stat_Size :: "os_file \<Rightarrow> fs \<Rightarrow> int64 result \<times> fs" where
  "file_Stat_Size file s =
     (if \<not> of_open file then (Inl (OsError EBADF_CLOSED), s)
      else case syscall s of (f, s1) \<Rightarrow>
        (case fault_error f of
           Some e \<Rightarrow> (Inl (OsError e), s1)
         | None \<Rightarrow> (case fs_lookup s1 (of_path file) of
              None \<Rightarrow> (Inl (OsError ENOENT), s1)
            | Some d \<Rightarrow> (Inr (int (length (fd_bytes d))), s1))))"

definition os_ReadFile :: "string \<Rightarrow> fs \<Rightarrow> bytes result \<times> fs" where
  "os_ReadFile p s = (case syscall s of (f, s1) \<Rightarrow>
     (case fault_error f of
        Some e \<Rightarrow> (Inl (OsError e), s1)
      | None \<Rightarrow> (case fs_lookup s1 (path_key s1 p) of
           None \<Rightarrow> (Inl (OsError ENOENT), s1)
         | Some d \<Rightarrow> (Inr (fd_bytes d), s1))))"

text \<open>\<^verbatim>\<open>os.ReadDir\<close>: the entries of a directory (name, whether it is a directory), sorted by name.\<close>

definition dir_children :: "path \<Rightarrow> path list \<Rightarrow> string list" where
  "dir_children k ps = map last (filter (\<lambda>q. q \<noteq> [] \<and> butlast q = k) ps)"

definition os_ReadDir :: "string \<Rightarrow> fs \<Rightarrow> (string \<times> bool) list result \<times> fs" where
  "os_ReadDir p s = (case syscall s of (f, s1) \<Rightarrow>
     (case fault_error f of
        Some e \<Rightarrow> (Inl (OsError e), s1)
      | None \<Rightarrow>
          let k = path_key s1 p in
          if k \<notin> set (fs_dirs s1) then (Inl (OsError ENOENT), s1)
          else (Inr (sort_key fst
                  (map (\<lambda>n. (n, True)) (dir_children k (fs_dirs s1)) @
                   map (\<lambda>n. (n, False)) (dir_children k (map fst (fs_files s1))))), s1)))"

lemmas os_defs = syscall_def UnixNano_def fault_error_def os_Getwd_def os_MkdirAll_def
  os_OpenFile_excl_def os_OpenFile_append_def os_Open_def file_Write_def file_Sync_def file_Close_def
  file_Stat_Size_def os_ReadFile_def os_ReadDir_def fs_store_def fs_lookup_def

text \<open>
  A crash: of every file at least the synced bytes remain, and possibly more of it, as \<open>keep\<close> says;
  the directory structure stays.
\<close>

definition crash_fdata :: "nat \<Rightarrow> fdata \<Rightarrow> fdata" where
  "crash_fdata n d =
     (let bs = take (max n (fd_synced d)) (fd_bytes d) in \<lparr>fd_bytes = bs, fd_synced = length bs\<rparr>)"

definition crash :: "(path \<Rightarrow> nat) \<Rightarrow> fs \<Rightarrow> fs" where
  "crash keep s = s\<lparr>fs_files := map (\<lambda>(k, d). (k, crash_fdata (keep k) d)) (fs_files s)\<rparr>"

section \<open>Facts about the file system\<close>

lemma map_of_alist_set [simp]: "map_of (alist_set k v xs) = (map_of xs)(k := Some v)"
  by (induction xs) (auto simp: fun_eq_iff)

lemma map_fst_alist_set_new: "k \<notin> fst ` set xs \<Longrightarrow> alist_set k v xs = xs @ [(k, v)]"
  by (induction xs) auto

lemma alist_set_map_fst: "k \<in> fst ` set xs \<Longrightarrow> map fst (alist_set k v xs) = map fst xs"
  by (induction xs) (force split: if_splits)+

lemma alist_set_twice [simp]: "alist_set k w (alist_set k v xs) = alist_set k w xs"
  by (induction xs) auto

lemma distinct_alist_set: "distinct (map fst xs) \<Longrightarrow> distinct (map fst (alist_set k v xs))"
  by (cases "k \<in> fst ` set xs") (auto simp: alist_set_map_fst map_fst_alist_set_new)

lemma fs_lookup_crash: "fs_lookup (crash keep s) k = map_option (crash_fdata (keep k)) (fs_lookup s k)"
proof -
  have "map_of (map (\<lambda>(k, d). (k, crash_fdata (keep k) d)) xs) k = map_option (crash_fdata (keep k)) (map_of xs k)" for xs
    by (induction xs) auto
  then show ?thesis by (simp add: fs_lookup_def crash_def)
qed

lemma crash_fdata_synced: "fd_synced d = length (fd_bytes d) \<Longrightarrow> crash_fdata n d = d"
  by (cases d) (simp add: crash_fdata_def)

text \<open>Joining a directory and a name, and looking the result up, finds that name in that directory.\<close>

lemma path_key_Join:
  assumes "IsAbs d" "plain_name n"
  shows "path_key s (Join [d, n]) = path_key s d @ [n]" and "IsAbs (Join [d, n])"
proof -
  have ne: "d \<noteq> ''''" "n \<noteq> ''''" using assms by (auto simp: IsAbs_def plain_name_def)
  let ?p = "d @ CHR ''/'' # n"
  let ?cs = "norm_comps True [] (split_on (CHR ''/'') d) @ [n]"
  have abs: "IsAbs ?p" using assms(1) ne by (cases d) (auto simp: IsAbs_def)
  have "split_on (CHR ''/'') ?p = split_on (CHR ''/'') d @ [n]"
    using assms(2) by (simp add: split_on_append split_on_plain plain_name_def)
  then have cs: "norm_comps True [] (split_on (CHR ''/'') ?p) = ?cs"
    using assms(2) by (simp add: norm_comps_snoc)
  have join: "Join [d, n] = CHR ''/'' # join_with ''/'' ?cs"
    using ne abs cs by (simp add: Join_def Clean_def Let_def)
  then show abs': "IsAbs (Join [d, n])" by (simp add: IsAbs_def)
  have plain: "list_all plain_name ?cs"
    using norm_comps_rooted_plain [of "[]" "split_on (CHR ''/'') d"] split_on_no_sep assms(2) by auto
  then have "split_on (CHR ''/'') (CHR ''/'' # join_with ''/'' ?cs) = [] # ?cs"
    by (simp add: split_on_join)
  then have "norm_comps True [] (split_on (CHR ''/'') (Join [d, n])) = ?cs"
    using plain unfolding join by (simp only:) (simp add: norm_comps_plain)
  then show "path_key s (Join [d, n]) = path_key s d @ [n]"
    using abs' assms(1) by (simp add: path_key_def)
qed

end
