(* ===== verification/Filesystem.thy ===== *)
theory Filesystem
  imports Go_Files
begin

text \<open>
  Package \<^verbatim>\<open>filesystem\<close>: the file helpers (segment_utils.go), the segment that rotates when it is
  full (segment.go) and the segment directory (segments_directory.go), over the file system model.
\<close>

section \<open>File helpers (segment_utils.go)\<close>

text \<open>\<^verbatim>\<open>fmt.Sprintf("%s%d.log", maskName, time.Now().UnixNano())\<close>.\<close>

definition segment_name :: "string \<Rightarrow> nat \<Rightarrow> string" where
  "segment_name maskName t = maskName @ format_nat t @ ''.log''"

definition CreateFile :: "string \<Rightarrow> string \<Rightarrow> fs \<Rightarrow> os_file result \<times> fs" where
  "CreateFile directory maskName s =
     (case UnixNano s of (t, s1) \<Rightarrow> os_OpenFile_excl (Join [directory, segment_name maskName t]) s1)"

definition WriteFile :: "os_file \<Rightarrow> bytes \<Rightarrow> fs \<Rightarrow> nat result \<times> fs" where
  "WriteFile file data s =
     (case file_Write file data s of
        (Inl err, s1) \<Rightarrow> (Inl err, s1)
      | (Inr writtenBytes, s1) \<Rightarrow>
          (case file_Sync file s1 of
             (Some err, s2) \<Rightarrow> (Inl err, s2)
           | (None, s2) \<Rightarrow> (Inr writtenBytes, s2)))"

definition ReadFile :: "string \<Rightarrow> fs \<Rightarrow> bytes result \<times> fs" where
  "ReadFile filePath s =
     (case os_Open filePath s of
        (Inl err, s1) \<Rightarrow> (Inl err, s1)
      | (Inr file, s1) \<Rightarrow>
          (case os_ReadFile filePath s1 of (res, s2) \<Rightarrow>
             (case file_Close file s2 of (_, _, s3) \<Rightarrow> (res, s3))))"

fun regular_paths :: "string \<Rightarrow> (string \<times> bool) list \<Rightarrow> string list" where
  "regular_paths directory [] = []"
| "regular_paths directory ((name, isdir) # entries) =
     (if isdir then regular_paths directory entries
      else Join [directory, name] # regular_paths directory entries)"

definition GetFileList :: "string \<Rightarrow> fs \<Rightarrow> string list result \<times> fs" where
  "GetFileList directory s =
     (case os_ReadDir directory s of
        (Inl err, s1) \<Rightarrow> (Inl err, s1)
      | (Inr files, s1) \<Rightarrow> (Inr (sort (regular_paths directory files)), s1))"

section \<open>The segment (segment.go)\<close>

record Segment =
  seg_log :: "logger option"
  seg_file :: "os_file option"
  seg_directory :: string
  seg_maskName :: string
  seg_segmentSize :: int64
  seg_maxSegmentSize :: int64

definition NewSegment :: "logger option \<Rightarrow> string \<Rightarrow> string \<Rightarrow> int64 \<Rightarrow> Segment" where
  "NewSegment log directory maskName maxSegmentSize =
     \<lparr>seg_log = log, seg_file = None, seg_directory = directory, seg_maskName = maskName,
      seg_segmentSize = 0, seg_maxSegmentSize = maxSegmentSize\<rparr>"

definition Segment_CreateFile :: "Segment \<Rightarrow> fs \<Rightarrow> os_file result \<times> Segment \<times> fs" where
  "Segment_CreateFile seg s =
     (case CreateFile (seg_directory seg) (seg_maskName seg) s of
        (Inl err, s1) \<Rightarrow> (Inl Filesystem_ErrFailedFileCreate, seg, s1)
      | (Inr file, s1) \<Rightarrow> (Inr file, seg\<lparr>seg_file := Some file, seg_segmentSize := 0\<rparr>, s1))"

definition Segment_Read :: "string \<Rightarrow> fs \<Rightarrow> bytes result \<times> fs" where
  "Segment_Read filePath s = ReadFile filePath s"

definition Segment_GetList :: "Segment \<Rightarrow> fs \<Rightarrow> string list result \<times> fs" where
  "Segment_GetList seg s = GetFileList (seg_directory seg) s"

definition getNextSegment :: "Segment \<Rightarrow> fs \<Rightarrow> go_error option \<times> Segment \<times> fs" where
  "getNextSegment seg s =
     (let (seg1, s1) = (case seg_file seg of
          None \<Rightarrow> (seg, s)
        | Some f \<Rightarrow> (case file_Close f s of (_, f', s') \<Rightarrow> (seg\<lparr>seg_file := Some f'\<rparr>, s')))
      in case CreateFile (seg_directory seg1) (seg_maskName seg1) s1 of
           (Inl err, s2) \<Rightarrow> (Some err, seg1, s2)
         | (Inr file, s2) \<Rightarrow> (None, seg1\<lparr>seg_file := Some file, seg_segmentSize := 0\<rparr>, s2))"

text \<open>The two steps of \<^verbatim>\<open>Write\<close> before the data goes out, and the write itself.\<close>

definition write_open :: "Segment \<Rightarrow> fs \<Rightarrow> go_error option \<times> Segment \<times> fs" where
  "write_open seg s =
     (case seg_file seg of
        Some f \<Rightarrow> (None, seg, s)
      | None \<Rightarrow> (case Segment_CreateFile seg s of
            (Inl err, seg1, s1) \<Rightarrow> (Some err, seg1, s1)
          | (Inr file, seg1, s1) \<Rightarrow> (None, seg1, s1)))"

definition must_rotate :: "Segment \<Rightarrow> bytes \<Rightarrow> bool" where
  "must_rotate seg data \<longleftrightarrow>
     seg_maxSegmentSize seg > 0 \<and> seg_segmentSize seg > 0 \<and>
     wrap64 (seg_segmentSize seg + int (length data)) > seg_maxSegmentSize seg"

definition write_data :: "bytes \<Rightarrow> Segment \<Rightarrow> fs \<Rightarrow> go_error option \<times> Segment \<times> fs" where
  "write_data data seg s =
     (case seg_file seg of
        None \<Rightarrow> (Some Filesystem_ErrFailedSaveFile, seg, s)
      | Some f \<Rightarrow> (case WriteFile f data s of
            (Inl err, s1) \<Rightarrow> (Some Filesystem_ErrFailedSaveFile, seg, s1)
          | (Inr writtenBytes, s1) \<Rightarrow>
              (None, seg\<lparr>seg_segmentSize := wrap64 (seg_segmentSize seg + int writtenBytes)\<rparr>, s1)))"

definition Segment_Write :: "bytes \<Rightarrow> Segment \<Rightarrow> fs \<Rightarrow> go_error option \<times> Segment \<times> fs" where
  "Segment_Write data seg s =
     (case write_open seg s of
        (Some err, seg1, s1) \<Rightarrow> (Some err, seg1, s1)
      | (None, seg1, s1) \<Rightarrow>
          if must_rotate seg1 data then
            (case getNextSegment seg1 s1 of
               (Some err, seg2, s2) \<Rightarrow> (Some err, seg2, s2)
             | (None, seg2, s2) \<Rightarrow> write_data data seg2 s2)
          else write_data data seg1 s1)"

definition SetFile :: "os_file option \<Rightarrow> Segment \<Rightarrow> fs \<Rightarrow> Segment \<times> fs" where
  "SetFile file seg s =
     (let seg1 = seg\<lparr>seg_file := file, seg_segmentSize := 0\<rparr>
      in case file of
           None \<Rightarrow> (seg1, s)
         | Some f \<Rightarrow> (case file_Stat_Size f s of
               (Inl err, s1) \<Rightarrow> (seg1, s1)
             | (Inr sz, s1) \<Rightarrow> (seg1\<lparr>seg_segmentSize := sz\<rparr>, s1)))"

section \<open>The segment directory (segments_directory.go)\<close>

definition resolveWalPath :: "string \<Rightarrow> fs \<Rightarrow> string result \<times> fs" where
  "resolveWalPath directory s =
     (let directory1 = (if directory = '''' then Join [''storage'', ''wal''] else directory)
      in if IsAbs directory1 then (Inr directory1, s)
         else case os_Getwd s of
             (Inl err, s1) \<Rightarrow> (Inl Filesystem_ErrInvalidWorkingFolder, s1)
           | (Inr workDir, s1) \<Rightarrow> (Inr (Join [workDir, directory1]), s1))"

definition MakeDirectory :: "string \<Rightarrow> fs \<Rightarrow> string result \<times> fs" where
  "MakeDirectory directory s =
     (case resolveWalPath directory s of
        (Inl err, s1) \<Rightarrow> (Inl Filesystem_ErrFailedResolveSegmentPath, s1)
      | (Inr path, s1) \<Rightarrow>
          (case os_MkdirAll path s1 of
             (Some err, s2) \<Rightarrow> (Inl Filesystem_ErrFailedToCreateDirectory, s2)
           | (None, s2) \<Rightarrow> (Inr path, s2)))"

section \<open>Segment names\<close>

lemma parse_digits_bounds:
  "parse_digits a xs = Some m \<Longrightarrow> a * 10 ^ length xs \<le> m \<and> m < (a + 1) * 10 ^ length xs"
proof (induction xs arbitrary: a)
  case (Cons c xs)
  define k :: nat where "k = 10 ^ length xs"
  define d where "d = byte_val c - 48"
  from Cons.prems have c: "is_digit_char c" and r: "parse_digits (10 * a + d) xs = Some m"
    by (auto simp: d_def split: if_splits)
  have d: "d \<le> 9" using c by (auto simp: d_def is_digit_char_def)
  from Cons.IH [OF r] have ih: "(10 * a + d) * k \<le> m" "m < (10 * a + d + 1) * k" by (simp_all add: k_def)
  have "10 * a * k \<le> (10 * a + d) * k" and "(10 * a + d + 1) * k \<le> (10 * a + 10) * k"
    using d by (intro mult_le_mono1; simp)+
  with ih have "10 * a * k \<le> m \<and> m < (10 * a + 10) * k" by linarith
  then show ?case by (simp add: k_def algebra_simps)
qed simp

lemma digit_string_less:
  assumes "length xs = length ys" "parse_digits a xs = Some m" "parse_digits a ys = Some n" "m < n"
  shows "xs < (ys :: string)"
  using assms
proof (induction xs ys arbitrary: a rule: list_induct2)
  case (Cons x xs y ys)
  define k :: nat where "k = 10 ^ length xs"
  let ?dx = "byte_val x - 48" and ?dy = "byte_val y - 48"
  have x: "is_digit_char x" "parse_digits (10 * a + ?dx) xs = Some m"
    and y: "is_digit_char y" "parse_digits (10 * a + ?dy) ys = Some n"
    using Cons.prems by (auto split: if_splits)
  consider "byte_val x < byte_val y" | "x = y" | "byte_val y < byte_val x"
    by (metis linorder_neqE_nat of_char_eq_iff)
  then show ?case
  proof cases
    case 2
    with Cons.IH [of "10 * a + ?dx"] x y Cons.prems(3) show ?thesis by simp
  next
    case 3
    then have "?dy + 1 \<le> ?dx" using x(1) y(1) by (auto simp: is_digit_char_def)
    then have "(10 * a + ?dy + 1) * k \<le> (10 * a + ?dx) * k" by (intro mult_le_mono1) simp
    moreover have "(10 * a + ?dx) * k \<le> m" "n < (10 * a + ?dy + 1) * k"
      using parse_digits_bounds [OF x(2)] parse_digits_bounds [OF y(2)] Cons.hyps by (simp_all add: k_def)
    ultimately show ?thesis using Cons.prems(3) by linarith
  qed (simp add: less_char_def)
qed simp

lemma append_less_same: "length xs = length ys \<Longrightarrow> xs < ys \<Longrightarrow> xs @ u < (ys :: string) @ v"
  by (induction xs ys rule: list_induct2) auto

lemma prefix_less: "(xs :: string) < ys \<Longrightarrow> p @ xs < p @ ys"
  by (induction p) auto

lemma segment_name_less:
  assumes "t < t'" "length (format_nat t) = length (format_nat t')"
  shows "segment_name m t < segment_name m t'"
proof -
  have "format_nat t < format_nat t'"
    by (rule digit_string_less [OF assms(2) parse_digits_format_nat parse_digits_format_nat assms(1)])
  then show ?thesis
    unfolding segment_name_def by (intro prefix_less append_less_same assms(2))
qed

lemma length_format_nat: "10 ^ k \<le> n \<Longrightarrow> n < 10 ^ Suc k \<Longrightarrow> length (format_nat n) = Suc k"
proof (induction k arbitrary: n)
  case 0
  then show ?case by (simp add: format_nat.simps [of n])
next
  case (Suc k)
  have "10 ^ k \<le> n div 10" and "n div 10 < 10 ^ Suc k"
    using Suc.prems div_le_mono [of "10 ^ Suc k" n 10] by (simp_all add: less_mult_imp_div_less mult.commute)
  moreover have "\<not> n < 10"
  proof -
    have "1 \<le> (10 :: nat) ^ k" by simp
    then have "10 \<le> (10 :: nat) ^ Suc k" by simp
    with Suc.prems(1) show ?thesis by linarith
  qed
  ultimately show ?case
    using Suc.IH [of "n div 10"] by (simp add: format_nat.simps [of n])
qed

text \<open>Nanosecond clocks between September 2001 and November 2286 read nineteen digits.\<close>

definition clock_19 :: "nat \<Rightarrow> bool" where
  "clock_19 t \<longleftrightarrow> 10 ^ 18 \<le> t \<and> t < 10 ^ 19"

lemma clock_19_length: "clock_19 t \<Longrightarrow> length (format_nat t) = 19"
  using length_format_nat [of 18 t] by (simp add: clock_19_def)

definition plain_mask :: "string \<Rightarrow> bool" where
  "plain_mask m \<longleftrightarrow> CHR ''/'' \<notin> set m"

lemma plain_segment_name: "plain_mask m \<Longrightarrow> plain_name (segment_name m t)"
proof -
  assume m: "plain_mask m"
  have "CHR ''/'' \<notin> set (format_nat t)"
    using format_nat_digits [of "CHR ''/''" t] by (auto simp: is_digit_char_def)
  moreover have "5 \<le> length (segment_name m t)"
    by (cases "format_nat t") (auto simp: segment_name_def)
  ultimately show ?thesis
    using m by (auto simp: plain_name_def plain_mask_def segment_name_def)
qed

lemma join_with_snoc:
  "join_with sep (cs @ [n]) = (if cs = [] then [] else join_with sep cs @ sep) @ n"
  by (induction sep cs rule: join_with.induct) auto

lemma Join_prefix:
  assumes "IsAbs d"
  obtains P where "\<And>n. plain_name n \<Longrightarrow> Join [d, n] = P @ n"
proof -
  let ?cs = "norm_comps True [] (split_on (CHR ''/'') d)"
  have "Join [d, n] = (''/'' @ (if ?cs = [] then [] else join_with ''/'' ?cs @ ''/'')) @ n"
    if "plain_name n" for n
  proof -
    have ne: "d \<noteq> []" "n \<noteq> []" using assms that by (auto simp: IsAbs_def plain_name_def)
    have abs: "IsAbs (d @ CHR ''/'' # n)" using assms by (cases d) (auto simp: IsAbs_def)
    have "norm_comps True [] (split_on (CHR ''/'') (d @ CHR ''/'' # n)) = ?cs @ [n]"
      using that norm_comps_snoc [OF that] by (simp add: split_on_append split_on_plain plain_name_def)
    then show ?thesis using ne abs by (simp add: Join_def Clean_def Let_def join_with_snoc)
  qed
  then show thesis by (rule that)
qed

lemma segment_path_less:
  assumes "IsAbs d" and "plain_mask m" and "clock_19 t" and "clock_19 t'" and "t < t'"
  shows "Join [d, segment_name m t] < Join [d, segment_name m t']"
proof -
  obtain P where P: "\<And>n. plain_name n \<Longrightarrow> Join [d, n] = P @ n" using Join_prefix [OF assms(1)] by blast
  have "segment_name m t < segment_name m t'"
    using assms(3-5) by (intro segment_name_less) (simp_all add: clock_19_length)
  then show ?thesis by (simp add: P plain_segment_name [OF assms(2)] prefix_less)
qed

section \<open>What the file operations do to the files\<close>

text \<open>The part of the file system no operation of this package but \<^verbatim>\<open>MakeDirectory\<close> changes.\<close>

definition same_env :: "fs \<Rightarrow> fs \<Rightarrow> bool" where
  "same_env s s' \<longleftrightarrow> fs_cwd s' = fs_cwd s \<and> fs_dirs s' = fs_dirs s \<and> fs_fault s' = fs_fault s \<and>
     fs_clock s' = fs_clock s"

lemma same_env_refl [simp]: "same_env s s"
  by (simp add: same_env_def)

lemma same_env_trans [trans]: "same_env s s' \<Longrightarrow> same_env s' s'' \<Longrightarrow> same_env s s''"
  by (simp add: same_env_def)

lemma path_key_env: "same_env s s' \<Longrightarrow> path_key s' p = path_key s p"
  by (simp add: same_env_def path_key_def)

lemma path_key_update [simp]:
  "path_key (s\<lparr>fs_reads := n\<rparr>) p = path_key s p" "path_key (s\<lparr>fs_calls := m\<rparr>) p = path_key s p"
  by (simp_all add: path_key_def)

lemma CreateFile_Inr:
  assumes "CreateFile d m s = (Inr f, s')"
  shows "of_open f" "of_path f = path_key s (Join [d, segment_name m (fs_clock s (fs_reads s))])"
    "fs_lookup s (of_path f) = None"
    "fs_lookup s' = (fs_lookup s)(of_path f := Some \<lparr>fd_bytes = [], fd_synced = 0\<rparr>)"
    "same_env s s'" "fs_reads s' = Suc (fs_reads s)"
    "fs_files s' = fs_files s @ [(of_path f, \<lparr>fd_bytes = [], fd_synced = 0\<rparr>)]"
proof -
  define k where "k = path_key s (Join [d, segment_name m (fs_clock s (fs_reads s))])"
  from assms have *: "of_open f" "of_path f = k" "map_of (fs_files s) k = None" "same_env s s'"
    "fs_reads s' = Suc (fs_reads s)" "fs_files s' = alist_set k \<lparr>fd_bytes = [], fd_synced = 0\<rparr> (fs_files s)"
    by (auto simp: CreateFile_def os_defs Let_def same_env_def k_def split: fault.splits if_splits)
  then have new: "k \<notin> fst ` set (fs_files s)" by (simp add: map_of_eq_None_iff)
  show "of_open f" "of_path f = path_key s (Join [d, segment_name m (fs_clock s (fs_reads s))])"
    "fs_lookup s (of_path f) = None" "same_env s s'" "fs_reads s' = Suc (fs_reads s)"
    using * by (simp_all add: k_def fs_lookup_def)
  show "fs_lookup s' = (fs_lookup s)(of_path f := Some \<lparr>fd_bytes = [], fd_synced = 0\<rparr>)"
    using * by (simp add: fs_lookup_def fun_eq_iff)
  show "fs_files s' = fs_files s @ [(of_path f, \<lparr>fd_bytes = [], fd_synced = 0\<rparr>)]"
    using * new by (simp add: map_fst_alist_set_new)
qed

lemma CreateFile_Inl:
  assumes "CreateFile d m s = (Inl e, s')"
  shows "fs_files s' = fs_files s" "same_env s s'" "\<exists>oe. e = OsError oe"
  using assms
  by (auto simp: CreateFile_def os_defs Let_def same_env_def split: fault.splits if_splits)

lemma WriteFile_Inr:
  assumes "WriteFile f data s = (Inr n, s')"
  obtains d where "of_open f" "fs_lookup s (of_path f) = Some d" "n = length data"
    "fs_files s' = alist_set (of_path f)
       (d\<lparr>fd_bytes := fd_bytes d @ data, fd_synced := length (fd_bytes d @ data)\<rparr>) (fs_files s)"
    "same_env s s'" "fs_reads s' = fs_reads s"
  using assms
  by (auto simp: WriteFile_def os_defs same_env_def split: fault.splits if_splits option.splits)

lemma WriteFile_Inl:
  assumes "WriteFile f data s = (Inl e, s')"
  shows "(fs_files s' = fs_files s \<or>
     (\<exists>d n. fs_lookup s (of_path f) = Some d \<and>
        fs_files s' = alist_set (of_path f) (d\<lparr>fd_bytes := fd_bytes d @ take n data\<rparr>) (fs_files s))) \<and>
     same_env s s'"
  using assms
  by (auto simp: WriteFile_def os_defs same_env_def split: fault.splits if_splits option.splits)
    (metis take_all order_refl)+

lemma file_Close_files:
  "file_Close f s = (r, f', s') \<Longrightarrow>
     fs_files s' = fs_files s \<and> same_env s s' \<and> fs_reads s' = fs_reads s \<and> \<not> of_open f' \<and> of_path f' = of_path f"
  by (auto simp: os_defs same_env_def split: if_splits)

section \<open>The segment: append-only, one file at a time\<close>

text \<open>
  The active file exists and its recorded size never exceeds its length (a failed write may leave a
  torn tail that the segment does not count).
\<close>

definition seg_inv :: "Segment \<Rightarrow> fs \<Rightarrow> bool" where
  "seg_inv seg s \<longleftrightarrow> 0 \<le> seg_segmentSize seg \<and>
     (case seg_file seg of
        None \<Rightarrow> seg_segmentSize seg = 0
      | Some f \<Rightarrow> (\<exists>d. fs_lookup s (of_path f) = Some d \<and> seg_segmentSize seg \<le> int (length (fd_bytes d))))"

text \<open>No write may take the size beyond the range of \<^verbatim>\<open>int64\<close>.\<close>

definition fits64 :: "Segment \<Rightarrow> bytes \<Rightarrow> bool" where
  "fits64 seg data \<longleftrightarrow> seg_segmentSize seg + int (length data) < 2 ^ 63"

text \<open>Every file keeps its bytes and its synced length; at most a prefix of \<open>data\<close> is added to it.\<close>

definition appended :: "bytes \<Rightarrow> fs \<Rightarrow> fs \<Rightarrow> bool" where
  "appended data s s' \<longleftrightarrow> (\<forall>k d. fs_lookup s k = Some d \<longrightarrow>
     (\<exists>d' n. fs_lookup s' k = Some d' \<and> fd_bytes d' = fd_bytes d @ take n data \<and> fd_synced d \<le> fd_synced d'))"

text \<open>No file claims more synced bytes than it has.\<close>

definition synced_ok :: "fs \<Rightarrow> bool" where
  "synced_ok s \<longleftrightarrow> (\<forall>k d. fs_lookup s k = Some d \<longrightarrow> fd_synced d \<le> length (fd_bytes d))"

lemma appended_same: "fs_files s' = fs_files s \<Longrightarrow> appended data s s'"
  by (auto simp: appended_def fs_lookup_def intro: exI [of _ 0])

lemma appended_new:
  assumes "fs_lookup s p = None" "fs_lookup s' = (fs_lookup s)(p := Some d)"
  shows "appended data s s'"
  unfolding appended_def
proof (intro allI impI)
  fix k d'
  assume "fs_lookup s k = Some d'"
  with assms have "fs_lookup s' k = Some d'" by auto
  then show "\<exists>d'' n. fs_lookup s' k = Some d'' \<and> fd_bytes d'' = fd_bytes d' @ take n data \<and> fd_synced d' \<le> fd_synced d''"
    by (intro exI [of _ d'] exI [of _ 0]) simp
qed

lemma appended_write:
  assumes "fs_lookup s p = Some d" "fs_files s' = alist_set p d' (fs_files s)"
    and "fd_bytes d' = fd_bytes d @ take n data" "fd_synced d \<le> fd_synced d'"
  shows "appended data s s'"
  unfolding appended_def
proof (intro allI impI)
  fix k e
  assume k: "fs_lookup s k = Some e"
  show "\<exists>e' n. fs_lookup s' k = Some e' \<and> fd_bytes e' = fd_bytes e @ take n data \<and> fd_synced e \<le> fd_synced e'"
  proof (cases "k = p")
    case True
    with k assms show ?thesis by (intro exI [of _ d'] exI [of _ n]) (auto simp: fs_lookup_def)
  next
    case False
    with k assms(2) show ?thesis by (intro exI [of _ e] exI [of _ 0]) (simp add: fs_lookup_def)
  qed
qed

text \<open>Creating files first and writing afterwards composes.\<close>

lemma appended_after_create:
  assumes "\<And>k d. fs_lookup s k = Some d \<Longrightarrow> fs_lookup s1 k = Some d" "appended data s1 s2"
  shows "appended data s s2"
  using assms unfolding appended_def by blast

definition keeps_files :: "fs \<Rightarrow> fs \<Rightarrow> bool" where
  "keeps_files s s' \<longleftrightarrow> same_env s s' \<and> (\<forall>k d. fs_lookup s k = Some d \<longrightarrow> fs_lookup s' k = Some d)"

lemma keeps_files_same: "fs_files s' = fs_files s \<Longrightarrow> same_env s s' \<Longrightarrow> keeps_files s s'"
  by (simp add: keeps_files_def fs_lookup_def)

lemma CreateFile_keeps: "CreateFile d m s = (r, s') \<Longrightarrow> keeps_files s s'"
proof (cases r)
  case (Inl e)
  assume "CreateFile d m s = (r, s')"
  with Inl show ?thesis by (simp add: keeps_files_same CreateFile_Inl)
next
  case (Inr f)
  assume "CreateFile d m s = (r, s')"
  with Inr have "CreateFile d m s = (Inr f, s')" by simp
  from CreateFile_Inr [OF this] show ?thesis by (auto simp: keeps_files_def)
qed

lemma getNextSegment_spec:
  assumes "getNextSegment seg s = (r, seg', s')"
  shows "keeps_files s s'"
    and "r = None \<Longrightarrow> \<exists>f. seg_file seg' = Some f \<and> of_open f \<and> fs_lookup s (of_path f) = None \<and>
      of_path f = path_key s (Join [seg_directory seg, segment_name (seg_maskName seg) (fs_clock s (fs_reads s))]) \<and>
      fs_reads s' = Suc (fs_reads s) \<and>
      fs_files s' = fs_files s @ [(of_path f, \<lparr>fd_bytes = [], fd_synced = 0\<rparr>)] \<and>
      seg' = seg\<lparr>seg_file := Some f, seg_segmentSize := 0\<rparr>"
    and "r \<noteq> None \<Longrightarrow> fs_files s' = fs_files s \<and> (\<exists>oe. r = Some (OsError oe)) \<and>
      (\<exists>f. seg' = seg\<lparr>seg_file := f\<rparr> \<and> (case seg_file seg of None \<Rightarrow> f = None
         | Some g \<Rightarrow> (\<exists>h. f = Some h \<and> of_path h = of_path g \<and> \<not> of_open h)))"
proof -
  obtain seg1 s1 where c: "(case seg_file seg of None \<Rightarrow> (seg, s)
      | Some f \<Rightarrow> (case file_Close f s of (_, f', s') \<Rightarrow> (seg\<lparr>seg_file := Some f'\<rparr>, s'))) = (seg1, s1)"
    by (metis surj_pair)
  then have s1: "fs_files s1 = fs_files s" "same_env s s1" "fs_reads s1 = fs_reads s"
    and seg1: "\<exists>f. seg1 = seg\<lparr>seg_file := f\<rparr> \<and> (case seg_file seg of None \<Rightarrow> f = None
         | Some g \<Rightarrow> (\<exists>h. f = Some h \<and> of_path h = of_path g \<and> \<not> of_open h))"
    by (auto split: option.splits prod.splits dest!: file_Close_files)
  from assms c have g: "(case CreateFile (seg_directory seg1) (seg_maskName seg1) s1 of
           (Inl err, s2) \<Rightarrow> (Some err, seg1, s2)
         | (Inr file, s2) \<Rightarrow> (None, seg1\<lparr>seg_file := Some file, seg_segmentSize := 0\<rparr>, s2)) = (r, seg', s')"
    by (simp add: getNextSegment_def)
  obtain cr s2 where cf: "CreateFile (seg_directory seg1) (seg_maskName seg1) s1 = (cr, s2)" by fastforce
  have dir: "seg_directory seg1 = seg_directory seg" "seg_maskName seg1 = seg_maskName seg"
    using seg1 by auto
  have s2: "s' = s2" using g cf by (auto split: sum.splits)
  show "keeps_files s s'"
    using CreateFile_keeps [OF cf] s1 unfolding s2 by (auto simp: keeps_files_def fs_lookup_def intro: same_env_trans)
  show "\<exists>f. seg_file seg' = Some f \<and> of_open f \<and> fs_lookup s (of_path f) = None \<and>
      of_path f = path_key s (Join [seg_directory seg, segment_name (seg_maskName seg) (fs_clock s (fs_reads s))]) \<and>
      fs_reads s' = Suc (fs_reads s) \<and>
      fs_files s' = fs_files s @ [(of_path f, \<lparr>fd_bytes = [], fd_synced = 0\<rparr>)] \<and>
      seg' = seg\<lparr>seg_file := Some f, seg_segmentSize := 0\<rparr>" if "r = None"
  proof -
    from that g cf obtain f where f: "cr = Inr f" "seg' = seg1\<lparr>seg_file := Some f, seg_segmentSize := 0\<rparr>"
      by (auto split: sum.splits)
    have clk: "fs_clock s1 = fs_clock s" using s1(2) by (simp add: same_env_def)
    from CreateFile_Inr [OF cf [unfolded f(1)]] show ?thesis
      using f(2) seg1 s1 dir s2 clk path_key_env [OF s1(2)] by (auto simp: fs_lookup_def)
  qed
  show "fs_files s' = fs_files s \<and> (\<exists>oe. r = Some (OsError oe)) \<and>
      (\<exists>f. seg' = seg\<lparr>seg_file := f\<rparr> \<and> (case seg_file seg of None \<Rightarrow> f = None
         | Some g \<Rightarrow> (\<exists>h. f = Some h \<and> of_path h = of_path g \<and> \<not> of_open h)))" if "r \<noteq> None"
  proof -
    from that g cf obtain e where e: "cr = Inl e" "r = Some e" "seg' = seg1"
      by (auto split: sum.splits)
    from CreateFile_Inl [OF cf [unfolded e(1)]] show ?thesis using e seg1 s1 s2 by auto
  qed
qed

lemma write_data_None:
  assumes "write_data data seg s = (None, seg', s')"
  obtains f d where "seg_file seg = Some f" "of_open f" "fs_lookup s (of_path f) = Some d"
    "fs_files s' = alist_set (of_path f)
       (d\<lparr>fd_bytes := fd_bytes d @ data, fd_synced := length (fd_bytes d @ data)\<rparr>) (fs_files s)"
    "same_env s s'" "fs_reads s' = fs_reads s"
    "seg' = seg\<lparr>seg_segmentSize := wrap64 (seg_segmentSize seg + int (length data))\<rparr>"
  using assms
  by (auto simp: write_data_def split: option.splits prod.splits sum.splits elim!: WriteFile_Inr)

lemma write_data_Some:
  assumes "write_data data seg s = (Some e, seg', s')"
  shows "e = Filesystem_ErrFailedSaveFile \<and> seg' = seg \<and> same_env s s' \<and>
    (fs_files s' = fs_files s \<or> (\<exists>f d n. seg_file seg = Some f \<and> fs_lookup s (of_path f) = Some d \<and>
        fs_files s' = alist_set (of_path f) (d\<lparr>fd_bytes := fd_bytes d @ take n data\<rparr>) (fs_files s)))"
  using assms
  by (auto simp: write_data_def split: option.splits prod.splits sum.splits dest!: WriteFile_Inl)

lemma write_open_spec:
  assumes "write_open seg s = (r, seg1, s1)"
  shows "(r = None \<and> seg_file seg \<noteq> None \<and> seg1 = seg \<and> s1 = s) \<or>
    (r = None \<and> seg_file seg = None \<and> (\<exists>f. seg1 = seg\<lparr>seg_file := Some f, seg_segmentSize := 0\<rparr> \<and>
        CreateFile (seg_directory seg) (seg_maskName seg) s = (Inr f, s1))) \<or>
    (r = Some Filesystem_ErrFailedFileCreate \<and> seg_file seg = None \<and> seg1 = seg \<and> fs_files s1 = fs_files s \<and> same_env s s1)"
  using assms
  by (auto simp: write_open_def Segment_CreateFile_def split: option.splits prod.splits sum.splits
      dest: CreateFile_Inl)

text \<open>A write that succeeds went either to the active file or, alone, to a new one.\<close>

datatype write_place = SameFile | NewFile

definition wrote :: "write_place \<Rightarrow> bytes \<Rightarrow> os_file \<Rightarrow> Segment \<Rightarrow> fs \<Rightarrow> Segment \<Rightarrow> fs \<Rightarrow> bool" where
  "wrote place data f seg s seg' s' \<longleftrightarrow> same_env s s' \<and> of_open f \<and>
     (case place of
        SameFile \<Rightarrow> seg_file seg = Some f \<and> \<not> must_rotate seg data \<and> fs_reads s' = fs_reads s \<and>
          (\<exists>d. fs_lookup s (of_path f) = Some d \<and>
             fs_files s' = alist_set (of_path f)
               (d\<lparr>fd_bytes := fd_bytes d @ data, fd_synced := length (fd_bytes d @ data)\<rparr>) (fs_files s)) \<and>
          seg' = seg\<lparr>seg_segmentSize := wrap64 (seg_segmentSize seg + int (length data))\<rparr>
      | NewFile \<Rightarrow> (seg_file seg = None \<or> must_rotate seg data) \<and> fs_reads s' = Suc (fs_reads s) \<and>
          of_path f = path_key s (Join [seg_directory seg, segment_name (seg_maskName seg) (fs_clock s (fs_reads s))]) \<and>
          fs_lookup s (of_path f) = None \<and>
          fs_files s' = fs_files s @ [(of_path f, \<lparr>fd_bytes = data, fd_synced = length data\<rparr>)] \<and>
          seg' = seg\<lparr>seg_file := Some f, seg_segmentSize := wrap64 (int (length data))\<rparr>)"

lemma alist_set_snoc_new: "k \<notin> fst ` set xs \<Longrightarrow> alist_set k v (xs @ [(k, w)]) = xs @ [(k, v)]"
  by (induction xs) auto

text \<open>Writing to a file that was just created.\<close>

lemma write_fresh:
  assumes "write_data data (seg\<lparr>seg_file := Some f, seg_segmentSize := 0\<rparr>) s1 = (None, seg', s')"
    and "fs_files s1 = fs_files s @ [(of_path f, \<lparr>fd_bytes = [], fd_synced = 0\<rparr>)]"
    and "fs_lookup s (of_path f) = None" "same_env s s1" "fs_reads s1 = Suc (fs_reads s)"
  shows "same_env s s'" "of_open f" "fs_reads s' = Suc (fs_reads s)"
    "fs_files s' = fs_files s @ [(of_path f, \<lparr>fd_bytes = data, fd_synced = length data\<rparr>)]"
    "seg' = seg\<lparr>seg_file := Some f, seg_segmentSize := wrap64 (int (length data))\<rparr>"
proof -
  have new: "of_path f \<notin> fst ` set (fs_files s)"
    using assms(3) by (simp add: fs_lookup_def map_of_eq_None_iff)
  then have "fs_lookup s1 (of_path f) = Some \<lparr>fd_bytes = [], fd_synced = 0\<rparr>"
    by (simp add: fs_lookup_def assms(2) map_add_def flip: map_of_eq_None_iff)
  with assms(1) show "same_env s s'" "of_open f" "fs_reads s' = Suc (fs_reads s)"
    "fs_files s' = fs_files s @ [(of_path f, \<lparr>fd_bytes = data, fd_synced = length data\<rparr>)]"
    "seg' = seg\<lparr>seg_file := Some f, seg_segmentSize := wrap64 (int (length data))\<rparr>"
    using assms(2,4,5) new
    by (auto elim!: write_data_None intro: same_env_trans simp: alist_set_snoc_new)
qed

lemma Segment_Write_None:
  assumes "Segment_Write data seg s = (None, seg', s')"
  obtains place f where "wrote place data f seg s seg' s'"
proof -
  obtain r seg1 s1 where o: "write_open seg s = (r, seg1, s1)" by (metis surj_pair)
  with assms have r: "r = None" by (auto simp: Segment_Write_def split: option.splits)
  from write_open_spec [OF o] r consider
      (same) "seg_file seg \<noteq> None" "seg1 = seg" "s1 = s"
    | (new) f where "seg_file seg = None" "seg1 = seg\<lparr>seg_file := Some f, seg_segmentSize := 0\<rparr>"
        "CreateFile (seg_directory seg) (seg_maskName seg) s = (Inr f, s1)"
    by auto
  then show thesis
  proof cases
    case new
    then have "\<not> must_rotate seg1 data" by (simp add: must_rotate_def)
    with assms o r have w: "write_data data (seg\<lparr>seg_file := Some f, seg_segmentSize := 0\<rparr>) s1 = (None, seg', s')"
      by (simp add: Segment_Write_def new(2))
    note c = CreateFile_Inr [OF new(3)]
    have "wrote NewFile data f seg s seg' s'"
      using write_fresh [OF w c(7,3,5,6)] c new(1) by (simp add: wrote_def)
    then show thesis by (rule that)
  next
    case same
    show thesis
    proof (cases "must_rotate seg data")
      case True
      then obtain seg2 s2 where g: "getNextSegment seg s = (None, seg2, s2)"
        and w: "write_data data seg2 s2 = (None, seg', s')"
        using assms o r same by (auto simp: Segment_Write_def split: prod.splits option.splits)
      from getNextSegment_spec(2) [OF g refl] obtain f where f: "seg2 = seg\<lparr>seg_file := Some f, seg_segmentSize := 0\<rparr>"
        "fs_files s2 = fs_files s @ [(of_path f, \<lparr>fd_bytes = [], fd_synced = 0\<rparr>)]" "fs_lookup s (of_path f) = None"
        "of_path f = path_key s (Join [seg_directory seg, segment_name (seg_maskName seg) (fs_clock s (fs_reads s))])"
        "fs_reads s2 = Suc (fs_reads s)"
        by auto
      have env: "same_env s s2" using getNextSegment_spec(1) [OF g] by (simp add: keeps_files_def)
      have "wrote NewFile data f seg s seg' s'"
        using write_fresh [OF w [unfolded f(1)] f(2,3) env f(5)] f True by (simp add: wrote_def)
      then show thesis by (rule that)
    next
      case False
      with assms o r same have "write_data data seg s = (None, seg', s')"
        by (simp add: Segment_Write_def)
      then obtain f where "wrote SameFile data f seg s seg' s'"
        using False by (auto elim!: write_data_None simp: wrote_def)
      then show thesis by (rule that)
    qed
  qed
qed

lemma wrote_lookup:
  assumes "wrote place data f seg s seg' s'"
  obtains d where "fs_lookup s' = (fs_lookup s)(of_path f := Some d)"
    "fd_bytes d = (case fs_lookup s (of_path f) of None \<Rightarrow> [] | Some d0 \<Rightarrow> fd_bytes d0) @ data"
    "fd_synced d = length (fd_bytes d)" "seg_file seg' = Some f"
proof (cases place)
  case SameFile
  with assms obtain d0 where d0: "fs_lookup s (of_path f) = Some d0" "fs_files s' = alist_set (of_path f)
      (d0\<lparr>fd_bytes := fd_bytes d0 @ data, fd_synced := length (fd_bytes d0 @ data)\<rparr>) (fs_files s)"
    "seg_file seg' = Some f"
    by (auto simp: wrote_def)
  show thesis
    by (rule that [of "d0\<lparr>fd_bytes := fd_bytes d0 @ data, fd_synced := length (fd_bytes d0 @ data)\<rparr>"])
      (use d0 in \<open>auto simp: fs_lookup_def fun_eq_iff\<close>)
next
  case NewFile
  with assms have n: "fs_lookup s (of_path f) = None" "seg_file seg' = Some f"
    "fs_files s' = fs_files s @ [(of_path f, \<lparr>fd_bytes = data, fd_synced = length data\<rparr>)]"
    by (auto simp: wrote_def)
  then have "fs_lookup s' = (fs_lookup s)(of_path f := Some \<lparr>fd_bytes = data, fd_synced = length data\<rparr>)"
    by (auto simp: fs_lookup_def fun_eq_iff map_add_def split: option.splits)
  with n show thesis by (intro that [of "\<lparr>fd_bytes = data, fd_synced = length data\<rparr>"]) auto
qed

text \<open>
  A successful \<^verbatim>\<open>Segment.Write\<close> is durable: the data is the tail of the active segment's file,
  which held exactly its earlier bytes before (none if it was just created), no other file changed, and
  the whole file survives any crash because it was synced.
\<close>

theorem Segment_Write_durable:
  assumes "Segment_Write data seg s = (None, seg', s')"
  shows "\<exists>f d. seg_file seg' = Some f \<and> fs_lookup s' (of_path f) = Some d \<and>
    fd_bytes d = (case fs_lookup s (of_path f) of None \<Rightarrow> [] | Some d0 \<Rightarrow> fd_bytes d0) @ data \<and>
    (\<forall>k. k \<noteq> of_path f \<longrightarrow> fs_lookup s' k = fs_lookup s k) \<and>
    (\<forall>keep. fs_lookup (crash keep s') (of_path f) = Some d)"
proof -
  obtain place f where "wrote place data f seg s seg' s'" by (rule Segment_Write_None [OF assms])
  then obtain d where "fs_lookup s' = (fs_lookup s)(of_path f := Some d)" "seg_file seg' = Some f"
    "fd_bytes d = (case fs_lookup s (of_path f) of None \<Rightarrow> [] | Some d0 \<Rightarrow> fd_bytes d0) @ data"
    "fd_synced d = length (fd_bytes d)"
    by (rule wrote_lookup)
  then show ?thesis
    by (intro exI [of _ f] exI [of _ d]) (simp add: fs_lookup_crash crash_fdata_synced)
qed

text \<open>A file system with one empty directory, no faults, and a clock that ticks.\<close>

definition demo_fs :: fs where
  "demo_fs = \<lparr>fs_cwd = ''/'', fs_dirs = [[], [''w'']], fs_files = [], fs_fault = (\<lambda>_. NoFault), fs_calls = 0,
     fs_clock = (\<lambda>i. 10 ^ 18 + i), fs_reads = 0\<rparr>"

definition demo_seg :: Segment where
  "demo_seg = NewSegment (Some DiscardLogger) ''/w'' ''s'' 10"

lemma demo_path:
  "path_key s (Join [''/w'', segment_name ''s'' t]) = [''w'', segment_name ''s'' t]"
  using path_key_Join(1) [of "''/w''" "segment_name ''s'' t" s] plain_segment_name [of "''s''" t]
  by (simp add: IsAbs_def path_key_def plain_mask_def)

lemma demo_write:
  "\<exists>seg' s'. Segment_Write ''abc'' demo_seg demo_fs = (None, seg', s')"
  by (simp add: Segment_Write_def write_open_def Segment_CreateFile_def CreateFile_def demo_seg_def demo_fs_def
      NewSegment_def must_rotate_def write_data_def WriteFile_def os_defs Let_def demo_path)

theorem Segment_Write_durable_witness:
  "\<exists>seg' s'. Segment_Write ''abc'' demo_seg demo_fs = (None, seg', s') \<and>
    (\<exists>f d. seg_file seg' = Some f \<and> fs_lookup s' (of_path f) = Some d \<and>
      fd_bytes d = (case fs_lookup demo_fs (of_path f) of None \<Rightarrow> [] | Some d0 \<Rightarrow> fd_bytes d0) @ ''abc'' \<and>
      (\<forall>k. k \<noteq> of_path f \<longrightarrow> fs_lookup s' k = fs_lookup demo_fs k) \<and>
      (\<forall>keep. fs_lookup (crash keep s') (of_path f) = Some d))"
proof -
  obtain seg' s' where w: "Segment_Write ''abc'' demo_seg demo_fs = (None, seg', s')" using demo_write by blast
  with Segment_Write_durable [OF w] show ?thesis by blast
qed

lemma CreateFile_synced: "CreateFile d m s = (r, s') \<Longrightarrow> synced_ok s \<Longrightarrow> synced_ok s'"
proof (cases r)
  case (Inl e)
  assume "CreateFile d m s = (r, s')" "synced_ok s"
  with Inl show ?thesis by (auto simp: synced_ok_def fs_lookup_def dest: CreateFile_Inl)
next
  case (Inr f)
  assume c: "CreateFile d m s = (r, s')" and s: "synced_ok s"
  from CreateFile_Inr(4) [OF c [unfolded Inr]] s show ?thesis by (auto simp: synced_ok_def)
qed

lemma seg_inv_keeps: "keeps_files s s' \<Longrightarrow> seg_inv seg s \<Longrightarrow> seg_inv seg s'"
  by (auto simp: seg_inv_def keeps_files_def split: option.splits)

lemma write_open_inv:
  assumes "write_open seg s = (r, seg1, s1)" "seg_inv seg s" "synced_ok s"
  shows "keeps_files s s1 \<and> seg_inv seg1 s1 \<and> synced_ok s1"
  using write_open_spec [OF assms(1)]
proof (elim disjE conjE exE)
  fix f
  assume f: "seg1 = seg\<lparr>seg_file := Some f, seg_segmentSize := 0\<rparr>"
    and c: "CreateFile (seg_directory seg) (seg_maskName seg) s = (Inr f, s1)"
  show ?thesis
    using CreateFile_keeps [OF c] CreateFile_synced [OF c assms(3)] CreateFile_Inr [OF c]
    by (simp add: f seg_inv_def)
next
  assume "seg1 = seg" "fs_files s1 = fs_files s" "same_env s s1"
  with assms show ?thesis
    by (auto simp: synced_ok_def fs_lookup_def intro: keeps_files_same seg_inv_keeps [of s])
qed (use assms in \<open>auto intro: keeps_files_same\<close>)

lemma getNextSegment_inv:
  assumes "getNextSegment seg s = (r, seg1, s1)" "seg_inv seg s" "synced_ok s"
  shows "keeps_files s s1 \<and> seg_inv seg1 s1 \<and> synced_ok s1"
proof (cases r)
  case None
  then obtain f where "seg1 = seg\<lparr>seg_file := Some f, seg_segmentSize := 0\<rparr>" "fs_lookup s (of_path f) = None"
    "fs_files s1 = fs_files s @ [(of_path f, \<lparr>fd_bytes = [], fd_synced = 0\<rparr>)]"
    using getNextSegment_spec(2) [OF assms(1)] by auto
  then show ?thesis
    using getNextSegment_spec(1) [OF assms(1)] assms(3)
    by (auto simp: seg_inv_def synced_ok_def fs_lookup_def map_add_def split: option.splits if_splits)
next
  case (Some e)
  then obtain f where "fs_files s1 = fs_files s" "seg1 = seg\<lparr>seg_file := f\<rparr>"
    "case seg_file seg of None \<Rightarrow> f = None | Some g \<Rightarrow> (\<exists>h. f = Some h \<and> of_path h = of_path g \<and> \<not> of_open h)"
    using getNextSegment_spec(3) [OF assms(1)] by auto
  then show ?thesis
    using getNextSegment_spec(1) [OF assms(1)] assms
    by (auto simp: seg_inv_def synced_ok_def fs_lookup_def split: option.splits)
qed

lemma alist_set_lookup:
  "fs_files s' = alist_set p d (fs_files s) \<Longrightarrow> fs_lookup s' = (fs_lookup s)(p := Some d)"
  by (simp add: fs_lookup_def fun_eq_iff)

lemma write_data_inv:
  assumes "write_data data seg s = (r, seg', s')" "seg_inv seg s" "synced_ok s" "fits64 seg data"
  shows "appended data s s' \<and> seg_inv seg' s' \<and> synced_ok s'"
proof (cases r)
  case None
  with assms(1) obtain f d where w: "seg_file seg = Some f" "fs_lookup s (of_path f) = Some d"
    and s': "fs_files s' = alist_set (of_path f)
       (d\<lparr>fd_bytes := fd_bytes d @ data, fd_synced := length (fd_bytes d @ data)\<rparr>) (fs_files s)"
    and seg': "seg' = seg\<lparr>seg_segmentSize := wrap64 (seg_segmentSize seg + int (length data))\<rparr>"
    by (auto elim: write_data_None)
  have sync: "fd_synced d \<le> length (fd_bytes d)" using assms(3) w by (auto simp: synced_ok_def)
  have "appended data s s'"
    by (rule appended_write [OF w(2) s', of "length data"]) (use sync in auto)
  moreover have "wrap64 (seg_segmentSize seg + int (length data)) = seg_segmentSize seg + int (length data)"
    using assms(2,4) by (intro wrap64_id) (auto simp: int64_range_def fits64_def seg_inv_def)
  ultimately show ?thesis
    using assms(2,3) w seg' alist_set_lookup [OF s'] by (auto simp: seg_inv_def synced_ok_def)
next
  case (Some e)
  note x = write_data_Some [OF assms(1) [unfolded Some]]
  show ?thesis
  proof (cases "fs_files s' = fs_files s")
    case True
    then show ?thesis using x assms by (auto simp: appended_same synced_ok_def seg_inv_def fs_lookup_def split: option.splits)
  next
    case False
    with x obtain f d n where w: "seg_file seg = Some f" "fs_lookup s (of_path f) = Some d"
      and s': "fs_files s' = alist_set (of_path f) (d\<lparr>fd_bytes := fd_bytes d @ take n data\<rparr>) (fs_files s)"
      by auto
    have "appended data s s'" by (rule appended_write [OF w(2) s', of n]) auto
    then show ?thesis
      using x assms(2,3) w alist_set_lookup [OF s'] by (fastforce simp: seg_inv_def synced_ok_def)
  qed
qed

text \<open>The same without the bookkeeping: nothing about the sizes is needed for the files to be append-only.\<close>

lemma write_data_appended:
  assumes "write_data data seg s = (r, seg', s')" "synced_ok s"
  shows "appended data s s' \<and> synced_ok s' \<and> same_env s s'"
proof (cases r)
  case None
  obtain f :: os_file and d where w: "fs_lookup s (of_path f) = Some d" "same_env s s'"
    and s': "fs_files s' = alist_set (of_path f)
       (d\<lparr>fd_bytes := fd_bytes d @ data, fd_synced := length (fd_bytes d @ data)\<rparr>) (fs_files s)"
    by (rule write_data_None [OF assms(1) [unfolded None]]) blast
  have "appended data s s'"
    by (rule appended_write [OF w(1) s', of "length data"]) (use assms(2) w in \<open>auto simp: synced_ok_def intro: trans_le_add1\<close>)
  then show ?thesis
    using assms(2) w alist_set_lookup [OF s'] by (auto simp: synced_ok_def)
next
  case (Some e)
  note x = write_data_Some [OF assms(1) [unfolded Some]]
  show ?thesis
  proof (cases "fs_files s' = fs_files s")
    case True
    then show ?thesis using x assms(2) by (auto simp: appended_same synced_ok_def fs_lookup_def)
  next
    case False
    with x obtain f :: os_file and d n where w: "fs_lookup s (of_path f) = Some d"
      and s': "fs_files s' = alist_set (of_path f) (d\<lparr>fd_bytes := fd_bytes d @ take n data\<rparr>) (fs_files s)"
      by auto
    have "appended data s s'" by (rule appended_write [OF w s', of n]) auto
    then show ?thesis
      using x assms(2) w alist_set_lookup [OF s'] by (fastforce simp: synced_ok_def)
  qed
qed

lemma write_open_keeps:
  assumes "write_open seg s = (r, seg1, s1)" "synced_ok s"
  shows "keeps_files s s1 \<and> synced_ok s1"
  using write_open_spec [OF assms(1)] assms(2)
  by (auto simp: synced_ok_def fs_lookup_def intro: keeps_files_same dest: CreateFile_keeps
      CreateFile_synced [unfolded synced_ok_def fs_lookup_def])

lemma getNextSegment_keeps:
  assumes "getNextSegment seg s = (r, seg1, s1)" "synced_ok s"
  shows "keeps_files s s1 \<and> synced_ok s1"
proof (cases r)
  case None
  with getNextSegment_spec(1,2) [OF assms(1)] assms(2) show ?thesis
    by (auto simp: synced_ok_def fs_lookup_def map_add_def split: option.splits if_splits)
next
  case (Some e)
  with getNextSegment_spec(1,3) [OF assms(1)] assms(2) show ?thesis
    by (auto simp: synced_ok_def fs_lookup_def)
qed

lemma appended_keeps:
  assumes "keeps_files s s1" "appended data s1 s2 \<and> synced_ok s2 \<and> same_env s1 s2"
  shows "appended data s s2 \<and> synced_ok s2 \<and> same_env s s2"
  using assms appended_after_create [of s s1 data s2] by (auto simp: keeps_files_def intro: same_env_trans)

lemma Segment_Write_appended:
  assumes "Segment_Write data seg s = (r, seg', s')" "synced_ok s"
  shows "appended data s s' \<and> synced_ok s' \<and> same_env s s'"
proof -
  obtain r1 seg1 s1 where o: "write_open seg s = (r1, seg1, s1)" by (metis surj_pair)
  note 1 = write_open_keeps [OF o assms(2)]
  obtain r2 seg2 s2 where g: "getNextSegment seg1 s1 = (r2, seg2, s2)" by (metis surj_pair)
  have 2: "keeps_files s1 s2 \<and> synced_ok s2" using getNextSegment_keeps [OF g] 1 by simp
  then have k2: "keeps_files s s2" using 1 by (auto simp: keeps_files_def intro: same_env_trans)
  consider "s' = s1" | "s' = s2" | "write_data data seg1 s1 = (r, seg', s')" | "write_data data seg2 s2 = (r, seg', s')"
    using assms(1) o g by (auto simp: Segment_Write_def split: option.splits if_splits)
  then show ?thesis
  proof cases
    case 3
    then show ?thesis using write_data_appended [OF 3] 1 appended_keeps by blast
  next
    case 4
    then show ?thesis using write_data_appended [OF 4] 2 k2 appended_keeps by blast
  qed (use 1 2 k2 appended_keeps appended_same [OF refl] same_env_refl in blast)+
qed

text \<open>
  C26. The segment is append-only whatever the operating system does: after \<^verbatim>\<open>Segment.Write\<close>, with
  any outcome and any pattern of failing, short or unsynced system calls, every file that existed still
  has all its bytes, followed by at most a prefix of the data; its synced part has not shrunk; and the
  segment's bookkeeping still describes its active file.
\<close>

theorem Segment_Write_append_only:
  assumes "Segment_Write data seg s = (r, seg', s')" and "seg_inv seg s" and "synced_ok s" and "fits64 seg data"
  shows "appended data s s' \<and> seg_inv seg' s' \<and> synced_ok s'"
proof -
  obtain r1 seg1 s1 where o: "write_open seg s = (r1, seg1, s1)" by (metis surj_pair)
  have 1: "keeps_files s s1" "seg_inv seg1 s1" "synced_ok s1"
    using write_open_inv [OF o assms(2,3)] by auto
  have fit: "fits64 seg1 data"
    using write_open_spec [OF o] assms(2,4) by (auto simp: fits64_def seg_inv_def)
  have pass: ?thesis if "keeps_files s s2" "seg_inv seg2 s2" "synced_ok s2" "fits64 seg2 data"
    "write_data data seg2 s2 = (r, seg', s')" for seg2 s2
    using write_data_inv [OF that(5,2,3,4)] appended_after_create [of s s2 data s'] that(1)
    by (auto simp: keeps_files_def)
  have stop: ?thesis if "keeps_files s s'" "seg_inv seg' s'" "synced_ok s'"
    using that appended_after_create [OF _ appended_same [OF refl], of s s' data] by (auto simp: keeps_files_def)
  show ?thesis
  proof (cases r1)
    case (Some e)
    then have "seg' = seg1" "s' = s1" using assms(1) o by (auto simp: Segment_Write_def)
    with stop 1 show ?thesis by simp
  next
    case None
    show ?thesis
    proof (cases "must_rotate seg1 data")
      case False
      then have "write_data data seg1 s1 = (r, seg', s')" using assms(1) o None by (simp add: Segment_Write_def)
      with pass 1 fit show ?thesis by blast
    next
      case True
      obtain r2 seg2 s2 where g: "getNextSegment seg1 s1 = (r2, seg2, s2)" by (metis surj_pair)
      have 2: "keeps_files s1 s2" "seg_inv seg2 s2" "synced_ok s2"
        using getNextSegment_inv [OF g 1(2,3)] by auto
      then have k: "keeps_files s s2" using 1(1) by (auto simp: keeps_files_def intro: same_env_trans)
      have fit2: "fits64 seg2 data"
        using getNextSegment_spec(2,3) [OF g] fit 1(2) by (cases r2) (auto simp: fits64_def seg_inv_def)
      show ?thesis
        using assms(1) o None True g pass [OF k 2(2,3) fit2] stop k 2
        by (cases r2) (auto simp: Segment_Write_def)
    qed
  qed
qed

theorem Segment_Write_append_only_witness:
  "\<exists>r seg' s'. Segment_Write ''abc'' demo_seg (demo_fs\<lparr>fs_fault := (\<lambda>n. if n = 2 then Fails (EOTHER 5) else NoFault)\<rparr>)
       = (Some r, seg', s') \<and>
     appended ''abc'' (demo_fs\<lparr>fs_fault := (\<lambda>n. if n = 2 then Fails (EOTHER 5) else NoFault)\<rparr>) s' \<and>
     seg_inv seg' s' \<and> synced_ok s'"
proof -
  let ?fs = "demo_fs\<lparr>fs_fault := (\<lambda>n. if n = 2 then Fails (EOTHER 5) else NoFault)\<rparr>"
  have "\<exists>r seg' s'. Segment_Write ''abc'' demo_seg ?fs = (Some r, seg', s')"
    by (simp add: Segment_Write_def write_open_def Segment_CreateFile_def CreateFile_def demo_seg_def demo_fs_def
      NewSegment_def must_rotate_def write_data_def WriteFile_def os_defs Let_def demo_path)
  then obtain r seg' s' where w: "Segment_Write ''abc'' demo_seg ?fs = (Some r, seg', s')" by blast
  have "seg_inv demo_seg ?fs" "synced_ok ?fs" "fits64 demo_seg ''abc''"
    by (simp_all add: seg_inv_def synced_ok_def fits64_def demo_seg_def NewSegment_def demo_fs_def fs_lookup_def)
  from Segment_Write_append_only [OF w this] w show ?thesis by blast
qed

text \<open>Without failed writes the recorded size is the length of the active file.\<close>

definition seg_exact :: "Segment \<Rightarrow> fs \<Rightarrow> bool" where
  "seg_exact seg s \<longleftrightarrow> (case seg_file seg of
       None \<Rightarrow> seg_segmentSize seg = 0
     | Some f \<Rightarrow> (\<exists>d. fs_lookup s (of_path f) = Some d \<and> seg_segmentSize seg = int (length (fd_bytes d))))"

text \<open>
  C27. Segments stay within their limit: if the recorded size of the active file is its length, then
  after a successful \<^verbatim>\<open>Write\<close> it still is, and with a positive \<^verbatim>\<open>maxSegmentSize\<close> the file written to
  is no longer than the limit, unless a single batch is itself longer than the limit, and then it is
  alone in its file.
\<close>

theorem Segment_Write_size_bound:
  assumes "Segment_Write data seg s = (None, seg', s')" and "seg_exact seg s" and "fits64 seg data"
  shows "seg_exact seg' s' \<and> (\<exists>f d. seg_file seg' = Some f \<and> fs_lookup s' (of_path f) = Some d \<and>
    (0 < seg_maxSegmentSize seg \<longrightarrow> int (length (fd_bytes d)) \<le> seg_maxSegmentSize seg \<or> fd_bytes d = data))"
proof -
  obtain place f where w: "wrote place data f seg s seg' s'" by (rule Segment_Write_None [OF assms(1)])
  obtain d where d: "fs_lookup s' = (fs_lookup s)(of_path f := Some d)" "seg_file seg' = Some f"
    "fd_bytes d = (case fs_lookup s (of_path f) of None \<Rightarrow> [] | Some d0 \<Rightarrow> fd_bytes d0) @ data"
    by (rule wrote_lookup [OF w])
  have "seg_segmentSize seg' = int (length (fd_bytes d)) \<and>
      (0 < seg_maxSegmentSize seg \<longrightarrow> int (length (fd_bytes d)) \<le> seg_maxSegmentSize seg \<or> fd_bytes d = data)"
  proof (cases place)
    case SameFile
    with w obtain d0 where d0: "seg_file seg = Some f" "fs_lookup s (of_path f) = Some d0" "\<not> must_rotate seg data"
      "seg' = seg\<lparr>seg_segmentSize := wrap64 (seg_segmentSize seg + int (length data))\<rparr>"
      by (auto simp: wrote_def)
    have sz: "seg_segmentSize seg = int (length (fd_bytes d0))" using assms(2) d0 by (simp add: seg_exact_def)
    have "wrap64 (seg_segmentSize seg + int (length data)) = seg_segmentSize seg + int (length data)"
      using assms(3) sz by (intro wrap64_id) (simp add: int64_range_def fits64_def)
    with d0 sz d show ?thesis by (auto simp: must_rotate_def)
  next
    case NewFile
    with w have "fs_lookup s (of_path f) = None" "seg_segmentSize seg' = wrap64 (int (length data))"
      by (auto simp: wrote_def)
    moreover have "int64_range (int (length data))"
      using assms(2,3) by (auto simp: fits64_def int64_range_def seg_exact_def split: option.splits)
    ultimately show ?thesis using d by (simp add: wrap64_id)
  qed
  with d show ?thesis by (simp add: seg_exact_def)
qed

theorem Segment_Write_size_bound_witness:
  "\<exists>seg' s'. Segment_Write ''abc'' demo_seg demo_fs = (None, seg', s') \<and> seg_exact demo_seg demo_fs \<and>
    fits64 demo_seg ''abc'' \<and> seg_exact seg' s' \<and>
    (\<exists>f d. seg_file seg' = Some f \<and> fs_lookup s' (of_path f) = Some d \<and>
      (0 < seg_maxSegmentSize demo_seg \<longrightarrow>
         int (length (fd_bytes d)) \<le> seg_maxSegmentSize demo_seg \<or> fd_bytes d = ''abc''))"
proof -
  obtain seg' s' where w: "Segment_Write ''abc'' demo_seg demo_fs = (None, seg', s')" using demo_write by blast
  have h: "seg_exact demo_seg demo_fs" "fits64 demo_seg ''abc''"
    by (simp_all add: seg_exact_def fits64_def demo_seg_def NewSegment_def)
  from Segment_Write_size_bound [OF w h] w h show ?thesis by blast
qed

section \<open>Listing\<close>

lemma regular_paths_filter:
  "regular_paths d entries = map (\<lambda>e. Join [d, fst e]) (filter (\<lambda>e. \<not> snd e) entries)"
  by (induction d entries rule: regular_paths.induct) auto

lemma sort_eq_of_mset: "mset xs = mset ys \<Longrightarrow> sort xs = sort (ys :: 'a :: linorder list)"
  by (metis properties_for_sort mset_sort sorted_sort)

lemma GetFileList_ok:
  assumes "fs_fault s (fs_calls s) = NoFault" "path_key s d \<in> set (fs_dirs s)"
  shows "GetFileList d s =
    (Inr (sort (map (\<lambda>n. Join [d, n]) (dir_children (path_key s d) (map fst (fs_files s))))),
     s\<lparr>fs_calls := Suc (fs_calls s)\<rparr>)"
proof -
  let ?ds = "map (\<lambda>n. (n, True)) (dir_children (path_key s d) (fs_dirs s))"
  let ?fs = "map (\<lambda>n. (n, False)) (dir_children (path_key s d) (map fst (fs_files s)))"
  have "mset (regular_paths d (sort_key fst (?ds @ ?fs))) = mset (regular_paths d (?ds @ ?fs))"
    unfolding regular_paths_filter mset_map mset_filter mset_sort ..
  also have "regular_paths d (?ds @ ?fs) = map (\<lambda>n. Join [d, n]) (dir_children (path_key s d) (map fst (fs_files s)))"
    by (simp add: regular_paths_filter filter_map comp_def)
  finally show ?thesis
    using assms by (simp add: GetFileList_def os_defs Let_def sort_eq_of_mset)
qed

lemma GetFileList_chronological:
  assumes "fs_fault s (fs_calls s) = NoFault" "path_key s d \<in> set (fs_dirs s)" "IsAbs d" "plain_mask m"
    and "sorted_wrt (<) ts" "list_all clock_19 ts"
    and "mset (dir_children (path_key s d) (map fst (fs_files s))) = mset (map (segment_name m) ts)"
  shows "GetFileList d s = (Inr (map (\<lambda>t. Join [d, segment_name m t]) ts), s\<lparr>fs_calls := Suc (fs_calls s)\<rparr>)"
proof -
  let ?path = "\<lambda>t. Join [d, segment_name m t]"
  have "sorted_wrt (\<lambda>t t'. ?path t < ?path t') ts"
    using assms(5,6) by (intro sorted_wrt_mono_rel [OF _ assms(5)])
      (auto simp: list_all_iff intro: segment_path_less [OF assms(3,4)])
  then have "sorted (map ?path ts)" by (auto simp: sorted_map intro: sorted_wrt_mono_rel [rotated])
  moreover have "mset (map (\<lambda>n. Join [d, n]) (dir_children (path_key s d) (map fst (fs_files s)))) = mset (map ?path ts)"
    using arg_cong [OF assms(7), of "image_mset (\<lambda>n. Join [d, n])"]
    by (simp add: image_mset.compositionality comp_def)
  ultimately show ?thesis
    using sort_eq_of_mset sorted_sort_id by (metis GetFileList_ok [OF assms(1,2)])
qed

text \<open>
  C28. Recovery reads the segments in the order they were written: if the files of the segment's
  directory are segments created at increasing nineteen-digit nanosecond times, in whatever order the
  directory holds them, \<^verbatim>\<open>GetList\<close> returns their paths in creation order.
\<close>

theorem GetList_chronological:
  assumes "fs_fault s (fs_calls s) = NoFault" and "path_key s (seg_directory seg) \<in> set (fs_dirs s)"
    and "IsAbs (seg_directory seg)" and "plain_mask (seg_maskName seg)"
    and "sorted_wrt (<) ts" and "list_all clock_19 ts"
    and "mset (dir_children (path_key s (seg_directory seg)) (map fst (fs_files s))) =
         mset (map (segment_name (seg_maskName seg)) ts)"
  shows "Segment_GetList seg s =
    (Inr (map (\<lambda>t. Join [seg_directory seg, segment_name (seg_maskName seg) t]) ts), s\<lparr>fs_calls := Suc (fs_calls s)\<rparr>)"
  unfolding Segment_GetList_def by (rule GetFileList_chronological [OF assms])

theorem GetList_chronological_witness:
  "Segment_GetList demo_seg (demo_fs\<lparr>fs_files := [([''w'', segment_name ''s'' (10 ^ 18 + 1)], \<lparr>fd_bytes = [], fd_synced = 0\<rparr>),
        ([''w'', segment_name ''s'' (10 ^ 18)], \<lparr>fd_bytes = [], fd_synced = 0\<rparr>)]\<rparr>) =
   (Inr [Join [''/w'', segment_name ''s'' (10 ^ 18)], Join [''/w'', segment_name ''s'' (10 ^ 18 + 1)]],
    demo_fs\<lparr>fs_files := [([''w'', segment_name ''s'' (10 ^ 18 + 1)], \<lparr>fd_bytes = [], fd_synced = 0\<rparr>),
        ([''w'', segment_name ''s'' (10 ^ 18)], \<lparr>fd_bytes = [], fd_synced = 0\<rparr>)], fs_calls := 1\<rparr>)"
  using GetList_chronological [of "demo_fs\<lparr>fs_files := [([''w'', segment_name ''s'' (10 ^ 18 + 1)], \<lparr>fd_bytes = [], fd_synced = 0\<rparr>),
        ([''w'', segment_name ''s'' (10 ^ 18)], \<lparr>fd_bytes = [], fd_synced = 0\<rparr>)]\<rparr>" demo_seg "[10 ^ 18, 10 ^ 18 + 1]"]
  by (simp add: demo_seg_def demo_fs_def NewSegment_def IsAbs_def plain_mask_def clock_19_def path_key_def dir_children_def)

end
