(* ===== verification/Config.thy ===== *)
theory Config
  imports Go_Prelude
begin

text \<open>
  Package \<^verbatim>\<open>internal/config\<close>: the configuration structs and \<^verbatim>\<open>NewConfig\<close>. Reading the file or the
  environment (\<^verbatim>\<open>cleanenv\<close>) and validating the result (\<^verbatim>\<open>validator\<close>) is code of other modules: it is a
  parameter of \<open>NewConfig\<close>. The \<^verbatim>\<open>validate\<close> tags of the structs are the predicate \<open>tags_ok\<close>.
\<close>

section \<open>The structs\<close>

record NetworkConfig =
  Address :: string
  MaxConnections :: int64
  MaxMessageSize :: int64
  IdleTimeout :: int64
  BufferSize :: int64
  TypeConn :: string

record LoggingConfig =
  Level :: string

record WalConfig =
  FlushingBatchTimeout :: int64
  FlushingBatchCount :: int64
  FlushingBatchVolume :: int64
  MaxSegmentSize :: int64
  SegmentStoragePath :: string
  MaskName :: string

record Config =
  Network :: "NetworkConfig option"
  Logger :: "LoggingConfig option"
  cfg_Wal :: "WalConfig option"
  EngineType :: string

text \<open>\<^verbatim>\<open>time.Duration\<close> counts nanoseconds.\<close>

definition Millisecond :: int64 where "Millisecond = 1000000"
definition Minute :: int64 where "Minute = 60000000000"

text \<open>The configuration \<^verbatim>\<open>NewConfig\<close> starts from.\<close>

definition base_config :: Config where
  "base_config =
     \<lparr>Network = Some \<lparr>Address = ''127.0.0.1:3323'', MaxConnections = 100, MaxMessageSize = 4096,
        IdleTimeout = 5 * Minute, BufferSize = 4096, TypeConn = ''tcp''\<rparr>,
      Logger = Some \<lparr>Level = ''info''\<rparr>,
      cfg_Wal = Some \<lparr>FlushingBatchTimeout = 10 * Millisecond, FlushingBatchCount = 2,
        FlushingBatchVolume = 10485760, MaxSegmentSize = 1073741824,
        SegmentStoragePath = ''./storage/wal'', MaskName = ''segment_''\<rparr>,
      EngineType = ''in_memory''\<rparr>"

section \<open>NewConfig\<close>

text \<open>
  The environment of \<^verbatim>\<open>NewConfig\<close>: the value of \<^verbatim>\<open>CONFIG_PATH\<close>, whether \<^verbatim>\<open>os.Stat\<close> succeeds, and the
  functions of the two other modules it calls.
\<close>

record config_env =
  env_CONFIG_PATH :: string
  os_Stat :: "string \<Rightarrow> go_error option"
  cleanenv_ReadConfig :: "string \<Rightarrow> Config \<Rightarrow> Config result"
  cleanenv_ReadEnv :: "Config \<Rightarrow> Config result"
  validator_Struct :: "Config \<Rightarrow> go_error option"

definition read_config :: "config_env \<Rightarrow> Config \<Rightarrow> Config result" where
  "read_config env cfg =
     (let configPath = env_CONFIG_PATH env in
      if configPath \<noteq> '''' then
        (case os_Stat env configPath of
           Some err \<Rightarrow> Inl (Errorf ''config.NewConfig: wrong path: error accessing config file'' None)
         | None \<Rightarrow> (case cleanenv_ReadConfig env configPath cfg of
              Inl err \<Rightarrow> Inl (Errorf ''config.NewConfig: error reading config file'' None)
            | Inr cfg' \<Rightarrow> Inr cfg'))
      else
        (case cleanenv_ReadEnv env cfg of
           Inl err \<Rightarrow> Inl (Errorf ''config.NewConfig: error reading config from env variables'' None)
         | Inr cfg' \<Rightarrow> Inr cfg'))"

definition NewConfig :: "config_env \<Rightarrow> Config result" where
  "NewConfig env =
     (case read_config env base_config of
        Inl err \<Rightarrow> Inl err
      | Inr cfg \<Rightarrow> (case validator_Struct env cfg of
           Some err \<Rightarrow> Inl (Errorf ''config.NewConfig: config validation error: '' (Some err))
         | None \<Rightarrow> Inr cfg))"

text \<open>The \<^verbatim>\<open>validate\<close> tags of the structs.\<close>

definition wal_tags_ok :: "WalConfig \<Rightarrow> bool" where
  "wal_tags_ok w \<longleftrightarrow> FlushingBatchTimeout w > 0 \<and> FlushingBatchCount w > 0 \<and> FlushingBatchVolume w > 0 \<and>
     MaxSegmentSize w > 0 \<and> SegmentStoragePath w \<noteq> '''' \<and> MaskName w \<noteq> ''''"

definition network_tags_ok :: "NetworkConfig \<Rightarrow> bool" where
  "network_tags_ok n \<longleftrightarrow> MaxConnections n > 0 \<and> MaxMessageSize n > 0 \<and> IdleTimeout n > 0 \<and> BufferSize n > 0"

definition tags_ok :: "Config \<Rightarrow> bool" where
  "tags_ok cfg \<longleftrightarrow> pred_option wal_tags_ok (cfg_Wal cfg) \<and> pred_option network_tags_ok (Network cfg)"

lemma base_config_tags: "tags_ok base_config"
  by (simp add: tags_ok_def base_config_def wal_tags_ok_def network_tags_ok_def Millisecond_def Minute_def)

end
