(* ===== verification/Wal.thy ===== *)
theory Wal
  imports Wal_Log Filesystem Hash_Table Config Compute Context_Id
begin

text \<open>
  Package \<^verbatim>\<open>wal\<close>: the batch writer (wal_writer.go), the reader (wal_reader.go), and the write-ahead log
  itself (wal.go): batching, flushing, applying and recovery. Each critical section and each stretch
  between two blocking points is one definition; Wal_Runtime interleaves them.
\<close>

section \<open>The state (wal.go)\<close>

text \<open>
  The interface \<^verbatim>\<open>CommandHashTable\<close> as the table of its methods; the table they work on is a value of
  type \<^typ>\<open>'t\<close>, held by the WAL by reference and read by the engine.
\<close>

record 't CommandHashTable =
  cht_Set :: "string \<Rightarrow> string \<Rightarrow> 't \<Rightarrow> 't"
  cht_Del :: "string \<Rightarrow> 't \<Rightarrow> 't"

record walConfig =
  flushingBatchTimeout :: int64
  flushingBatchCount :: int64
  flushingBatchVolume :: int64
  maxSegmentSize :: int64
  segmentStoragePath :: string
  maskName :: string

text \<open>
  The struct \<^verbatim>\<open>Wal\<close>. The writer and the reader hold the same \<^verbatim>\<open>*filesystem.Segment\<close>, which is the
  field \<open>wal_segment\<close>; \<open>wal_batches\<close> is the content of the channel of sealed batches.
\<close>

record 't Wal =
  wal_log :: logger
  wal_walConfig :: walConfig
  wal_segment :: Segment
  wal_batch :: "WriteRequest list"
  wal_batches :: "WriteRequest list list"
  wal_activeBatchVolume :: int64
  wal_commandHashTable :: "'t CommandHashTable"
  wal_table :: 't

definition batches_cap :: nat where
  "batches_cap = 5"

definition NewWal ::
    "logger option \<Rightarrow> WalConfig \<Rightarrow> Segment \<Rightarrow> 't CommandHashTable \<Rightarrow> 't \<Rightarrow> 't Wal result" where
  "NewWal log cfg segment cmd t =
     (case log of
        None \<Rightarrow> Inl Wal_ErrInvalidLogger
      | Some l \<Rightarrow> Inr
          \<lparr>wal_log = l,
           wal_walConfig = \<lparr>flushingBatchTimeout = FlushingBatchTimeout cfg, flushingBatchCount = FlushingBatchCount cfg,
             flushingBatchVolume = FlushingBatchVolume cfg, maxSegmentSize = MaxSegmentSize cfg,
             segmentStoragePath = SegmentStoragePath cfg, maskName = MaskName cfg\<rparr>,
           wal_segment = segment, wal_batch = [], wal_batches = [], wal_activeBatchVolume = 0,
           wal_commandHashTable = cmd, wal_table = t\<rparr>)"

section \<open>The batch writer (wal_writer.go)\<close>

fun notification :: "go_error option \<Rightarrow> WriteRequest list \<Rightarrow> heap \<Rightarrow> (WriteRequest list \<times> heap) outcome" where
  "notification response [] h = Done ([], h)"
| "notification response (r # rs) h =
     outcome_bind (Promise_Set response (wr_promise r) h) (\<lambda>(p, h1).
     outcome_bind (notification response rs h1) (\<lambda>(rs', h2). Done (r\<lparr>wr_promise := p\<rparr> # rs', h2)))"

text \<open>
  \<^verbatim>\<open>WalWriter.Write\<close>. The segment is reached through the interface \<^verbatim>\<open>segmentWrite\<close>, so its \<^verbatim>\<open>Write\<close> is an
  argument, on a state of its own.
\<close>

definition WalWriter_Write ::
    "(bytes \<Rightarrow> 'w \<Rightarrow> go_error option \<times> 'w) \<Rightarrow> WriteRequest list \<Rightarrow> 'w \<Rightarrow> heap \<Rightarrow>
     (go_error option \<times> WriteRequest list \<times> 'w \<times> heap) outcome" where
  "WalWriter_Write segment_Write requests w h =
     (case encode_all (map wr_log requests) (NewEncoder []) of
        (Some err, encoder) \<Rightarrow>
          outcome_bind (notification (Some err) requests h) (\<lambda>(requests', h'). Done (Some err, requests', w, h'))
      | (None, encoder) \<Rightarrow>
          (case segment_Write (enc_buf encoder) w of (err, w') \<Rightarrow>
             outcome_bind (notification err requests h) (\<lambda>(requests', h'). Done (err, requests', w', h'))))"

text \<open>The segment of the WAL behind that interface.\<close>

definition segment_writer :: "bytes \<Rightarrow> Segment \<times> fs \<Rightarrow> go_error option \<times> Segment \<times> fs" where
  "segment_writer data w = Segment_Write data (fst w) (snd w)"

section \<open>Applying records (wal.go)\<close>

definition Wal_apply :: "'t CommandHashTable \<Rightarrow> Log \<Rightarrow> 't \<Rightarrow> go_error option \<times> 't" where
  "Wal_apply cmd r t =
     (if CommandID r = 1 then
        (case Arguments r of k # v # _ \<Rightarrow> (None, cht_Set cmd k v t) | _ \<Rightarrow> (Some Wal_ErrApplyRecord, t))
      else if CommandID r = 2 then
        (case Arguments r of k # _ \<Rightarrow> (None, cht_Del cmd k t) | _ \<Rightarrow> (Some Wal_ErrApplyRecord, t))
      else (None, t))"

text \<open>The loop of \<^verbatim>\<open>flushBatch\<close>, which only logs an error, and the loop of \<^verbatim>\<open>Recovery\<close>, which stops at it.\<close>

fun apply_logged :: "'t CommandHashTable \<Rightarrow> Log list \<Rightarrow> 't \<Rightarrow> 't" where
  "apply_logged cmd [] t = t"
| "apply_logged cmd (r # rs) t = (case Wal_apply cmd r t of (_, t') \<Rightarrow> apply_logged cmd rs t')"

fun apply_all :: "'t CommandHashTable \<Rightarrow> Log list \<Rightarrow> 't \<Rightarrow> go_error option \<times> 't" where
  "apply_all cmd [] t = (None, t)"
| "apply_all cmd (r # rs) t = (case Wal_apply cmd r t of
       (Some err, t') \<Rightarrow> (Some err, t')
     | (None, t') \<Rightarrow> apply_all cmd rs t')"

section \<open>Flushing (wal.go)\<close>

definition SealBatch :: "'t Wal \<Rightarrow> WriteRequest list \<times> 't Wal" where
  "SealBatch wal = (wal_batch wal, wal\<lparr>wal_batch := [], wal_activeBatchVolume := 0\<rparr>)"

text \<open>
  \<^verbatim>\<open>sort.Slice\<close> by LSN: the model sorts stably; the order of records with one LSN, which the library
  leaves open, is the only thing this decides.
\<close>

definition flushBatch ::
    "WriteRequest list \<Rightarrow> 't Wal \<Rightarrow> fs \<Rightarrow> heap \<Rightarrow> (go_error option \<times> 't Wal \<times> fs \<times> heap) outcome" where
  "flushBatch batch wal s h =
     (if batch = [] then Done (None, wal, s, h)
      else outcome_bind (WalWriter_Write segment_writer batch (wal_segment wal, s) h)
        (\<lambda>(err, batch', (seg', s'), h'). case err of
             Some e \<Rightarrow> Done (Some e, wal\<lparr>wal_segment := seg'\<rparr>, s', h')
           | None \<Rightarrow> Done (None, wal\<lparr>wal_segment := seg',
                 wal_table := apply_logged (wal_commandHashTable wal) (sort_key LSN (map wr_log batch')) (wal_table wal)\<rparr>,
                 s', h')))"

section \<open>Pushing (wal.go)\<close>

text \<open>
  \<^verbatim>\<open>push\<close> up to its first blocking point: the critical section. The result is the record, the sealed
  batch it has to send (empty if none), and the new states.
\<close>

definition push_locked ::
    "ctx \<Rightarrow> int64 \<Rightarrow> string list \<Rightarrow> 't Wal \<Rightarrow> heap \<Rightarrow> WriteRequest \<times> WriteRequest list \<times> 't Wal \<times> heap" where
  "push_locked ctx commandID args wal h =
     (let lsn = GetTxIDFromContext ctx;
          (record, h1) = NewWriteRequest lsn commandID args h;
          batch = wal_batch wal @ [record];
          element = \<lparr>LSN = lsn, CommandID = commandID, Arguments = args\<rparr>;
          (_, buf) = Log_Encode element [];
          volume = wrap64 (wal_activeBatchVolume wal + int (length buf))
      in if int (length batch) \<ge> flushingBatchCount (wal_walConfig wal) \<or>
            volume \<ge> flushingBatchVolume (wal_walConfig wal)
         then (record, batch, wal\<lparr>wal_batch := [], wal_activeBatchVolume := 0\<rparr>, h1)
         else (record, [], wal\<lparr>wal_batch := batch, wal_activeBatchVolume := volume\<rparr>, h1))"

text \<open>\<^verbatim>\<open>wal.batches <- sealedBatch\<close>: blocks while the channel is full.\<close>

definition push_send :: "WriteRequest list \<Rightarrow> 't Wal \<Rightarrow> 't Wal outcome" where
  "push_send sealedBatch wal =
     (if sealedBatch = [] then Done wal
      else if length (wal_batches wal) < batches_cap then Done (wal\<lparr>wal_batches := wal_batches wal @ [sealedBatch]\<rparr>)
      else Blocks)"

text \<open>\<^verbatim>\<open>future.Get()\<close> on the record's future; the zero value of \<^verbatim>\<open>error\<close> is nil.\<close>

definition push_wait :: "WriteRequest \<Rightarrow> heap \<Rightarrow> (go_error option \<times> heap) outcome" where
  "push_wait record h = Future_Get None (FutureResponse record) h"

lemmas push_wait_defs = push_wait_def FutureResponse_def GetFuture_def NewFuture_def

text \<open>\<^verbatim>\<open>Wal.Set\<close> and \<^verbatim>\<open>Wal.Del\<close> are \<^verbatim>\<open>push\<close> with the command's id and arguments.\<close>

definition Wal_Set_locked ::
    "ctx \<Rightarrow> string \<Rightarrow> string \<Rightarrow> 't Wal \<Rightarrow> heap \<Rightarrow> WriteRequest \<times> WriteRequest list \<times> 't Wal \<times> heap" where
  "Wal_Set_locked ctx key value = push_locked ctx CommandSetID [key, value]"

definition Wal_Del_locked ::
    "ctx \<Rightarrow> string \<Rightarrow> 't Wal \<Rightarrow> heap \<Rightarrow> WriteRequest \<times> WriteRequest list \<times> 't Wal \<times> heap" where
  "Wal_Del_locked ctx key = push_locked ctx CommandDelID [key]"

section \<open>The reader (wal_reader.go)\<close>

text \<open>
  The interface \<^verbatim>\<open>segmentRead\<close> as the table of its methods, on the state they work on, and the adapter that
  holds it. The reader of a WAL is the adapter around its segment.
\<close>

record 's segmentRead =
  sr_Read :: "string \<Rightarrow> 's \<Rightarrow> bytes result \<times> 's"
  sr_GetList :: "'s \<Rightarrow> string list result \<times> 's"
  sr_CreateFile :: "'s \<Rightarrow> os_file result \<times> 's"

record 's WalReader =
  wrd_log :: logger
  wrd_segment :: "'s segmentRead"

definition NewWalReader :: "logger \<Rightarrow> 's segmentRead \<Rightarrow> 's WalReader" where
  "NewWalReader log seg = \<lparr>wrd_log = log, wrd_segment = seg\<rparr>"

definition segment_reader :: "(Segment \<times> fs) segmentRead" where
  "segment_reader =
     \<lparr>sr_Read = (\<lambda>filePath (seg, s). case Segment_Read filePath s of (r, s') \<Rightarrow> (r, seg, s')),
      sr_GetList = (\<lambda>(seg, s). case Segment_GetList seg s of (r, s') \<Rightarrow> (r, seg, s')),
      sr_CreateFile = (\<lambda>(seg, s). Segment_CreateFile seg s)\<rparr>"

definition wal_walReader :: "'t Wal \<Rightarrow> (Segment \<times> fs) WalReader" where
  "wal_walReader wal = NewWalReader (wal_log wal) segment_reader"

section \<open>Recovery (wal.go)\<close>

fun recover_files :: "'s segmentRead \<Rightarrow> 't CommandHashTable \<Rightarrow> string list \<Rightarrow> 't \<Rightarrow> 's \<Rightarrow> go_error option \<times> 't \<times> 's" where
  "recover_files rd cmd [] t s = (None, t, s)"
| "recover_files rd cmd (file # files) t s =
     (case sr_Read rd file s of
        (Inl err, s1) \<Rightarrow> (Some err, t, s1)
      | (Inr data, s1) \<Rightarrow>
          (case decode_logs (NewDecoder data) of
             Inl err \<Rightarrow> (Some Wal_ErrFailedDecode, t, s1)
           | Inr logs \<Rightarrow>
               (case apply_all cmd (sort_key LSN logs) t of
                  (Some err, t1) \<Rightarrow> (Some err, t1, s1)
                | (None, t1) \<Rightarrow> recover_files rd cmd files t1 s1)))"

text \<open>The file that later flushes go to: the first segment, or the last one reopened for append.\<close>

definition recovery_file ::
    "(Segment \<times> fs) segmentRead \<Rightarrow> string list \<Rightarrow> Segment \<times> fs \<Rightarrow> os_file result \<times> Segment \<times> fs" where
  "recovery_file rd filesList w =
     (if filesList = [] then sr_CreateFile rd w
      else case os_OpenFile_append (last filesList) (snd w) of
          (Inl err, s1) \<Rightarrow> (Inl Wal_ErrFailedOpenLastSegment, fst w, s1)
        | (Inr file, s1) \<Rightarrow> (Inr file, fst w, s1))"

definition Recovery :: "'t Wal \<Rightarrow> fs \<Rightarrow> go_error option \<times> 't Wal \<times> fs" where
  "Recovery wal s = (let rd = wrd_segment (wal_walReader wal) in
     (case sr_GetList rd (wal_segment wal, s) of
        (Inl err, seg1, s1) \<Rightarrow> (Some Wal_ErrFailedToReadDirectory, wal\<lparr>wal_segment := seg1\<rparr>, s1)
      | (Inr filesList, w1) \<Rightarrow>
          (case recover_files rd (wal_commandHashTable wal) filesList (wal_table wal) w1 of
             (Some err, t, seg2, s2) \<Rightarrow> (Some err, wal\<lparr>wal_table := t, wal_segment := seg2\<rparr>, s2)
           | (None, t, w2) \<Rightarrow>
               (case recovery_file rd filesList w2 of
                  (Inl err, seg3, s3) \<Rightarrow> (Some err, wal\<lparr>wal_table := t, wal_segment := seg3\<rparr>, s3)
                | (Inr file, seg3, s3) \<Rightarrow>
                    (case SetFile (Some file) seg3 s3 of (seg4, s4) \<Rightarrow>
                       (None, wal\<lparr>wal_table := t, wal_segment := seg4\<rparr>, s4))))))"

lemmas reader_defs = wal_walReader_def NewWalReader_def segment_reader_def

section \<open>What a log means\<close>

text \<open>
  The map a list of records stands for, as the contract of the log: a set binds its key, a delete
  removes it, and a record that is malformed or of an unknown command changes nothing.
\<close>

definition log_effect :: "Log \<Rightarrow> (string \<Rightarrow> string option) \<Rightarrow> string \<Rightarrow> string option" where
  "log_effect r m =
     (if CommandID r = 1 \<and> 2 \<le> length (Arguments r) then m(Arguments r ! 0 := Some (Arguments r ! 1))
      else if CommandID r = 2 \<and> 1 \<le> length (Arguments r) then m(Arguments r ! 0 := None)
      else m)"

definition replay :: "Log list \<Rightarrow> (string \<Rightarrow> string option) \<Rightarrow> string \<Rightarrow> string option" where
  "replay ls m = fold log_effect ls m"

text \<open>A record that the code can apply.\<close>

definition applicable :: "Log \<Rightarrow> bool" where
  "applicable r \<longleftrightarrow> (CommandID r = 1 \<longrightarrow> 2 \<le> length (Arguments r)) \<and> (CommandID r = 2 \<longrightarrow> 1 \<le> length (Arguments r))"

lemma replay_simps [simp]:
  "replay [] m = m" "replay (r # rs) m = replay rs (log_effect r m)"
  "replay (rs @ rs') m = replay rs' (replay rs m)"
  by (simp_all add: replay_def)

context command_table
begin

lemma view_apply:
  "Wal_apply \<lparr>cht_Set = tset, cht_Del = tdel\<rparr> r t = (err, t') \<Longrightarrow>
     view t' = log_effect r (view t) \<and> (err = None \<longleftrightarrow> applicable r) \<and>
     (err \<noteq> None \<longrightarrow> t' = t \<and> err = Some Wal_ErrApplyRecord)"
  by (auto simp: Wal_apply_def log_effect_def applicable_def view_set view_del split: list.splits if_splits)

lemma view_apply_logged:
  "view (apply_logged \<lparr>cht_Set = tset, cht_Del = tdel\<rparr> rs t) = replay rs (view t)"
proof (induction rs arbitrary: t)
  case (Cons r rs)
  obtain err t' where "Wal_apply \<lparr>cht_Set = tset, cht_Del = tdel\<rparr> r t = (err, t')" by fastforce
  with Cons view_apply [OF this] show ?case by simp
qed simp

lemma view_apply_all:
  "list_all applicable rs \<Longrightarrow>
     \<exists>t'. apply_all \<lparr>cht_Set = tset, cht_Del = tdel\<rparr> rs t = (None, t') \<and> view t' = replay rs (view t)"
proof (induction rs arbitrary: t)
  case (Cons r rs)
  obtain err t' where a: "Wal_apply \<lparr>cht_Set = tset, cht_Del = tdel\<rparr> r t = (err, t')" by fastforce
  from view_apply [OF a] Cons.prems have "err = None" "view t' = log_effect r (view t)" by auto
  with Cons.IH [of t'] Cons.prems a show ?case by auto
qed simp

text \<open>At the first record it cannot apply, recovery stops with everything before it applied.\<close>

lemma view_apply_all_stops:
  "list_all applicable rs \<Longrightarrow> \<not> applicable r \<Longrightarrow>
     \<exists>t'. apply_all \<lparr>cht_Set = tset, cht_Del = tdel\<rparr> (rs @ r # rs') t = (Some Wal_ErrApplyRecord, t') \<and>
          view t' = replay rs (view t)"
proof (induction rs arbitrary: t)
  case Nil
  obtain err t' where a: "Wal_apply \<lparr>cht_Set = tset, cht_Del = tdel\<rparr> r t = (err, t')" by fastforce
  from view_apply [OF a] Nil a show ?case by auto
next
  case (Cons q rs)
  obtain err t' where a: "Wal_apply \<lparr>cht_Set = tset, cht_Del = tdel\<rparr> q t = (err, t')" by fastforce
  from view_apply [OF a] Cons.prems have "err = None" "view t' = log_effect q (view t)" by auto
  with Cons.IH [of t'] Cons.prems a show ?case by auto
qed

end

text \<open>The hash table as the WAL sees it.\<close>

definition hash_commands :: "HashTable CommandHashTable" where
  "hash_commands = \<lparr>cht_Set = HashTable_Set, cht_Del = HashTable_Del\<rparr>"

lemmas hash_apply_logged = ht.view_apply_logged [folded hash_commands_def]
lemmas hash_apply_all = ht.view_apply_all [folded hash_commands_def]

section \<open>Resolving the promises of a batch\<close>

text \<open>The requests of a batch have promises of their own, none resolved yet.\<close>

definition pending :: "WriteRequest list \<Rightarrow> heap \<Rightarrow> bool" where
  "pending rs h \<longleftrightarrow> distinct (map (prom_result \<circ> wr_promise) rs) \<and>
     (\<forall>r \<in> set rs. \<not> promised (wr_promise r) \<and> ch_at h (prom_result (wr_promise r)) = Some fresh_chan)"

definition resolve_all :: "go_error option \<Rightarrow> WriteRequest list \<Rightarrow> heap \<Rightarrow> heap" where
  "resolve_all err rs h = h\<lparr>ch_at := (\<lambda>c. if c \<in> (prom_result \<circ> wr_promise) ` set rs
       then Some (resolved_chan err) else ch_at h c)\<rparr>"

lemma notification_pending:
  "pending rs h \<Longrightarrow>
     notification err rs h = Done (map (\<lambda>r. r\<lparr>wr_promise := (wr_promise r)\<lparr>promised := True\<rparr>\<rparr>) rs, resolve_all err rs h)"
proof (induction rs arbitrary: h)
  case Nil
  then show ?case by (cases h) (simp add: resolve_all_def)
next
  case (Cons r rs)
  let ?h1 = "h\<lparr>ch_at := (ch_at h)(prom_result (wr_promise r) := Some (resolved_chan err))\<rparr>"
  have "pending rs ?h1" using Cons.prems by (auto simp: pending_def image_iff)
  moreover have "Promise_Set err (wr_promise r) h = Done ((wr_promise r)\<lparr>promised := True\<rparr>, ?h1)"
    using Cons.prems by (intro Promise_Set_fresh) (auto simp: pending_def)
  ultimately show ?case
    using Cons.IH [of ?h1] by (auto simp: resolve_all_def fun_eq_iff)
qed

lemma notification_logs: "notification err rs h = Done (rs', h') \<Longrightarrow> map wr_log rs' = map wr_log rs"
proof (induction rs arbitrary: h rs' h')
  case (Cons r rs)
  then show ?case by (cases "Promise_Set err (wr_promise r) h") (auto split: prod.splits elim!: outcome_bind.elims)
qed simp

section \<open>A durable log, and the batch writer over it\<close>

text \<open>
  What the batch writer relies on of the segment behind \<^verbatim>\<open>segmentWrite\<close>: a write that reports success
  has stored its data for good, and no later write, whatever its outcome, takes stored data away.
\<close>

locale durable_log =
  fixes swrite :: "bytes \<Rightarrow> 'w \<Rightarrow> go_error option \<times> 'w"
    and ok :: "'w \<Rightarrow> bool"
    and stored :: "bytes \<Rightarrow> 'w \<Rightarrow> bool"
  assumes write_ok: "swrite d w = (r, w') \<Longrightarrow> ok w \<Longrightarrow> ok w'"
    and write_stores: "swrite d w = (None, w') \<Longrightarrow> ok w \<Longrightarrow> stored d w'"
    and write_keeps: "swrite d w = (r, w') \<Longrightarrow> ok w \<Longrightarrow> stored e w \<Longrightarrow> stored e w'"
begin

lemma Write_resolves:
  assumes "pending rs h" "ok w"
  obtains err w' rs' where "WalWriter_Write swrite rs w h = Done (err, rs', w', resolve_all err rs h)"
    "map wr_log rs' = map wr_log rs" "ok w'" "err = None \<Longrightarrow> stored (batch_stream (map wr_log rs)) w'"
    "\<And>e. stored e w \<Longrightarrow> stored e w'"
proof -
  obtain eo enc where enc: "encode_all (map wr_log rs) (NewEncoder []) = (eo, enc)" by fastforce
  obtain err1 w1 where w1: "swrite (enc_buf enc) w = (err1, w1)" by fastforce
  let ?rs = "map (\<lambda>r. r\<lparr>wr_promise := (wr_promise r)\<lparr>promised := True\<rparr>\<rparr>) rs"
  have logs: "map wr_log ?rs = map wr_log rs" by simp
  show thesis
  proof (cases eo)
    case None
    have "enc_buf enc = batch_stream (map wr_log rs)" using encode_all_buf enc None by simp
    with None enc w1 notification_pending [OF assms(1)] logs assms(2) write_ok [OF w1] write_stores write_keeps [OF w1]
    show thesis by (intro that [of err1 ?rs w1]) (auto simp: WalWriter_Write_def)
  next
    case (Some err)
    with enc notification_pending [OF assms(1)] logs assms(2)
    show thesis by (intro that [of "Some err" ?rs w]) (auto simp: WalWriter_Write_def)
  qed
qed

end

text \<open>The files of a crashed machine still hold the data.\<close>

definition file_stores :: "bytes \<Rightarrow> fs \<Rightarrow> bool" where
  "file_stores data s \<longleftrightarrow> (\<exists>k d a b. fs_lookup s k = Some d \<and> fd_bytes d = a @ data @ b \<and>
     length a + length data \<le> fd_synced d)"

lemma file_stores_crash: "file_stores data s \<Longrightarrow> file_stores data (crash keep s)"
proof -
  assume "file_stores data s"
  then obtain k d a b where d: "fs_lookup s k = Some d" "fd_bytes d = a @ data @ b"
    "length a + length data \<le> fd_synced d" by (auto simp: file_stores_def)
  let ?n = "max (keep k) (fd_synced d)"
  have "take ?n (fd_bytes d) = a @ data @ take (?n - length a - length data) b"
    using d(2,3) by simp
  then have "fs_lookup (crash keep s) k = Some (crash_fdata (keep k) d)"
    and "fd_bytes (crash_fdata (keep k) d) = a @ data @ take (?n - length a - length data) b"
    and "length a + length data \<le> fd_synced (crash_fdata (keep k) d)"
    using d by (simp_all add: fs_lookup_crash crash_fdata_def Let_def)
  then show ?thesis unfolding file_stores_def by blast
qed

lemma file_stores_appended:
  assumes "file_stores e s" "appended data s s'"
  shows "file_stores e s'"
proof -
  from assms(1) obtain k d a b where d: "fs_lookup s k = Some d" "fd_bytes d = a @ e @ b"
    "length a + length e \<le> fd_synced d" by (auto simp: file_stores_def)
  with assms(2) obtain d' n where "fs_lookup s' k = Some d'" "fd_bytes d' = a @ e @ (b @ take n data)"
    "fd_synced d \<le> fd_synced d'" by (fastforce simp: appended_def)
  with d(3) show ?thesis unfolding file_stores_def by (meson order_trans)
qed

lemma Segment_Write_stores:
  assumes "Segment_Write data seg s = (None, seg', s')"
  shows "file_stores data s'"
proof -
  obtain place f where w: "wrote place data f seg s seg' s'" by (rule Segment_Write_None [OF assms])
  from wrote_lookup [OF w] obtain d where "fs_lookup s' (of_path f) = Some d" "fd_synced d = length (fd_bytes d)"
    "fd_bytes d = (case fs_lookup s (of_path f) of None \<Rightarrow> [] | Some d0 \<Rightarrow> fd_bytes d0) @ data @ []"
    by (metis append_Nil2 fun_upd_same)
  then show ?thesis unfolding file_stores_def by (metis append_Nil2 length_append order_refl)
qed

interpretation sl: durable_log segment_writer "\<lambda>w. synced_ok (snd w)" "\<lambda>d w. file_stores d (snd w)"
  by unfold_locales
    (auto simp: segment_writer_def dest: Segment_Write_appended Segment_Write_stores file_stores_appended)

section \<open>Flushing a batch\<close>

lemma push_wait_resolved:
  "r \<in> set rs \<Longrightarrow> \<exists>h'. push_wait r (resolve_all err rs h) = Done (err, h')"
  using Future_Get_states(2) [of "resolve_all err rs h" "FutureResponse r" err]
  by (auto simp: push_wait_defs resolve_all_def)

lemma flushBatch_cases:
  assumes "pending batch h" "synced_ok s" "batch \<noteq> []"
  obtains err seg' s' where
    "flushBatch batch wal s h = Done (err, (if err = None then wal\<lparr>wal_segment := seg',
        wal_table := apply_logged (wal_commandHashTable wal) (sort_key LSN (map wr_log batch)) (wal_table wal)\<rparr>
      else wal\<lparr>wal_segment := seg'\<rparr>), s', resolve_all err batch h)"
    "synced_ok s'" "err = None \<Longrightarrow> file_stores (batch_stream (map wr_log batch)) s'"
    "\<And>e. file_stores e s \<Longrightarrow> file_stores e s'"
proof -
  obtain err w' rs' where w: "WalWriter_Write segment_writer batch (wal_segment wal, s) h =
      Done (err, rs', w', resolve_all err batch h)" "map wr_log rs' = map wr_log batch" "synced_ok (snd w')"
    "err = None \<Longrightarrow> file_stores (batch_stream (map wr_log batch)) (snd w')"
    "\<And>e. file_stores e s \<Longrightarrow> file_stores e (snd w')"
    by (rule sl.Write_resolves [OF assms(1), of "(wal_segment wal, s)"]) (use assms(2) in auto)
  obtain seg' s' where "w' = (seg', s')" by fastforce
  with w assms(3) show thesis by (intro that [of err seg' s']) (auto simp: flushBatch_def)
qed

text \<open>
  C15. A flush always completes, whatever the operating system does: it unblocks every caller of the
  batch with one and the same outcome. If it fails, the hash table is unchanged. If it succeeds, the
  hash table has the effect of the batch's records in LSN order, and the batch's byte stream is in a
  file that still holds it after any crash.
\<close>

theorem flushBatch_outcome:
  assumes "pending batch h" and "synced_ok s" and "batch \<noteq> []" and "wal_commandHashTable wal = hash_commands"
  shows "\<exists>err wal' s' h'. flushBatch batch wal s h = Done (err, wal', s', h') \<and>
    (\<forall>r \<in> set batch. \<exists>h''. push_wait r h' = Done (err, h'')) \<and>
    (if err = None
     then ht_data (wal_table wal') = replay (sort_key LSN (map wr_log batch)) (ht_data (wal_table wal)) \<and>
          (\<forall>keep. file_stores (batch_stream (map wr_log batch)) (crash keep s'))
     else wal_table wal' = wal_table wal)"
proof -
  obtain err seg' s' where f: "flushBatch batch wal s h = Done (err, (if err = None then wal\<lparr>wal_segment := seg',
        wal_table := apply_logged (wal_commandHashTable wal) (sort_key LSN (map wr_log batch)) (wal_table wal)\<rparr>
      else wal\<lparr>wal_segment := seg'\<rparr>), s', resolve_all err batch h)"
    "err = None \<Longrightarrow> file_stores (batch_stream (map wr_log batch)) s'"
    by (rule flushBatch_cases [OF assms(1-3), of wal]) blast
  show ?thesis
    unfolding f(1) using f(2) push_wait_resolved file_stores_crash
    by (auto simp: assms(4) hash_apply_logged)
qed

definition demo_cfg :: WalConfig where
  "demo_cfg = \<lparr>FlushingBatchTimeout = 10 * Millisecond, FlushingBatchCount = 2, FlushingBatchVolume = 10485760,
     MaxSegmentSize = 1073741824, SegmentStoragePath = ''/w'', MaskName = ''s''\<rparr>"

definition demo_wal :: "HashTable Wal" where
  "demo_wal = (case NewWal (Some DiscardLogger) demo_cfg (NewSegment (Some DiscardLogger) ''/w'' ''s'' 1073741824)
     hash_commands NewHashTable of Inr wal \<Rightarrow> wal)"

definition demo_req :: "int64 \<Rightarrow> nat \<Rightarrow> string list \<Rightarrow> WriteRequest" where
  "demo_req lsn c args = \<lparr>wr_log = \<lparr>LSN = lsn, CommandID = 1, Arguments = args\<rparr>,
     wr_promise = \<lparr>prom_result = c, promised = False\<rparr>\<rparr>"

definition demo_heap :: heap where
  "demo_heap = \<lparr>ch_next = 2, ch_at = (\<lambda>c. if c < 2 then Some fresh_chan else None)\<rparr>"

lemma demo_pending:
  "pending [demo_req 2 1 [''a'', ''2''], demo_req 1 0 [''a'', ''1'']] demo_heap" "synced_ok demo_fs"
  "wal_commandHashTable demo_wal = hash_commands"
  by (simp_all add: pending_def demo_req_def demo_heap_def synced_ok_def demo_fs_def fs_lookup_def
      demo_wal_def NewWal_def)

theorem flushBatch_outcome_witness:
  "\<exists>err wal' s' h'. flushBatch [demo_req 2 1 [''a'', ''2''], demo_req 1 0 [''a'', ''1'']] demo_wal demo_fs demo_heap =
      Done (err, wal', s', h') \<and>
    (\<forall>r \<in> set [demo_req 2 1 [''a'', ''2''], demo_req 1 0 [''a'', ''1'']]. \<exists>h''. push_wait r h' = Done (err, h'')) \<and>
    (if err = None
     then ht_data (wal_table wal') = replay (sort_key LSN
            (map wr_log [demo_req 2 1 [''a'', ''2''], demo_req 1 0 [''a'', ''1'']])) (ht_data (wal_table demo_wal)) \<and>
          (\<forall>keep. file_stores (batch_stream (map wr_log [demo_req 2 1 [''a'', ''2''], demo_req 1 0 [''a'', ''1'']]))
             (crash keep s'))
     else wal_table wal' = wal_table demo_wal)"
  by (rule flushBatch_outcome [OF demo_pending(1,2) _ demo_pending(3)]) simp

section \<open>Batching\<close>

definition enc_size :: "Log \<Rightarrow> int" where
  "enc_size l = int (length (snd (Log_Encode l [])))"

text \<open>
  The open batch: its volume is the sum of its records' sizes, and it has not reached a threshold.
\<close>

definition batch_inv :: "'t Wal \<Rightarrow> bool" where
  "batch_inv wal \<longleftrightarrow>
     wal_activeBatchVolume wal = wrap64 (sum_list (map (enc_size \<circ> wr_log) (wal_batch wal))) \<and>
     (wal_batch wal \<noteq> [] \<longrightarrow> int (length (wal_batch wal)) < flushingBatchCount (wal_walConfig wal) \<and>
        wal_activeBatchVolume wal < flushingBatchVolume (wal_walConfig wal))"

definition heap_wf :: "heap \<Rightarrow> bool" where
  "heap_wf h \<longleftrightarrow> (\<forall>c. ch_at h c \<noteq> None \<longrightarrow> c < ch_next h)"

lemma wrap64_add: "wrap64 (wrap64 a + b) = wrap64 (a + b)"
proof -
  have "((a + 2 ^ 63) mod 2 ^ 64 + b) mod 2 ^ 64 = (a + 2 ^ 63 + b) mod (2 ^ 64 :: int)"
    by (rule mod_add_left_eq)
  moreover have "wrap64 a + b + 2 ^ 63 = (a + 2 ^ 63) mod 2 ^ 64 + b" by (simp add: wrap64_def)
  ultimately show ?thesis unfolding wrap64_def [of "wrap64 a + b"] wrap64_def [of "a + b"]
    by (simp add: add.assoc add.commute add.left_commute)
qed

lemma push_locked_simp:
  "push_locked ctx commandID args wal h =
     (let record = \<lparr>wr_log = \<lparr>LSN = GetTxIDFromContext ctx, CommandID = commandID, Arguments = args\<rparr>,
            wr_promise = \<lparr>prom_result = ch_next h, promised = False\<rparr>\<rparr>;
          batch = wal_batch wal @ [record];
          volume = wrap64 (wal_activeBatchVolume wal + enc_size (wr_log record));
          h1 = h\<lparr>ch_next := Suc (ch_next h), ch_at := (ch_at h)(ch_next h := Some fresh_chan)\<rparr>
      in if flushingBatchCount (wal_walConfig wal) \<le> int (length batch) \<or>
            flushingBatchVolume (wal_walConfig wal) \<le> volume
         then (record, batch, wal\<lparr>wal_batch := [], wal_activeBatchVolume := 0\<rparr>, h1)
         else (record, [], wal\<lparr>wal_batch := batch, wal_activeBatchVolume := volume\<rparr>, h1))"
  by (simp add: push_locked_def NewWriteRequest_def NewPromise_def make_chan_def fresh_chan_def Let_def
      enc_size_def split: prod.splits)

lemma pending_snoc:
  assumes "pending rs h" "heap_wf h"
    and "r = \<lparr>wr_log = l, wr_promise = \<lparr>prom_result = ch_next h, promised = False\<rparr>\<rparr>"
  shows "pending (rs @ [r]) (h\<lparr>ch_next := Suc (ch_next h), ch_at := (ch_at h)(ch_next h := Some fresh_chan)\<rparr>)"
  using assms by (fastforce simp: pending_def heap_wf_def)

text \<open>
  C19. Pushing a record loses, duplicates and reorders nothing: the batch sealed by the call followed by
  the open batch it leaves is the old open batch followed by the new record, whose promise is new. The
  call seals exactly when the count or the volume threshold is reached, it seals everything, and the
  open batch stays below both thresholds with its volume accounted for.
\<close>

theorem push_locked_batches:
  assumes "push_locked ctx commandID args wal h = (record, sealed, wal', h')"
    and "batch_inv wal" and "pending (wal_batch wal) h" and "heap_wf h"
  shows "sealed @ wal_batch wal' = wal_batch wal @ [record] \<and>
    wr_log record = \<lparr>LSN = GetTxIDFromContext ctx, CommandID = commandID, Arguments = args\<rparr> \<and>
    pending (wal_batch wal @ [record]) h' \<and> push_wait record h' = Blocks \<and> heap_wf h' \<and> batch_inv wal' \<and>
    (sealed \<noteq> [] \<longleftrightarrow> wal_batch wal' = []) \<and>
    (sealed \<noteq> [] \<longleftrightarrow> flushingBatchCount (wal_walConfig wal) \<le> int (length (wal_batch wal @ [record])) \<or>
       flushingBatchVolume (wal_walConfig wal) \<le> wrap64 (sum_list (map (enc_size \<circ> wr_log) (wal_batch wal @ [record]))))"
proof -
  let ?r = "\<lparr>wr_log = \<lparr>LSN = GetTxIDFromContext ctx, CommandID = commandID, Arguments = args\<rparr>,
            wr_promise = \<lparr>prom_result = ch_next h, promised = False\<rparr>\<rparr> :: WriteRequest"
  let ?h = "h\<lparr>ch_next := Suc (ch_next h), ch_at := (ch_at h)(ch_next h := Some fresh_chan)\<rparr>"
  have r: "record = ?r" "h' = ?h" using assms(1) by (auto simp: push_locked_simp Let_def split: if_splits)
  have "pending (wal_batch wal @ [record]) h'" using pending_snoc [OF assms(3,4)] r by simp
  moreover have "heap_wf h'" using assms(4) by (auto simp: heap_wf_def r less_Suc_eq)
  moreover have "push_wait record h' = Blocks"
    by (simp add: r push_wait_defs Future_Get_states(1))
  ultimately show ?thesis
    using assms(1,2) r(1)
    by (auto simp: push_locked_simp Let_def batch_inv_def wrap64_add wrap64_id int64_range_def split: if_splits)
qed

theorem push_locked_batches_witness:
  "\<exists>record sealed wal' h'. push_locked [] CommandSetID [''a'', ''1''] demo_wal empty_heap = (record, sealed, wal', h') \<and>
    batch_inv demo_wal \<and> pending (wal_batch demo_wal) empty_heap \<and> heap_wf empty_heap \<and>
    sealed @ wal_batch wal' = wal_batch demo_wal @ [record] \<and> batch_inv wal' \<and> push_wait record h' = Blocks"
proof -
  obtain req sealed wal' h' where p:
    "push_locked [] CommandSetID [''a'', ''1''] demo_wal empty_heap = (req, sealed, wal', h')"
    by (metis surj_pair)
  have "batch_inv demo_wal" "pending (wal_batch demo_wal) empty_heap" "heap_wf empty_heap"
    by (simp_all add: batch_inv_def pending_def heap_wf_def demo_wal_def NewWal_def empty_heap_def wrap64_id int64_range_def)
  from push_locked_batches [OF p this] p this show ?thesis by blast
qed

end
