(* ===== verification/Wal_Runtime.thy ===== *)
theory Wal_Runtime
  imports Wal
begin

text \<open>
  The WAL at run time: the flusher goroutine that \<^verbatim>\<open>Wal.Start\<close> launches, and any number of goroutines
  inside \<^verbatim>\<open>Wal.push\<close>, interleaved. A step is a critical section, a channel operation, the write of a
  batch to the segment, the resolution of one promise, or the application of one record.
\<close>

section \<open>Program counters\<close>

text \<open>Where a caller of \<^verbatim>\<open>push\<close> is: not in a call, about to send the batch it sealed, waiting, or returned.\<close>

datatype client =
    CIdle
  | CSend WriteRequest "WriteRequest list"
  | CWait WriteRequest
  | CReturned WriteRequest "go_error option"

text \<open>
  Where the flusher is: at the first select of its loop, at the second, in the draining loop after
  cancellation, returned, or in \<^verbatim>\<open>flushBatch\<close>, notifying or applying, with the place to go on from.
\<close>

datatype flush_next = ToTop | ToDrain | ToStop

datatype flusher =
    FTop
  | FSelect
  | FDrain
  | FStopped
  | FNotify "go_error option" "WriteRequest list" "WriteRequest list" flush_next
  | FApply "WriteRequest list" flush_next

fun resume :: "flush_next \<Rightarrow> flusher" where
  "resume ToTop = FTop"
| "resume ToDrain = FDrain"
| "resume ToStop = FStopped"

text \<open>
  The shared state, the goroutines, whether the context is cancelled, and two histories that no step
  reads: the batches written successfully and the requests applied, in order.
\<close>

record rt =
  rt_wal :: "HashTable Wal"
  rt_fs :: fs
  rt_heap :: heap
  rt_clients :: "client list"
  rt_flusher :: flusher
  rt_cancelled :: bool
  rt_written :: "WriteRequest list list"
  rt_applied :: "WriteRequest list"

section \<open>Steps\<close>

text \<open>\<^verbatim>\<open>flushBatch\<close> up to the first notification: nothing for an empty batch, else the encoding and the write.\<close>

definition begin_flush :: "WriteRequest list \<Rightarrow> flush_next \<Rightarrow> rt \<Rightarrow> rt" where
  "begin_flush batch after st =
     (if batch = [] then st\<lparr>rt_flusher := resume after\<rparr>
      else case encode_all (map wr_log batch) (NewEncoder []) of
          (Some err, enc) \<Rightarrow> st\<lparr>rt_flusher := FNotify (Some err) batch batch after\<rparr>
        | (None, enc) \<Rightarrow>
            (case Segment_Write (enc_buf enc) (wal_segment (rt_wal st)) (rt_fs st) of (err, seg', s') \<Rightarrow>
               st\<lparr>rt_wal := (rt_wal st)\<lparr>wal_segment := seg'\<rparr>, rt_fs := s', rt_flusher := FNotify err batch batch after,
                  rt_written := (if err = None then rt_written st @ [batch] else rt_written st)\<rparr>))"

definition set_client :: "nat \<Rightarrow> client \<Rightarrow> rt \<Rightarrow> rt" where
  "set_client i c st = st\<lparr>rt_clients := (rt_clients st)[i := c]\<rparr>"

definition apply_one :: "WriteRequest \<Rightarrow> rt \<Rightarrow> rt" where
  "apply_one r st = st\<lparr>rt_wal := (rt_wal st)\<lparr>wal_table :=
       snd (Wal_apply (wal_commandHashTable (rt_wal st)) (wr_log r) (wal_table (rt_wal st)))\<rparr>,
     rt_applied := rt_applied st @ [r]\<rparr>"

text \<open>The clients: \<^verbatim>\<open>push\<close> by any idle client with any context, command and arguments.\<close>

inductive client_step :: "rt \<Rightarrow> rt \<Rightarrow> bool" where
  push: "i < length (rt_clients st) \<Longrightarrow> rt_clients st ! i = CIdle \<Longrightarrow>
    push_locked ctx cmd args (rt_wal st) (rt_heap st) = (r, sealed, wal', h') \<Longrightarrow>
    client_step st (set_client i (if sealed = [] then CWait r else CSend r sealed) (st\<lparr>rt_wal := wal', rt_heap := h'\<rparr>))"
| send: "i < length (rt_clients st) \<Longrightarrow> rt_clients st ! i = CSend r sealed \<Longrightarrow>
    push_send sealed (rt_wal st) = Done wal' \<Longrightarrow>
    client_step st (set_client i (CWait r) (st\<lparr>rt_wal := wal'\<rparr>))"
| wait: "i < length (rt_clients st) \<Longrightarrow> rt_clients st ! i = CWait r \<Longrightarrow>
    push_wait r (rt_heap st) = Done (err, h') \<Longrightarrow>
    client_step st (set_client i (CReturned r err) (st\<lparr>rt_heap := h'\<rparr>))"
| again: "i < length (rt_clients st) \<Longrightarrow> rt_clients st ! i = CReturned r err \<Longrightarrow>
    client_step st (set_client i CIdle st)"

text \<open>The goroutine of \<^verbatim>\<open>Start\<close>.\<close>

inductive flusher_step :: "rt \<Rightarrow> rt \<Rightarrow> bool" where
  top_done: "rt_flusher st = FTop \<Longrightarrow> rt_cancelled st \<Longrightarrow> flusher_step st (st\<lparr>rt_flusher := FDrain\<rparr>)"
| top_default: "rt_flusher st = FTop \<Longrightarrow> \<not> rt_cancelled st \<Longrightarrow> flusher_step st (st\<lparr>rt_flusher := FSelect\<rparr>)"
| select_done: "rt_flusher st = FSelect \<Longrightarrow> rt_cancelled st \<Longrightarrow> flusher_step st (st\<lparr>rt_flusher := FDrain\<rparr>)"
| select_batch: "rt_flusher st = FSelect \<Longrightarrow> wal_batches (rt_wal st) = b # bs \<Longrightarrow>
    flusher_step st (begin_flush b ToTop (st\<lparr>rt_wal := (rt_wal st)\<lparr>wal_batches := bs\<rparr>\<rparr>))"
| select_tick: "rt_flusher st = FSelect \<Longrightarrow> SealBatch (rt_wal st) = (b, wal') \<Longrightarrow>
    flusher_step st (begin_flush b ToTop (st\<lparr>rt_wal := wal'\<rparr>))"
| drain_batch: "rt_flusher st = FDrain \<Longrightarrow> wal_batches (rt_wal st) = b # bs \<Longrightarrow>
    flusher_step st (begin_flush b ToDrain (st\<lparr>rt_wal := (rt_wal st)\<lparr>wal_batches := bs\<rparr>\<rparr>))"
| drain_default: "rt_flusher st = FDrain \<Longrightarrow> wal_batches (rt_wal st) = [] \<Longrightarrow> SealBatch (rt_wal st) = (b, wal') \<Longrightarrow>
    flusher_step st (begin_flush b ToStop (st\<lparr>rt_wal := wal'\<rparr>))"
| notify: "rt_flusher st = FNotify err (r # rs) b after \<Longrightarrow> Promise_Set err (wr_promise r) (rt_heap st) = Done (p, h') \<Longrightarrow>
    flusher_step st (st\<lparr>rt_heap := h', rt_flusher := FNotify err rs b after\<rparr>)"
| notified_ok: "rt_flusher st = FNotify None [] b after \<Longrightarrow>
    flusher_step st (st\<lparr>rt_flusher := FApply (sort_key (LSN \<circ> wr_log) b) after\<rparr>)"
| notified_err: "rt_flusher st = FNotify (Some e) [] b after \<Longrightarrow> flusher_step st (st\<lparr>rt_flusher := resume after\<rparr>)"
| apply_next: "rt_flusher st = FApply (r # rs) after \<Longrightarrow>
    flusher_step st ((apply_one r st)\<lparr>rt_flusher := FApply rs after\<rparr>)"
| applied_all: "rt_flusher st = FApply [] after \<Longrightarrow> flusher_step st (st\<lparr>rt_flusher := resume after\<rparr>)"

inductive rt_step :: "rt \<Rightarrow> rt \<Rightarrow> bool" where
  by_client: "client_step st st' \<Longrightarrow> rt_step st st'"
| by_flusher: "flusher_step st st' \<Longrightarrow> rt_step st st'"
| cancel: "rt_step st (st\<lparr>rt_cancelled := True\<rparr>)"

definition rt_start :: "nat \<Rightarrow> HashTable Wal \<Rightarrow> fs \<Rightarrow> rt" where
  "rt_start n wal s = \<lparr>rt_wal = wal, rt_fs = s, rt_heap = empty_heap, rt_clients = replicate n CIdle,
     rt_flusher = FTop, rt_cancelled = False, rt_written = [], rt_applied = []\<rparr>"

inductive rt_reachable :: "rt \<Rightarrow> rt \<Rightarrow> bool" for st0 where
  rt_refl: "rt_reachable st0 st0"
| rt_trans: "rt_reachable st0 st \<Longrightarrow> rt_step st st' \<Longrightarrow> rt_reachable st0 st'"

inductive_cases rt_stepE: "rt_step st st'"
inductive_cases client_stepE: "client_step st st'"
inductive_cases flusher_stepE: "flusher_step st st'"

section \<open>The invariant\<close>

abbreviation rid :: "WriteRequest \<Rightarrow> chan_ref" where
  "rid r \<equiv> prom_result (wr_promise r)"

fun client_sealed :: "client \<Rightarrow> WriteRequest list" where
  "client_sealed (CSend r sealed) = sealed"
| "client_sealed _ = []"

fun client_ids :: "client \<Rightarrow> chan_ref list" where
  "client_ids CIdle = []"
| "client_ids (CSend r sealed) = [rid r]"
| "client_ids (CWait r) = [rid r]"
| "client_ids (CReturned r err) = [rid r]"

fun flusher_todo :: "flusher \<Rightarrow> WriteRequest list" where
  "flusher_todo (FNotify err rs b after) = rs"
| "flusher_todo _ = []"

text \<open>
  The places a request can be before it is resolved: the open batch, the channel, a batch some client is
  about to send, and the part of the flusher's batch that is not notified yet.
\<close>

definition parked :: "rt \<Rightarrow> WriteRequest list" where
  "parked st = wal_batch (rt_wal st) @ concat (wal_batches (rt_wal st)) @ concat (map client_sealed (rt_clients st))"

definition places :: "rt \<Rightarrow> WriteRequest list" where
  "places st = parked st @ flusher_todo (rt_flusher st)"

definition written_ids :: "rt \<Rightarrow> chan_ref set" where
  "written_ids st = rid ` set (concat (rt_written st))"

text \<open>What an answer means: nil, that the request's batch was written; an error, that it never was.\<close>

definition settled :: "rt \<Rightarrow> WriteRequest \<Rightarrow> go_error option \<Rightarrow> bool" where
  "settled st r err \<longleftrightarrow> (case err of None \<Rightarrow> r \<in> set (concat (rt_written st)) | Some e \<Rightarrow> rid r \<notin> written_ids st)"

definition awaiting :: "rt \<Rightarrow> WriteRequest \<Rightarrow> bool" where
  "awaiting st r \<longleftrightarrow> r \<in> set (places st) \<or>
     (\<exists>err. ch_at (rt_heap st) (rid r) = Some (resolved_chan err) \<and> settled st r err)"

fun client_ok :: "rt \<Rightarrow> client \<Rightarrow> bool" where
  "client_ok st CIdle = True"
| "client_ok st (CSend r sealed) = awaiting st r"
| "client_ok st (CWait r) = awaiting st r"
| "client_ok st (CReturned r err) = (ch_at (rt_heap st) (rid r) = Some drained_chan \<and> settled st r err)"

fun flusher_ok :: "rt \<Rightarrow> flusher \<Rightarrow> bool" where
  "flusher_ok st (FNotify err rs b after) = (set rs \<subseteq> set b \<and>
     (case err of None \<Rightarrow> b \<in> set (rt_written st) | Some e \<Rightarrow> rid ` set rs \<inter> written_ids st = {}))"
| "flusher_ok st (FApply rs after) = (set rs \<subseteq> set (concat (rt_written st)))"
| "flusher_ok st _ = True"

definition requests_inv :: "rt \<Rightarrow> bool" where
  "requests_inv st \<longleftrightarrow> pending (places st) (rt_heap st) \<and> heap_wf (rt_heap st) \<and>
     rid ` set (parked st) \<inter> written_ids st = {} \<and> written_ids st \<subseteq> {..<ch_next (rt_heap st)}"

definition clients_inv :: "rt \<Rightarrow> bool" where
  "clients_inv st \<longleftrightarrow> (let cs = rt_clients st in \<forall>i < length cs. client_ok st (cs ! i) \<and>
     set (client_ids (cs ! i)) \<subseteq> {..<ch_next (rt_heap st)} \<and>
     (\<forall>j < length cs. j \<noteq> i \<longrightarrow> set (client_ids (cs ! i)) \<inter> set (client_ids (cs ! j)) = {}))"

definition disk_inv :: "rt \<Rightarrow> bool" where
  "disk_inv st \<longleftrightarrow> synced_ok (rt_fs st) \<and>
     list_all (\<lambda>b. file_stores (batch_stream (map wr_log b)) (rt_fs st)) (rt_written st)"

definition table_inv :: "(string \<Rightarrow> string option) \<Rightarrow> rt \<Rightarrow> bool" where
  "table_inv m0 st \<longleftrightarrow> wal_commandHashTable (rt_wal st) = hash_commands \<and>
     ht_data (wal_table (rt_wal st)) = replay (map wr_log (rt_applied st)) m0 \<and>
     set (rt_applied st) \<subseteq> set (concat (rt_written st)) \<and> flusher_ok st (rt_flusher st)"

definition bounds_inv :: "rt \<Rightarrow> bool" where
  "bounds_inv st \<longleftrightarrow> length (wal_batches (rt_wal st)) \<le> batches_cap \<and> batch_inv (rt_wal st)"

definition rt_inv :: "(string \<Rightarrow> string option) \<Rightarrow> rt \<Rightarrow> bool" where
  "rt_inv m0 st \<longleftrightarrow> requests_inv st \<and> clients_inv st \<and> disk_inv st \<and> table_inv m0 st \<and> bounds_inv st"

lemmas inv_defs = requests_inv_def clients_inv_def disk_inv_def table_inv_def bounds_inv_def

section \<open>Shared facts\<close>

lemma chan_states_distinct [simp]:
  "fresh_chan \<noteq> resolved_chan v" "resolved_chan v \<noteq> fresh_chan" "fresh_chan \<noteq> drained_chan" "drained_chan \<noteq> fresh_chan"
  "resolved_chan v \<noteq> drained_chan" "drained_chan \<noteq> resolved_chan v" "resolved_chan v = resolved_chan w \<longleftrightarrow> v = w"
  by (simp_all add: chan_state_defs)

lemma pending_mset: "mset rs = mset rs' \<Longrightarrow> pending rs h \<longleftrightarrow> pending rs' h"
  unfolding pending_def by (metis mset_eq_imp_distinct_iff mset_map mset_eq_setD)

lemma pending_sub: "mset rs \<subseteq># mset rs' \<Longrightarrow> pending rs' h \<Longrightarrow> pending rs h"
proof -
  assume s: "mset rs \<subseteq># mset rs'" and p: "pending rs' h"
  obtain qs where "mset rs' = mset (rs @ qs)" using s by (metis ex_mset mset_append mset_subset_eq_exists_conv)
  with p show ?thesis using pending_mset [of rs' "rs @ qs" h] by (auto simp: pending_def)
qed

lemma pending_heap:
  "pending rs h \<Longrightarrow> (\<And>r. r \<in> set rs \<Longrightarrow> ch_at h' (rid r) = ch_at h (rid r)) \<Longrightarrow> pending rs h'"
  by (simp add: pending_def)

lemma pendingD: "pending rs h \<Longrightarrow> r \<in> set rs \<Longrightarrow> ch_at h (rid r) = Some fresh_chan \<and> \<not> promised (wr_promise r)"
  by (simp add: pending_def)

lemma pending_other:
  assumes "q \<in> set (xs @ ys)" "pending (xs @ r # ys) h"
  shows "rid q \<noteq> rid r"
proof -
  have "rid r \<notin> rid ` set (xs @ ys)" using assms(2) by (simp add: pending_def image_Un)
  with imageI [OF assms(1), of rid] show ?thesis by metis
qed

lemma mset_concat_update:
  "i < length cs \<Longrightarrow> mset (concat (map f (cs[i := c]))) + mset (f (cs ! i)) = mset (concat (map f cs)) + mset (f c)"
proof (induction cs arbitrary: i)
  case (Cons d cs)
  then show ?case by (cases i) (auto simp: algebra_simps)
qed simp

lemma list_all_update: "list_all P xs \<Longrightarrow> P x \<Longrightarrow> list_all P (xs[i := x])"
  by (auto simp: list_all_iff dest: set_update_subset_insert [THEN subsetD])

lemma settled_later:
  assumes "settled st r err" "set (concat (rt_written st)) \<subseteq> set (concat (rt_written st'))"
    and "rid r \<in> written_ids st' \<Longrightarrow> rid r \<in> written_ids st"
  shows "settled st' r err"
  using assms by (auto simp: settled_def split: option.splits)

lemma settled_same: "rt_written st' = rt_written st \<Longrightarrow> settled st' = settled st"
  by (auto simp: settled_def written_ids_def fun_eq_iff split: option.splits)

text \<open>A step of the flusher keeps the clients' part if it keeps what each of them relies on.\<close>

lemma clients_inv_step:
  assumes "clients_inv st" "rt_clients st' = rt_clients st" "ch_next (rt_heap st') = ch_next (rt_heap st)"
    and "\<And>r. awaiting st r \<Longrightarrow> awaiting st' r"
    and "\<And>r err. ch_at (rt_heap st) (rid r) = Some drained_chan \<Longrightarrow> settled st r err \<Longrightarrow>
          ch_at (rt_heap st') (rid r) = Some drained_chan \<and> settled st' r err"
  shows "clients_inv st'"
proof -
  have "client_ok st c \<Longrightarrow> client_ok st' c" for c using assms(4,5) by (cases c) auto
  with assms(1-3) show ?thesis by (simp add: clients_inv_def Let_def)
qed

text \<open>A move of the program counter that leaves all requests where they are.\<close>

lemma rt_inv_goto:
  assumes "rt_inv m0 st" "flusher_todo f = flusher_todo (rt_flusher st)" "flusher_ok st f"
  shows "rt_inv m0 (st\<lparr>rt_flusher := f\<rparr>)"
proof -
  let ?st = "st\<lparr>rt_flusher := f\<rparr>"
  have same: "places ?st = places st" "parked ?st = parked st" "written_ids ?st = written_ids st"
    using assms(2) by (simp_all add: places_def parked_def written_ids_def)
  have sett: "settled ?st = settled st" by (rule settled_same) simp
  with same have "awaiting ?st = awaiting st" by (simp add: awaiting_def fun_eq_iff)
  then have "clients_inv ?st" using assms(1) sett by - (rule clients_inv_step [of st], auto simp: rt_inv_def)
  moreover have "flusher_ok ?st f" using assms(3) same by (cases f) (auto split: option.splits)
  ultimately show ?thesis
    using assms(1) same by (simp add: rt_inv_def requests_inv_def disk_inv_def table_inv_def bounds_inv_def)
qed

section \<open>The flusher keeps the invariant\<close>

text \<open>Requests change place, and some of them may become written.\<close>

lemma requests_moved:
  assumes req: "requests_inv st" and cl: "clients_inv st"
    and same: "rt_clients st' = rt_clients st" "rt_heap st' = rt_heap st" "mset (places st') = mset (places st)"
    and parked: "set (parked st') \<subseteq> set (parked st)"
    and ws: "rt_written st' = rt_written st @ ws" "set (concat ws) \<subseteq> set (places st)"
      "rid ` set (parked st') \<inter> rid ` set (concat ws) = {}"
  shows "requests_inv st'" "clients_inv st'"
proof -
  have wi: "written_ids st' = written_ids st \<union> rid ` set (concat ws)"
    by (auto simp: written_ids_def ws(1))
  have fresh: "ch_at (rt_heap st) c = Some fresh_chan" if "c \<in> rid ` set (concat ws)" for c
    using that ws(2) req pendingD by (fastforce simp: requests_inv_def)
  have old: "rid r \<in> written_ids st" if "rid r \<in> written_ids st'" "ch_at (rt_heap st) (rid r) \<noteq> Some fresh_chan" for r
    using that fresh by (auto simp: wi)
  have set: "set (places st') = set (places st)" using same(3) by (metis mset_eq_setD)
  show "requests_inv st'"
    using req parked ws(3) fresh wi pending_mset [OF same(3), of "rt_heap st"]
    by (fastforce simp: requests_inv_def same(2) heap_wf_def)
  show "clients_inv st'"
  proof (rule clients_inv_step [OF cl same(1)])
    show "ch_next (rt_heap st') = ch_next (rt_heap st)" by (simp add: same(2))
    show "awaiting st' r" if "awaiting st r" for r
      using that set settled_later [of st r _ st'] old ws(1) by (auto simp: awaiting_def same(2))
    show "ch_at (rt_heap st') (rid r) = Some drained_chan \<and> settled st' r err"
      if "ch_at (rt_heap st) (rid r) = Some drained_chan" "settled st r err" for r err
      using that settled_later [of st r err st'] old ws(1) by (auto simp: same(2))
  qed
qed

text \<open>Taking a batch out of the open batch or the channel and starting to flush it.\<close>

lemma rt_inv_begin_flush:
  assumes inv: "rt_inv m0 st" and todo: "flusher_todo (rt_flusher st) = []"
    and wal: "mset (wal_batch (rt_wal st)) + mset (concat (wal_batches (rt_wal st))) =
        mset (wal_batch wal1) + mset (concat (wal_batches wal1)) + mset b"
      "wal_segment wal1 = wal_segment (rt_wal st)" "wal_table wal1 = wal_table (rt_wal st)"
      "wal_commandHashTable wal1 = wal_commandHashTable (rt_wal st)" "batch_inv wal1" "length (wal_batches wal1) \<le> batches_cap"
  shows "rt_inv m0 (begin_flush b after (st\<lparr>rt_wal := wal1\<rparr>))"
proof -
  let ?st1 = "st\<lparr>rt_wal := wal1\<rparr>"
  let ?st2 = "begin_flush b after ?st1"
  have parts: "requests_inv st" "clients_inv st" "disk_inv st" "table_inv m0 st" using inv by (simp_all add: rt_inv_def)
  obtain eo enc where enc: "encode_all (map wr_log b) (NewEncoder []) = (eo, enc)" by fastforce
  obtain err seg' s' where w: "Segment_Write (enc_buf enc) (wal_segment (rt_wal st)) (rt_fs st) = (err, seg', s')"
    by (metis surj_pair)
  define written where "written = (if b \<noteq> [] \<and> eo = None \<and> err = None then [b] else [])"
  have st2: "rt_clients ?st2 = rt_clients st" "rt_heap ?st2 = rt_heap st" "rt_applied ?st2 = rt_applied st"
    "rt_written ?st2 = rt_written st @ written" "flusher_todo (rt_flusher ?st2) = b"
    "wal_batch (rt_wal ?st2) = wal_batch wal1" "wal_batches (rt_wal ?st2) = wal_batches wal1"
    "wal_table (rt_wal ?st2) = wal_table (rt_wal st)" "wal_commandHashTable (rt_wal ?st2) = wal_commandHashTable (rt_wal st)"
    "wal_activeBatchVolume (rt_wal ?st2) = wal_activeBatchVolume wal1" "wal_walConfig (rt_wal ?st2) = wal_walConfig wal1"
    using wal(2-4) enc w by (cases eo; cases after; auto simp: begin_flush_def written_def)+
  have park: "mset (parked st) = mset (parked ?st2) + mset b"
    using wal(1) by (simp add: parked_def st2(1,6,7) algebra_simps)
  have pl: "mset (places ?st2) = mset (places st)" using park todo by (simp add: places_def st2(5))
  have "pending (parked ?st2 @ b) (rt_heap st)"
    using parts(1) park todo pending_mset [of "parked st" "parked ?st2 @ b"] by (simp add: requests_inv_def places_def)
  then have dis: "rid ` set (parked ?st2) \<inter> rid ` set b = {}" by (auto simp: pending_def)
  have sub: "set (parked ?st2) \<subseteq> set (parked st)" "set b \<subseteq> set (parked st)"
    using arg_cong [OF park, of set_mset] by auto
  have rc: "requests_inv ?st2" "clients_inv ?st2"
    using requests_moved [OF parts(1,2) st2(1,2) pl sub(1) st2(4)] sub(2) dis by (auto simp: written_def places_def)
  have app: "appended (enc_buf enc) (rt_fs st) s'" "synced_ok s'"
    using Segment_Write_appended [OF w] parts(3) by (simp_all add: disk_inv_def)
  have stored: "file_stores (batch_stream (map wr_log b)) s'" if "eo = None" "err = None"
    using Segment_Write_stores [of "enc_buf enc"] w that enc encode_all_buf by auto
  have "rt_fs ?st2 = (if b \<noteq> [] \<and> eo = None then s' else rt_fs st)"
    using wal(2) enc w by (cases eo) (auto simp: begin_flush_def)
  then have disk: "disk_inv ?st2"
    using parts(3) app stored file_stores_appended [OF _ app(1)]
    by (auto simp: disk_inv_def st2(4) written_def list_all_iff)
  have wi: "rid ` set b \<inter> written_ids st = {}" using parts(1) sub(2) by (auto simp: requests_inv_def)
  have "flusher_ok ?st2 (rt_flusher ?st2)"
    using enc w wal(2) wi by (cases eo; cases err; cases after)
      (auto simp: begin_flush_def written_ids_def split: if_splits)
  then have "table_inv m0 ?st2" using parts(4) by (auto simp: table_inv_def st2)
  moreover have "bounds_inv ?st2" using wal(5,6) by (auto simp: bounds_inv_def batch_inv_def st2)
  ultimately show ?thesis using rc disk by (simp add: rt_inv_def)
qed

lemma rt_inv_notify:
  assumes inv: "rt_inv m0 st" and f: "rt_flusher st = FNotify err (r # rs) b after"
    and set: "Promise_Set err (wr_promise r) (rt_heap st) = Done (p, h')"
  shows "rt_inv m0 (st\<lparr>rt_heap := h', rt_flusher := FNotify err rs b after\<rparr>)"
proof -
  let ?st = "st\<lparr>rt_heap := h', rt_flusher := FNotify err rs b after\<rparr>"
  have parts: "requests_inv st" "clients_inv st" "table_inv m0 st" using inv by (simp_all add: rt_inv_def)
  have pend: "pending (parked st @ r # rs) (rt_heap st)" using parts(1) f by (simp add: requests_inv_def places_def)
  have h': "h' = (rt_heap st)\<lparr>ch_at := (ch_at (rt_heap st))(rid r := Some (resolved_chan err))\<rparr>"
    using Promise_Set_fresh [of "wr_promise r" "rt_heap st" err] pendingD [OF pend, of r] set by simp
  have other: "ch_at h' c = ch_at (rt_heap st) c" if "c \<noteq> rid r" for c using that by (simp add: h')
  have at: "ch_at h' (rid r) = Some (resolved_chan err)" "ch_next h' = ch_next (rt_heap st)" by (simp_all add: h')
  have same: "parked ?st = parked st" "written_ids ?st = written_ids st" "places ?st = parked st @ rs"
    by (simp_all add: parked_def written_ids_def places_def)
  have sett: "settled ?st = settled st" by (rule settled_same) simp
  have fok: "set (r # rs) \<subseteq> set b" "case err of None \<Rightarrow> b \<in> set (rt_written st) | Some e \<Rightarrow> rid ` set (r # rs) \<inter> written_ids st = {}"
    using parts(3) f by (simp_all add: table_inv_def)
  then have "settled st r err" by (auto simp: settled_def split: option.splits)
  then have wait: "awaiting ?st q" if "awaiting st q" for q
    using that other [of "rid q"] pendingD [OF pend, of r] f
    by (cases "rid q = rid r") (auto simp: awaiting_def sett same(3) places_def [of st] at)
  have busy: "ch_at h' c = ch_at (rt_heap st) c" if "ch_at (rt_heap st) c = Some drained_chan" for c
    using that pendingD [OF pend, of r] by (intro other) auto
  have "clients_inv ?st"
    by (rule clients_inv_step [OF parts(2)]) (use wait busy in \<open>auto simp: sett at\<close>)
  moreover have "pending (parked st @ rs) h'"
  proof (rule pending_heap)
    show "pending (parked st @ rs) (rt_heap st)" using pend by (rule pending_sub [rotated]) simp
    show "ch_at h' (rid q) = ch_at (rt_heap st) (rid q)" if "q \<in> set (parked st @ rs)" for q
      using that pend by (intro other pending_other)
  qed
  moreover have "heap_wf h'" using parts(1) pendingD [OF pend, of r] by (auto simp: requests_inv_def heap_wf_def h')
  moreover have "flusher_ok ?st (FNotify err rs b after)"
    using fok unfolding flusher_ok.simps same(2) by (auto split: option.splits)
  then have "table_inv m0 ?st" using parts(3) by (simp add: table_inv_def)
  ultimately show ?thesis
    using inv same at(2) by (simp add: rt_inv_def requests_inv_def disk_inv_def bounds_inv_def)
qed

lemma rt_inv_apply:
  assumes inv: "rt_inv m0 st" and f: "rt_flusher st = FApply (r # rs) after"
  shows "rt_inv m0 ((apply_one r st)\<lparr>rt_flusher := FApply rs after\<rparr>)"
proof -
  let ?st = "(apply_one r st)\<lparr>rt_flusher := FApply rs after\<rparr>"
  have parts: "requests_inv st" "clients_inv st" "table_inv m0 st" using inv by (simp_all add: rt_inv_def)
  have same: "parked ?st = parked st" "written_ids ?st = written_ids st" "places ?st = places st"
    "rt_heap ?st = rt_heap st" "rt_written ?st = rt_written st" "rt_clients ?st = rt_clients st" "rt_fs ?st = rt_fs st"
    using f by (simp_all add: parked_def written_ids_def places_def apply_one_def)
  have sett: "settled ?st = settled st" by (rule settled_same) (rule same)
  then have "awaiting ?st = awaiting st" by (simp add: awaiting_def fun_eq_iff same)
  then have "clients_inv ?st" by - (rule clients_inv_step [OF parts(2)], simp_all add: same sett)
  moreover have "table_inv m0 ?st"
  proof -
    obtain e t' where a: "Wal_apply hash_commands (wr_log r) (wal_table (rt_wal st)) = (e, t')" by fastforce
    have "ht_data t' = log_effect (wr_log r) (ht_data (wal_table (rt_wal st)))"
      using ht.view_apply [folded hash_commands_def, OF a] by simp
    then show ?thesis using parts(3) f a by (simp add: table_inv_def apply_one_def)
  qed
  moreover have "bounds_inv ?st" using inv by (auto simp: rt_inv_def bounds_inv_def batch_inv_def apply_one_def)
  ultimately show ?thesis using inv by (simp add: rt_inv_def requests_inv_def disk_inv_def same)
qed

lemma SealBatch_inv:
  "SealBatch wal = (b, wal') \<Longrightarrow> b = wal_batch wal \<and> wal' = wal\<lparr>wal_batch := [], wal_activeBatchVolume := 0\<rparr> \<and> batch_inv wal'"
  by (auto simp: SealBatch_def batch_inv_def wrap64_id int64_range_def)

lemma batch_inv_batches: "batch_inv (wal\<lparr>wal_batches := bs\<rparr>) = batch_inv wal"
  by (simp add: batch_inv_def)

lemma resume_ok [simp]: "flusher_ok st (resume after)" "flusher_todo (resume after) = []"
  by (cases after; simp)+

lemma flusher_step_inv: "flusher_step st st' \<Longrightarrow> rt_inv m0 st \<Longrightarrow> rt_inv m0 st'"
proof (induction rule: flusher_step.induct)
  case (select_batch st b bs)
  then show ?case by (intro rt_inv_begin_flush) (auto simp: rt_inv_def bounds_inv_def batch_inv_batches)
next
  case (drain_batch st b bs)
  then show ?case by (intro rt_inv_begin_flush) (auto simp: rt_inv_def bounds_inv_def batch_inv_batches)
next
  case (select_tick st b wal')
  then show ?case by (intro rt_inv_begin_flush) (auto simp: rt_inv_def bounds_inv_def dest!: SealBatch_inv)
next
  case (drain_default st b wal')
  then show ?case by (intro rt_inv_begin_flush) (auto simp: rt_inv_def bounds_inv_def dest!: SealBatch_inv)
next
  case (notified_ok st b after)
  then show ?case by (intro rt_inv_goto) (auto simp: rt_inv_def table_inv_def)
qed (auto intro: rt_inv_notify rt_inv_apply rt_inv_goto)

section \<open>The clients keep the invariant\<close>

text \<open>The clients' part after one of them has moved.\<close>

lemma clients_inv_update:
  assumes cl: "clients_inv st" and i: "i < length (rt_clients st)" and st': "rt_clients st' = (rt_clients st)[i := c]"
    and ok: "client_ok st' c" "\<And>j. j < length (rt_clients st) \<Longrightarrow> j \<noteq> i \<Longrightarrow> client_ok st' (rt_clients st ! j)"
    and next': "ch_next (rt_heap st) \<le> ch_next (rt_heap st')"
    and ids: "set (client_ids c) \<subseteq> set (client_ids (rt_clients st ! i)) \<or>
        set (client_ids c) \<subseteq> {ch_next (rt_heap st)..<ch_next (rt_heap st')}"
  shows "clients_inv st'"
proof -
  let ?cs = "rt_clients st"
  have old: "set (client_ids (?cs ! j)) \<subseteq> {..<ch_next (rt_heap st)}"
    "k < length ?cs \<Longrightarrow> k \<noteq> j \<Longrightarrow> set (client_ids (?cs ! j)) \<inter> set (client_ids (?cs ! k)) = {}" if "j < length ?cs" for j k
    using cl that by (simp_all add: clients_inv_def Let_def)
  have new: "set (client_ids c) \<subseteq> {..<ch_next (rt_heap st')}" using ids old(1) [OF i] next' by auto
  have dis: "set (client_ids c) \<inter> set (client_ids (?cs ! j)) = {}" if "j < length ?cs" "j \<noteq> i" for j
    using ids old(1) [OF that(1)] old(2) [OF i that(1)] that by fastforce
  show ?thesis
    unfolding clients_inv_def Let_def st' length_list_update
  proof (intro allI impI conjI)
    fix j assume j: "j < length ?cs"
    show "client_ok st' (?cs[i := c] ! j)" using ok j by (cases "j = i") auto
    show "set (client_ids (?cs[i := c] ! j)) \<subseteq> {..<ch_next (rt_heap st')}"
      using new old(1) [OF j] next' j by (cases "j = i") auto
    fix k assume "k < length ?cs" "k \<noteq> j"
    then show "set (client_ids (?cs[i := c] ! j)) \<inter> set (client_ids (?cs[i := c] ! k)) = {}"
      using dis old(2) [OF j] j i by (auto simp: nth_list_update)
  qed
qed

lemma clients_invD:
  assumes "clients_inv st" "j < length (rt_clients st)"
  shows "client_ok st (rt_clients st ! j)" "n \<in> set (client_ids (rt_clients st ! j)) \<Longrightarrow> n < ch_next (rt_heap st)"
    "k < length (rt_clients st) \<Longrightarrow> k \<noteq> j \<Longrightarrow> n \<in> set (client_ids (rt_clients st ! j)) \<Longrightarrow>
       n \<notin> set (client_ids (rt_clients st ! k))"
  using assms by (auto simp: clients_inv_def Let_def)

lemma client_ok_step:
  assumes "client_ok st c"
    and "\<And>r. rid r \<in> set (client_ids c) \<Longrightarrow> awaiting st r \<Longrightarrow> awaiting st' r"
    and "\<And>r err. rid r \<in> set (client_ids c) \<Longrightarrow> ch_at (rt_heap st) (rid r) = Some drained_chan \<Longrightarrow> settled st r err \<Longrightarrow>
          ch_at (rt_heap st') (rid r) = Some drained_chan \<and> settled st' r err"
  shows "client_ok st' c"
  using assms by (cases c) auto

lemma flusher_ok_same: "rt_written st' = rt_written st \<Longrightarrow> flusher_ok st' f = flusher_ok st f"
  by (cases f) (auto simp: written_ids_def split: option.splits)

lemma disk_table_frame:
  assumes "disk_inv st" "table_inv m0 st" "rt_fs st' = rt_fs st" "rt_written st' = rt_written st"
    "rt_applied st' = rt_applied st" "rt_flusher st' = rt_flusher st" "wal_table (rt_wal st') = wal_table (rt_wal st)"
    "wal_commandHashTable (rt_wal st') = wal_commandHashTable (rt_wal st)"
  shows "disk_inv st'" "table_inv m0 st'"
  using assms flusher_ok_same [OF assms(4)] by (simp_all add: disk_inv_def table_inv_def)

lemma push_locked_facts:
  assumes "push_locked ctx cmd args wal h = (r, sealed, wal', h')"
  shows "sealed @ wal_batch wal' = wal_batch wal @ [r]" "rid r = ch_next h" "\<not> promised (wr_promise r)"
    "h' = h\<lparr>ch_next := Suc (ch_next h), ch_at := (ch_at h)(ch_next h := Some fresh_chan)\<rparr>"
    "wal_batches wal' = wal_batches wal" "wal_table wal' = wal_table wal"
    "wal_commandHashTable wal' = wal_commandHashTable wal" "batch_inv wal \<Longrightarrow> batch_inv wal'"
  using assms
  by (auto simp: push_locked_simp Let_def batch_inv_def wrap64_add wrap64_id int64_range_def split: if_splits)

lemma rt_inv_push:
  assumes inv: "rt_inv m0 st" and i: "i < length (rt_clients st)" "rt_clients st ! i = CIdle"
    and p: "push_locked ctx cmd args (rt_wal st) (rt_heap st) = (r, sealed, wal', h')"
  shows "rt_inv m0 (set_client i (if sealed = [] then CWait r else CSend r sealed) (st\<lparr>rt_wal := wal', rt_heap := h'\<rparr>))"
proof -
  define c where "c = (if sealed = [] then CWait r else CSend r sealed)"
  define st' where "st' = set_client i c (st\<lparr>rt_wal := wal', rt_heap := h'\<rparr>)"
  note f = push_locked_facts [OF p]
  have parts: "requests_inv st" "clients_inv st" "disk_inv st" "table_inv m0 st" "bounds_inv st"
    using inv by (simp_all add: rt_inv_def)
  have fld: "rt_heap st' = h'" "rt_wal st' = wal'" "rt_clients st' = (rt_clients st)[i := c]" "rt_written st' = rt_written st"
    "rt_flusher st' = rt_flusher st" "rt_fs st' = rt_fs st" "rt_applied st' = rt_applied st"
    by (simp_all add: st'_def set_client_def)
  have c: "client_sealed c = sealed" "client_ids c = [rid r]" by (auto simp: c_def)
  have h': "ch_next h' = Suc (ch_next (rt_heap st))" "heap_wf h'"
    "\<And>n. n < ch_next (rt_heap st) \<Longrightarrow> ch_at h' n = ch_at (rt_heap st) n"
    using parts(1) by (auto simp: f(4) heap_wf_def requests_inv_def less_Suc_eq)
  have "mset (concat (map client_sealed (rt_clients st'))) = mset (concat (map client_sealed (rt_clients st))) + mset sealed"
    using mset_concat_update [OF i(1), of client_sealed c] by (simp only: fld i(2) c client_sealed.simps) simp
  moreover have "mset sealed + mset (wal_batch wal') = mset (wal_batch (rt_wal st)) + {#r#}"
    using arg_cong [OF f(1), of mset] by simp
  ultimately have pk: "mset (parked st') = mset (parked st) + {#r#}"
    by (simp add: parked_def fld f(5) del: mset_concat) (simp add: ac_simps)
  then have pl: "mset (places st') = mset (places st @ [r])" by (simp add: places_def fld)
  have sets: "set (parked st') = insert r (set (parked st))" "set (places st') = insert r (set (places st))"
    using arg_cong [OF pk, of set_mset] mset_eq_setD [OF pl] by simp_all
  have wi: "written_ids st' = written_ids st" by (simp add: written_ids_def fld)
  have sett: "settled st' = settled st" by (rule settled_same) (rule fld)
  obtain l where r: "r = \<lparr>wr_log = l, wr_promise = \<lparr>prom_result = ch_next (rt_heap st), promised = False\<rparr>\<rparr>"
    using f(2,3) by (cases r, cases "wr_promise r") auto
  have "pending (places st @ [r]) h'"
    unfolding f(4) using pending_snoc [OF _ _ r] parts(1) by (simp add: requests_inv_def)
  then have "requests_inv st'"
    using parts(1) f(2) h'(1,2) by (auto simp: requests_inv_def wi sets fld pending_mset [OF pl])
  moreover have "clients_inv st'"
  proof (rule clients_inv_update [OF parts(2) i(1) fld(3)])
    show "client_ok st' c" using sets(2) by (auto simp: awaiting_def c_def)
    show "ch_next (rt_heap st) \<le> ch_next (rt_heap st')" by (simp add: fld h')
    show "set (client_ids c) \<subseteq> set (client_ids (rt_clients st ! i)) \<or>
        set (client_ids c) \<subseteq> {ch_next (rt_heap st)..<ch_next (rt_heap st')}" by (simp add: c f(2) fld h')
    show "client_ok st' (rt_clients st ! j)" if j: "j < length (rt_clients st)" for j
    proof (rule client_ok_step [OF clients_invD(1) [OF parts(2) j]])
      fix q assume q: "rid q \<in> set (client_ids (rt_clients st ! j))"
      have at: "ch_at h' (rid q) = ch_at (rt_heap st) (rid q)" by (rule h'(3) [OF clients_invD(2) [OF parts(2) j q]])
      then show "awaiting st q \<Longrightarrow> awaiting st' q" using sets(2) by (auto simp: awaiting_def sett fld)
      show "ch_at (rt_heap st) (rid q) = Some drained_chan \<Longrightarrow> settled st q err \<Longrightarrow>
          ch_at (rt_heap st') (rid q) = Some drained_chan \<and> settled st' q err" for err using at by (simp add: fld sett)
    qed
  qed
  ultimately have "rt_inv m0 st'"
    using disk_table_frame [OF parts(3,4), of st'] f(6-8) parts(5) by (auto simp: rt_inv_def fld bounds_inv_def f(5))
  then show ?thesis by (simp only: st'_def c_def)
qed

lemma rt_inv_send:
  assumes inv: "rt_inv m0 st" and i: "i < length (rt_clients st)" "rt_clients st ! i = CSend r sealed"
    and p: "push_send sealed (rt_wal st) = Done wal'"
  shows "rt_inv m0 (set_client i (CWait r) (st\<lparr>rt_wal := wal'\<rparr>))"
proof -
  define st' where "st' = set_client i (CWait r) (st\<lparr>rt_wal := wal'\<rparr>)"
  have parts: "requests_inv st" "clients_inv st" "disk_inv st" "table_inv m0 st" "bounds_inv st"
    using inv by (simp_all add: rt_inv_def)
  have wal': "wal_batch wal' = wal_batch (rt_wal st)" "wal_table wal' = wal_table (rt_wal st)"
    "concat (wal_batches wal') = concat (wal_batches (rt_wal st)) @ sealed" "batch_inv wal' = batch_inv (rt_wal st)"
    "length (wal_batches wal') \<le> max batches_cap (length (wal_batches (rt_wal st)))"
    "wal_commandHashTable wal' = wal_commandHashTable (rt_wal st)"
    using p by (auto simp: push_send_def batch_inv_def split: if_splits)
  have fld: "rt_heap st' = rt_heap st" "rt_wal st' = wal'" "rt_clients st' = (rt_clients st)[i := CWait r]"
    "rt_written st' = rt_written st" "rt_flusher st' = rt_flusher st" "rt_fs st' = rt_fs st" "rt_applied st' = rt_applied st"
    by (simp_all add: st'_def set_client_def)
  have "mset (concat (map client_sealed (rt_clients st'))) + mset sealed = mset (concat (map client_sealed (rt_clients st)))"
    using mset_concat_update [OF i(1), of client_sealed "CWait r"] by (simp only: fld i(2) client_sealed.simps) simp
  then have pk: "mset (parked st') = mset (parked st)"
    unfolding parked_def mset_append fld(2) wal'(1,3) by (metis add.assoc add.commute)
  then have pl: "mset (places st') = mset (places st)" by (simp add: places_def fld)
  note sets = mset_eq_setD [OF pk] mset_eq_setD [OF pl]
  have wi: "written_ids st' = written_ids st" by (simp add: written_ids_def fld)
  have sett: "settled st' = settled st" by (rule settled_same) (rule fld)
  have aw: "awaiting st' = awaiting st" by (simp add: awaiting_def fun_eq_iff sett sets fld)
  have "requests_inv st'" using parts(1) by (simp add: requests_inv_def wi sets fld pending_mset [OF pl])
  moreover have "clients_inv st'"
  proof (rule clients_inv_update [OF parts(2) i(1) fld(3)])
    show "client_ok st' (CWait r)" using clients_invD(1) [OF parts(2) i(1)] i(2) by (simp add: aw)
    show "client_ok st' (rt_clients st ! j)" if "j < length (rt_clients st)" for j
      by (rule client_ok_step [OF clients_invD(1) [OF parts(2) that]]) (simp_all add: aw sett fld)
  qed (simp_all add: fld i(2))
  ultimately have "rt_inv m0 st'"
    using disk_table_frame [OF parts(3,4), of st'] wal' parts(5) by (auto simp: rt_inv_def fld bounds_inv_def)
  then show ?thesis by (simp only: st'_def)
qed

lemma awaiting_answer:
  assumes "requests_inv st" "awaiting st r" "push_wait r (rt_heap st) = Done (err, h')"
  shows "ch_at (rt_heap st) (rid r) = Some (resolved_chan err)" "settled st r err"
    "h' = (rt_heap st)\<lparr>ch_at := (ch_at (rt_heap st))(rid r := Some drained_chan)\<rparr>"
proof -
  have get: "push_wait r (rt_heap st) = Future_Get None \<lparr>fut_result = rid r\<rparr> (rt_heap st)"
    by (simp add: push_wait_defs)
  have "r \<notin> set (places st)"
    using assms(1,3) pendingD [of "places st" "rt_heap st" r] Future_Get_states(1) [of "rt_heap st" "\<lparr>fut_result = rid r\<rparr>" None]
    by (auto simp: requests_inv_def get)
  with assms(2) obtain e where e: "ch_at (rt_heap st) (rid r) = Some (resolved_chan e)" "settled st r e"
    by (auto simp: awaiting_def)
  then have "push_wait r (rt_heap st) = Done (e, (rt_heap st)\<lparr>ch_at := (ch_at (rt_heap st))(rid r := Some drained_chan)\<rparr>)"
    using Future_Get_states(2) [of "rt_heap st" "\<lparr>fut_result = rid r\<rparr>" e None] by (simp add: get)
  with assms(3) e show "ch_at (rt_heap st) (rid r) = Some (resolved_chan err)" "settled st r err"
    "h' = (rt_heap st)\<lparr>ch_at := (ch_at (rt_heap st))(rid r := Some drained_chan)\<rparr>" by auto
qed

lemma rt_inv_wait:
  assumes inv: "rt_inv m0 st" and i: "i < length (rt_clients st)" "rt_clients st ! i = CWait r"
    and p: "push_wait r (rt_heap st) = Done (err, h')"
  shows "rt_inv m0 (set_client i (CReturned r err) (st\<lparr>rt_heap := h'\<rparr>))"
proof -
  define st' where "st' = set_client i (CReturned r err) (st\<lparr>rt_heap := h'\<rparr>)"
  have parts: "requests_inv st" "clients_inv st" "disk_inv st" "table_inv m0 st" "bounds_inv st"
    using inv by (simp_all add: rt_inv_def)
  have "awaiting st r" using clients_invD(1) [OF parts(2) i(1)] i(2) by simp
  note a = awaiting_answer [OF parts(1) this p]
  have h': "ch_next h' = ch_next (rt_heap st)" "heap_wf h'" "ch_at h' (rid r) = Some drained_chan"
    "\<And>n. n \<noteq> rid r \<Longrightarrow> ch_at h' n = ch_at (rt_heap st) n"
    using parts(1) a(1) by (auto simp: a(3) heap_wf_def requests_inv_def)
  have fld: "rt_heap st' = h'" "rt_wal st' = rt_wal st" "rt_clients st' = (rt_clients st)[i := CReturned r err]"
    "rt_written st' = rt_written st" "rt_flusher st' = rt_flusher st" "rt_fs st' = rt_fs st" "rt_applied st' = rt_applied st"
    by (simp_all add: st'_def set_client_def)
  have "mset (concat (map client_sealed (rt_clients st'))) = mset (concat (map client_sealed (rt_clients st)))"
    using mset_concat_update [OF i(1), of client_sealed "CReturned r err"] by (simp only: fld i(2) client_sealed.simps) simp
  then have pk: "mset (parked st') = mset (parked st)" by (simp add: parked_def fld del: mset_concat)
  then have pl: "mset (places st') = mset (places st)" by (simp add: places_def fld)
  note sets = mset_eq_setD [OF pk] mset_eq_setD [OF pl]
  have wi: "written_ids st' = written_ids st" by (simp add: written_ids_def fld)
  have sett: "settled st' = settled st" by (rule settled_same) (rule fld)
  have "pending (places st) h'"
  proof (rule pending_heap)
    show pend: "pending (places st) (rt_heap st)" using parts(1) by (simp add: requests_inv_def)
    show "ch_at h' (rid q) = ch_at (rt_heap st) (rid q)" if "q \<in> set (places st)" for q
      using pendingD [OF pend that] a(1) by (intro h'(4)) auto
  qed
  then have "requests_inv st'" using parts(1) h' by (simp add: requests_inv_def wi sets fld pending_mset [OF pl])
  moreover have "clients_inv st'"
  proof (rule clients_inv_update [OF parts(2) i(1) fld(3)])
    show "client_ok st' (CReturned r err)" using a(2) h'(3) by (simp add: fld sett)
    show "client_ok st' (rt_clients st ! j)" if j: "j < length (rt_clients st)" "j \<noteq> i" for j
    proof (rule client_ok_step [OF clients_invD(1) [OF parts(2) j(1)]])
      fix q assume q: "rid q \<in> set (client_ids (rt_clients st ! j))"
      have "rid q \<noteq> rid r" using clients_invD(3) [OF parts(2) j(1) i(1) _ q] j(2) i(2) by auto
      then have at: "ch_at h' (rid q) = ch_at (rt_heap st) (rid q)" by (rule h'(4))
      then show "awaiting st q \<Longrightarrow> awaiting st' q" by (auto simp: awaiting_def sett fld sets)
      show "ch_at (rt_heap st) (rid q) = Some drained_chan \<Longrightarrow> settled st q e \<Longrightarrow>
          ch_at (rt_heap st') (rid q) = Some drained_chan \<and> settled st' q e" for e using at by (simp add: fld sett)
    qed
  qed (simp_all add: fld i(2) h')
  ultimately have "rt_inv m0 st'"
    using disk_table_frame [OF parts(3,4), of st'] parts(5) by (auto simp: rt_inv_def fld bounds_inv_def)
  then show ?thesis by (simp only: st'_def)
qed

lemma rt_inv_again:
  assumes inv: "rt_inv m0 st" and i: "i < length (rt_clients st)" "rt_clients st ! i = CReturned r err"
  shows "rt_inv m0 (set_client i CIdle st)"
proof -
  define st' where "st' = set_client i CIdle st"
  have parts: "requests_inv st" "clients_inv st" "disk_inv st" "table_inv m0 st" "bounds_inv st"
    using inv by (simp_all add: rt_inv_def)
  have fld: "rt_heap st' = rt_heap st" "rt_wal st' = rt_wal st" "rt_clients st' = (rt_clients st)[i := CIdle]"
    "rt_written st' = rt_written st" "rt_flusher st' = rt_flusher st" "rt_fs st' = rt_fs st" "rt_applied st' = rt_applied st"
    by (simp_all add: st'_def set_client_def)
  have "mset (concat (map client_sealed (rt_clients st'))) = mset (concat (map client_sealed (rt_clients st)))"
    using mset_concat_update [OF i(1), of client_sealed CIdle] by (simp only: fld i(2) client_sealed.simps) simp
  then have pk: "mset (parked st') = mset (parked st)" by (simp add: parked_def fld del: mset_concat)
  then have pl: "mset (places st') = mset (places st)" by (simp add: places_def fld)
  note sets = mset_eq_setD [OF pk] mset_eq_setD [OF pl]
  have wi: "written_ids st' = written_ids st" by (simp add: written_ids_def fld)
  have sett: "settled st' = settled st" by (rule settled_same) (rule fld)
  have aw: "awaiting st' = awaiting st" by (simp add: awaiting_def fun_eq_iff sett sets fld)
  have "requests_inv st'" using parts(1) by (simp add: requests_inv_def wi sets fld pending_mset [OF pl])
  moreover have "clients_inv st'"
  proof (rule clients_inv_update [OF parts(2) i(1) fld(3)])
    show "client_ok st' (rt_clients st ! j)" if "j < length (rt_clients st)" for j
      by (rule client_ok_step [OF clients_invD(1) [OF parts(2) that]]) (simp_all add: aw sett fld)
  qed (simp_all add: fld)
  ultimately have "rt_inv m0 st'"
    using disk_table_frame [OF parts(3,4), of st'] parts(5) by (simp add: rt_inv_def fld bounds_inv_def)
  then show ?thesis by (simp only: st'_def)
qed

lemma client_step_inv: "client_step st st' \<Longrightarrow> rt_inv m0 st \<Longrightarrow> rt_inv m0 st'"
  by (induction rule: client_step.induct)
    (rule rt_inv_push rt_inv_send rt_inv_wait rt_inv_again; assumption)+

lemma rt_inv_cancel: "rt_inv m0 st \<Longrightarrow> rt_inv m0 (st\<lparr>rt_cancelled := True\<rparr>)"
proof -
  assume inv: "rt_inv m0 st"
  let ?st = "st\<lparr>rt_cancelled := True\<rparr>"
  have same: "places ?st = places st" "parked ?st = parked st" "written_ids ?st = written_ids st"
    by (simp_all add: places_def parked_def written_ids_def)
  have sett: "settled ?st = settled st" by (rule settled_same) simp
  then have aw: "awaiting ?st = awaiting st" by (simp add: awaiting_def fun_eq_iff same)
  have "clients_inv ?st" by (rule clients_inv_step [of st]) (use inv in \<open>simp_all add: rt_inv_def aw sett\<close>)
  then show ?thesis
    using inv disk_table_frame [of st m0 ?st] by (simp add: rt_inv_def requests_inv_def bounds_inv_def same)
qed

lemma rt_step_inv: "rt_step st st' \<Longrightarrow> rt_inv m0 st \<Longrightarrow> rt_inv m0 st'"
  by (erule rt_stepE) (auto intro: client_step_inv flusher_step_inv rt_inv_cancel)

section \<open>Reachable states\<close>

text \<open>A WAL as recovery leaves it: nothing buffered, nothing in the channel.\<close>

definition idle_wal :: "HashTable Wal \<Rightarrow> bool" where
  "idle_wal wal \<longleftrightarrow> wal_batch wal = [] \<and> wal_batches wal = [] \<and> wal_activeBatchVolume wal = 0 \<and>
     wal_commandHashTable wal = hash_commands"

lemma rt_inv_start: "idle_wal wal \<Longrightarrow> synced_ok s \<Longrightarrow> rt_inv (ht_data (wal_table wal)) (rt_start n wal s)"
  by (auto simp: rt_inv_def rt_start_def idle_wal_def inv_defs places_def parked_def pending_def heap_wf_def empty_heap_def
      written_ids_def batch_inv_def wrap64_id int64_range_def Let_def)

lemma rt_reachable_inv: "rt_reachable st0 st \<Longrightarrow> rt_inv m0 st0 \<Longrightarrow> rt_inv m0 st"
  by (induction rule: rt_reachable.induct) (auto intro: rt_step_inv)

lemma rt_reachable_trans: "rt_reachable st1 st2 \<Longrightarrow> rt_reachable st0 st1 \<Longrightarrow> rt_reachable st0 st2"
  by (induction rule: rt_reachable.induct) (auto intro: rt_trans)

lemma begin_flush_written: "set (rt_written st) \<subseteq> set (rt_written (begin_flush b after st))"
  by (auto simp: begin_flush_def split: prod.splits option.splits)

lemma rt_step_written: "rt_step st st' \<Longrightarrow> set (rt_written st) \<subseteq> set (rt_written st')"
proof (erule rt_stepE)
  show "client_step st st' \<Longrightarrow> set (rt_written st) \<subseteq> set (rt_written st')"
    by (erule client_stepE) (simp_all add: set_client_def)
  show "flusher_step st st' \<Longrightarrow> set (rt_written st) \<subseteq> set (rt_written st')"
    using begin_flush_written by (elim flusher_stepE) (fastforce simp: apply_one_def)+
qed simp

lemma rt_reachable_written: "rt_reachable st st' \<Longrightarrow> set (rt_written st) \<subseteq> set (rt_written st')"
  by (induction rule: rt_reachable.induct) (use rt_step_written in blast)+

lemma returned_settled:
  assumes "rt_inv m0 st" "i < length (rt_clients st)" "rt_clients st ! i = CReturned r err"
  shows "settled st r err"
  using clients_invD(1) [of st i] assms by (simp add: rt_inv_def)

lemma wait_answered:
  assumes "rt_inv m0 st" "i < length (rt_clients st)" "rt_clients st ! i = CWait r" "r \<notin> set (places st)"
  shows "\<exists>err h'. push_wait r (rt_heap st) = Done (err, h')"
proof -
  have "awaiting st r" using clients_invD(1) [of st i] assms(1-3) by (simp add: rt_inv_def)
  then show ?thesis
    using assms(4) Future_Get_states(2) [of "rt_heap st" "\<lparr>fut_result = rid r\<rparr>" _ None]
    by (auto simp: awaiting_def push_wait_defs)
qed

section \<open>A flush as a run of the flusher\<close>

lemma notify_run:
  "notification err rs (rt_heap st) = Done (rs', h') \<Longrightarrow> rt_flusher st = FNotify err rs b after \<Longrightarrow>
   flusher_step\<^sup>*\<^sup>* st (st\<lparr>rt_heap := h', rt_flusher := FNotify err [] b after\<rparr>)"
proof (induction rs arbitrary: st rs')
  case Nil
  then show ?case by (cases st) simp
next
  case (Cons r rs)
  from Cons.prems(1) obtain p h1 where p: "Promise_Set err (wr_promise r) (rt_heap st) = Done (p, h1)"
    by (cases "Promise_Set err (wr_promise r) (rt_heap st)") auto
  let ?st = "st\<lparr>rt_heap := h1, rt_flusher := FNotify err rs b after\<rparr>"
  from Cons.prems(1) p obtain qs where "notification err rs (rt_heap ?st) = Done (qs, h')"
    by (cases "notification err rs h1") auto
  from Cons.IH [OF this] flusher_step.notify [OF Cons.prems(2) p]
  show ?case by (auto intro: converse_rtranclp_into_rtranclp)
qed

lemma apply_run:
  "rt_flusher st = FApply rs after \<Longrightarrow>
   flusher_step\<^sup>*\<^sup>* st (st\<lparr>rt_wal := (rt_wal st)\<lparr>wal_table :=
       apply_logged (wal_commandHashTable (rt_wal st)) (map wr_log rs) (wal_table (rt_wal st))\<rparr>,
     rt_flusher := resume after, rt_applied := rt_applied st @ rs\<rparr>)"
proof (induction rs arbitrary: st)
  case Nil
  show ?case using flusher_step.applied_all [OF Nil] by simp
next
  case (Cons r rs)
  let ?st = "(apply_one r st)\<lparr>rt_flusher := FApply rs after\<rparr>"
  from Cons.IH [of ?st] flusher_step.apply_next [OF Cons.prems]
  have "flusher_step\<^sup>*\<^sup>* st (?st\<lparr>rt_wal := (rt_wal ?st)\<lparr>wal_table :=
       apply_logged (wal_commandHashTable (rt_wal ?st)) (map wr_log rs) (wal_table (rt_wal ?st))\<rparr>,
     rt_flusher := resume after, rt_applied := rt_applied ?st @ rs\<rparr>)"
    by (auto intro: converse_rtranclp_into_rtranclp)
  then show ?case by (simp add: apply_one_def case_prod_beta)
qed

text \<open>
  \<open>flushBatch\<close>, which the sequential proofs use, and the flusher's steps do the same: from the start of
  the flush the flusher alone reaches the state that \<open>flushBatch\<close> computes.
\<close>

lemma flush_run:
  assumes "flushBatch b (rt_wal st) (rt_fs st) (rt_heap st) = Done (err, wal', s', h')"
  shows "flusher_step\<^sup>*\<^sup>* (begin_flush b after st)
    (st\<lparr>rt_wal := wal', rt_fs := s', rt_heap := h', rt_flusher := resume after,
       rt_written := rt_written st @ (if b \<noteq> [] \<and> err = None then [b] else []),
       rt_applied := rt_applied st @ (if b \<noteq> [] \<and> err = None then sort_key (LSN \<circ> wr_log) b else [])\<rparr>)"
proof (cases "b = []")
  case True
  with assms show ?thesis by (cases st) (simp add: flushBatch_def begin_flush_def)
next
  case False
  obtain eo enc where enc: "encode_all (map wr_log b) (NewEncoder []) = (eo, enc)" by fastforce
  obtain err1 seg1 s1 where w: "Segment_Write (enc_buf enc) (wal_segment (rt_wal st)) (rt_fs st) = (err1, seg1, s1)"
    by (metis surj_pair)
  let ?e = "case eo of None \<Rightarrow> err1 | Some e \<Rightarrow> Some e"
  obtain rs' h1 where n: "notification ?e b (rt_heap st) = Done (rs', h1)"
    using assms False enc w
    by (cases "notification ?e b (rt_heap st)") (auto simp: flushBatch_def WalWriter_Write_def segment_writer_def split: option.splits)
  define st1 where "st1 = begin_flush b after st"
  have st1: "rt_heap st1 = rt_heap st" "rt_flusher st1 = FNotify ?e b b after"
    using False enc w by (auto simp: st1_def begin_flush_def split: option.splits)
  note run = notify_run [OF n [folded st1(1)] st1(2)]
  let ?st2 = "st1\<lparr>rt_heap := h1, rt_flusher := FNotify ?e [] b after\<rparr>"
  show ?thesis
  proof (cases ?e)
    case (Some e)
    then have "flusher_step ?st2 (?st2\<lparr>rt_flusher := resume after\<rparr>)" by (intro flusher_step.notified_err) simp
    note rtranclp.rtrancl_into_rtrancl [OF run this]
    then show ?thesis using assms False enc w n Some
      by (cases eo) (auto simp: st1_def begin_flush_def flushBatch_def WalWriter_Write_def segment_writer_def)
  next
    case None
    let ?st3 = "?st2\<lparr>rt_flusher := FApply (sort_key (LSN \<circ> wr_log) b) after\<rparr>"
    have "flusher_step ?st2 ?st3" using None by (intro flusher_step.notified_ok) simp
    note rtranclp_trans [OF rtranclp.rtrancl_into_rtrancl [OF run this] apply_run [of ?st3]]
    then show ?thesis using assms False enc w n None notification_logs [OF n]
      by (cases eo; cases st) (auto simp: st1_def begin_flush_def flushBatch_def WalWriter_Write_def segment_writer_def map_sort_key)
  qed
qed

section \<open>Runs\<close>

text \<open>A WAL that seals every record at once, and the request of \<^verbatim>\<open>SET a 1\<close> in it.\<close>

definition run_wal :: "HashTable Wal" where
  "run_wal = demo_wal\<lparr>wal_walConfig := (wal_walConfig demo_wal)\<lparr>flushingBatchCount := 1\<rparr>\<rparr>"

definition run_req :: WriteRequest where
  "run_req = \<lparr>wr_log = \<lparr>LSN = 1, CommandID = CommandSetID, Arguments = [''a'', ''1'']\<rparr>,
     wr_promise = \<lparr>prom_result = 0, promised = False\<rparr>\<rparr>"

definition run_heap :: "go_error option chan option \<Rightarrow> heap" where
  "run_heap c = \<lparr>ch_next = 1, ch_at = (\<lambda>_. None)(0 := c)\<rparr>"

definition run_state :: "HashTable Wal \<Rightarrow> fs \<Rightarrow> go_error option chan \<Rightarrow> client \<Rightarrow> flusher \<Rightarrow> bool \<Rightarrow> WriteRequest list list \<Rightarrow> rt" where
  "run_state wal s ch c f cancelled w = \<lparr>rt_wal = wal, rt_fs = s, rt_heap = run_heap (Some ch), rt_clients = [c],
     rt_flusher = f, rt_cancelled = cancelled, rt_written = w, rt_applied = []\<rparr>"

lemmas run_defs = run_state_def run_heap_def run_req_def set_client_def

lemma run_wal_idle: "idle_wal run_wal" "synced_ok demo_fs"
  by (simp_all add: idle_wal_def run_wal_def demo_wal_def NewWal_def synced_ok_def demo_fs_def fs_lookup_def)

text \<open>Any idle WAL that seals every record at once.\<close>

definition eager_wal :: "HashTable Wal \<Rightarrow> bool" where
  "eager_wal wal \<longleftrightarrow> idle_wal wal \<and> flushingBatchCount (wal_walConfig wal) = 1"

lemma eager_wal_facts:
  assumes "eager_wal wal"
  shows "wal_batch wal = []" "wal_batches wal = []" "wal_commandHashTable wal = hash_commands"
    "flushingBatchCount (wal_walConfig wal) = 1" "wal\<lparr>wal_batch := [], wal_activeBatchVolume := 0\<rparr> = wal" "wal\<lparr>wal_batches := []\<rparr> = wal"
  using assms by (cases wal; simp add: eager_wal_def idle_wal_def)+

lemma run_wal_eager: "eager_wal run_wal"
  using run_wal_idle(1) by (simp add: eager_wal_def run_wal_def)

lemmas run_wal_facts = eager_wal_facts [OF run_wal_eager]

lemma run_wal_table: "wal_table run_wal = NewHashTable"
  by (simp add: run_wal_def demo_wal_def NewWal_def)

lemma run_push_locked:
  "eager_wal wal \<Longrightarrow> GetTxIDFromContext ctx = 1 \<Longrightarrow>
   push_locked ctx CommandSetID [''a'', ''1''] wal empty_heap = (run_req, [run_req], wal, run_heap (Some fresh_chan))"
  by (simp add: push_locked_simp Let_def eager_wal_facts run_req_def run_heap_def empty_heap_def fun_eq_iff)

lemma run_push:
  "client_step (rt_start 1 run_wal demo_fs\<lparr>rt_flusher := f, rt_cancelled := b\<rparr>)
     (run_state run_wal demo_fs fresh_chan (CSend run_req [run_req]) f b [])"
proof -
  let ?st = "rt_start 1 run_wal demo_fs\<lparr>rt_flusher := f, rt_cancelled := b\<rparr>"
  have "GetTxIDFromContext (WithValue [] TxIDKey (StringVal (FormatInt 1))) = 1" by (simp add: int64_range_def)
  from run_push_locked [OF run_wal_eager this] have "push_locked (WithValue [] TxIDKey (StringVal (FormatInt 1))) CommandSetID [''a'', ''1'']
      (rt_wal ?st) (rt_heap ?st) = (run_req, [run_req], run_wal, run_heap (Some fresh_chan))"
    by (simp add: rt_start_def)
  from client_step.push [OF _ _ this, of 0] show ?thesis by (simp add: rt_start_def run_defs)
qed

lemma run_send:
  "client_step (run_state run_wal s ch (CSend run_req [run_req]) f b w)
     (run_state (run_wal\<lparr>wal_batches := [[run_req]]\<rparr>) s ch (CWait run_req) f b w)"
  using client_step.send [of 0 "run_state run_wal s ch (CSend run_req [run_req]) f b w" run_req "[run_req]"
      "run_wal\<lparr>wal_batches := [[run_req]]\<rparr>"]
  by (simp add: run_state_def set_client_def push_send_def batches_cap_def run_wal_facts)

lemma begin_flush_write:
  assumes "list_all wf_log (map wr_log b)" "b \<noteq> []"
    and "Segment_Write (batch_stream (map wr_log b)) (wal_segment (rt_wal st)) (rt_fs st) = (None, seg', s')"
  shows "begin_flush b after st = st\<lparr>rt_wal := (rt_wal st)\<lparr>wal_segment := seg'\<rparr>, rt_fs := s',
    rt_flusher := FNotify None b b after, rt_written := rt_written st @ [b]\<rparr>"
  using assms encode_all_NewEncoder [OF assms(1)] by (simp add: begin_flush_def)

lemma run_req_wf: "wf_log (wr_log run_req)"
  by (rule wf_log_small) (simp_all add: run_req_def int64_range_def CommandSetID_def)

lemma run_write: "\<exists>seg' s'. Segment_Write data (wal_segment run_wal) demo_fs = (None, seg', s')"
  by (simp add: run_wal_def demo_wal_def NewWal_def Segment_Write_def write_open_def Segment_CreateFile_def CreateFile_def
      demo_fs_def NewSegment_def must_rotate_def write_data_def WriteFile_def os_defs Let_def demo_path)

text \<open>The flusher takes the batch and writes it, resolves its promise, and the caller returns.\<close>

lemma eager_flush:
  assumes "eager_wal wal" "Segment_Write (batch_stream [wr_log run_req]) (wal_segment wal) s = (None, seg', s')"
  shows "flusher_step (run_state (wal\<lparr>wal_batches := [[run_req]]\<rparr>) s fresh_chan (CWait run_req) FSelect False [])
    (run_state (wal\<lparr>wal_segment := seg'\<rparr>) s' fresh_chan (CWait run_req) (FNotify None [run_req] [run_req] ToTop) False [[run_req]])"
proof -
  let ?st = "run_state (wal\<lparr>wal_batches := [[run_req]]\<rparr>) s fresh_chan (CWait run_req) FSelect False []"
  have "begin_flush [run_req] ToTop (?st\<lparr>rt_wal := wal\<rparr>) =
      run_state (wal\<lparr>wal_segment := seg'\<rparr>) s' fresh_chan (CWait run_req) (FNotify None [run_req] [run_req] ToTop) False [[run_req]]"
    using begin_flush_write [of "[run_req]" "?st\<lparr>rt_wal := wal\<rparr>" seg' s' ToTop] run_req_wf assms(2) by (simp add: run_state_def)
  moreover have "flusher_step ?st (begin_flush [run_req] ToTop (?st\<lparr>rt_wal := (rt_wal ?st)\<lparr>wal_batches := []\<rparr>\<rparr>))"
    by (rule flusher_step.select_batch) (simp_all add: run_state_def)
  ultimately show ?thesis by (simp add: run_state_def eager_wal_facts [OF assms(1)])
qed

lemma run_flush:
  obtains seg' s' where
    "flusher_step (run_state (run_wal\<lparr>wal_batches := [[run_req]]\<rparr>) demo_fs fresh_chan (CWait run_req) FSelect False [])
       (run_state (run_wal\<lparr>wal_segment := seg'\<rparr>) s' fresh_chan (CWait run_req) (FNotify None [run_req] [run_req] ToTop) False [[run_req]])"
  using eager_flush [OF run_wal_eager] run_write by metis

lemma run_notify:
  "flusher_step (run_state wal s fresh_chan (CWait run_req) (FNotify None [run_req] b next) c w)
     (run_state wal s (resolved_chan None) (CWait run_req) (FNotify None [] b next) c w)"
proof -
  let ?st = "run_state wal s fresh_chan (CWait run_req) (FNotify None [run_req] b next) c w"
  have "Promise_Set None (wr_promise run_req) (rt_heap ?st) = Done ((wr_promise run_req)\<lparr>promised := True\<rparr>, run_heap (Some (resolved_chan None)))"
    using Promise_Set_fresh [of "wr_promise run_req" "rt_heap ?st" None] by (simp add: run_defs)
  from flusher_step.notify [OF _ this, of "[]" b "next"] show ?thesis by (simp add: run_state_def)
qed

lemma run_push_wait: "push_wait run_req (run_heap (Some (resolved_chan None))) = Done (None, run_heap (Some drained_chan))"
  using Future_Get_states(2) [of "run_heap (Some (resolved_chan None))" "FutureResponse run_req" None None]
  by (simp add: push_wait_defs run_defs)

lemma run_return:
  "client_step (run_state wal s (resolved_chan None) (CWait run_req) f c w)
     (run_state wal s drained_chan (CReturned run_req None) f c w)"
  using client_step.wait [of 0 "run_state wal s (resolved_chan None) (CWait run_req) f c w"] run_push_wait
  by (simp add: run_state_def set_client_def)

lemma run_acknowledged:
  obtains seg' s' where "rt_reachable (rt_start 1 run_wal demo_fs)
    (run_state (run_wal\<lparr>wal_segment := seg'\<rparr>) s' drained_chan (CReturned run_req None) (FNotify None [] [run_req] ToTop) False [[run_req]])"
proof -
  let ?st0 = "rt_start 1 run_wal demo_fs"
  have 0: "rt_reachable ?st0 (?st0\<lparr>rt_flusher := FSelect, rt_cancelled := False\<rparr>)"
    using rt_trans [OF rt_refl by_flusher [OF flusher_step.top_default [of ?st0]]] by (simp add: rt_start_def)
  note 2 = rt_trans [OF rt_trans [OF 0 by_client [OF run_push]] by_client [OF run_send]]
  obtain seg' s' where f: "flusher_step (run_state (run_wal\<lparr>wal_batches := [[run_req]]\<rparr>) demo_fs fresh_chan (CWait run_req) FSelect False [])
       (run_state (run_wal\<lparr>wal_segment := seg'\<rparr>) s' fresh_chan (CWait run_req) (FNotify None [run_req] [run_req] ToTop) False [[run_req]])"
    by (rule run_flush)
  from rt_trans [OF rt_trans [OF rt_trans [OF 2 by_flusher [OF f]] by_flusher [OF run_notify]] by_client [OF run_return]]
  show thesis by (rule that)
qed

lemma run_waiting:
  "rt_reachable (rt_start 1 run_wal demo_fs)
     (run_state (run_wal\<lparr>wal_batches := [[run_req]]\<rparr>) demo_fs fresh_chan (CWait run_req) FTop False [])"
proof -
  have "rt_start 1 run_wal demo_fs\<lparr>rt_flusher := FTop, rt_cancelled := False\<rparr> = rt_start 1 run_wal demo_fs"
    by (simp add: rt_start_def)
  then have "client_step (rt_start 1 run_wal demo_fs) (run_state run_wal demo_fs fresh_chan (CSend run_req [run_req]) FTop False [])"
    using run_push [where f = FTop and b = False] by (simp only:)
  then show ?thesis by (intro rt_trans [OF rt_trans [OF rt_refl by_client] by_client [OF run_send]])
qed

section \<open>What the callers can rely on\<close>

text \<open>
  A nil answer means durable, under every interleaving of any number of callers with the flusher
  and with cancellation, and whatever the system calls do: once a call of \<^verbatim>\<open>Set\<close> or \<^verbatim>\<open>Del\<close> has returned
  nil, its record is in a batch whose stream is in a file, and in every later state it is still there,
  also after a crash.
\<close>

theorem nil_answer_is_durable:
  assumes "idle_wal wal" and "synced_ok s" and "rt_reachable (rt_start n wal s) st"
    and "i < length (rt_clients st)" and "rt_clients st ! i = CReturned r None" and "rt_reachable st st'"
  shows "\<exists>b. r \<in> set b \<and> (\<forall>keep. file_stores (batch_stream (map wr_log b)) (crash keep (rt_fs st')))"
proof -
  note inv = rt_reachable_inv [OF assms(3) rt_inv_start [OF assms(1,2)]]
  obtain b where b: "b \<in> set (rt_written st)" "r \<in> set b"
    using returned_settled [OF inv assms(4,5)] by (auto simp: settled_def)
  have "b \<in> set (rt_written st')" using b(1) rt_reachable_written [OF assms(6)] by blast
  moreover have "disk_inv st'" using rt_reachable_inv [OF assms(6) inv] by (simp add: rt_inv_def)
  ultimately show ?thesis using b(2) file_stores_crash by (auto simp: disk_inv_def list_all_iff)
qed

theorem nil_answer_is_durable_witness:
  "\<exists>st. rt_reachable (rt_start 1 run_wal demo_fs) st \<and> rt_clients st ! 0 = CReturned run_req None \<and>
    (\<exists>b. run_req \<in> set b \<and> (\<forall>keep. file_stores (batch_stream (map wr_log b)) (crash keep (rt_fs st))))"
proof -
  obtain seg' s' where r: "rt_reachable (rt_start 1 run_wal demo_fs)
    (run_state (run_wal\<lparr>wal_segment := seg'\<rparr>) s' drained_chan (CReturned run_req None) (FNotify None [] [run_req] ToTop) False [[run_req]])"
    (is "rt_reachable _ ?st") by (rule run_acknowledged)
  have "0 < length (rt_clients ?st)" "rt_clients ?st ! 0 = CReturned run_req None" by (simp_all add: run_state_def)
  from nil_answer_is_durable [OF run_wal_idle r this rt_refl] r this show ?thesis by blast
qed



text \<open>
  C13. No request is lost or answered twice: in every reachable state the requests that are not resolved
  are each in exactly one place (the open batch, the channel, a batch about to be sent, the rest of the
  batch being notified), and a caller that waits either has its request in one of these places or can
  return at once. The channel never holds more than five batches, and the open batch is below both
  thresholds.
\<close>

theorem requests_accounted_for:
  assumes "idle_wal wal" and "synced_ok s" and "rt_reachable (rt_start n wal s) st"
  shows "distinct (map rid (places st)) \<and> length (wal_batches (rt_wal st)) \<le> 5 \<and> batch_inv (rt_wal st) \<and>
    (\<forall>i r. i < length (rt_clients st) \<longrightarrow> rt_clients st ! i = CWait r \<longrightarrow>
       r \<in> set (places st) \<or> (\<exists>err h'. push_wait r (rt_heap st) = Done (err, h')))"
proof -
  note inv = rt_reachable_inv [OF assms(3) rt_inv_start [OF assms(1,2)]]
  from wait_answered [OF inv] inv show ?thesis
    by (auto simp: rt_inv_def requests_inv_def bounds_inv_def batches_cap_def pending_def comp_def)
qed

theorem requests_accounted_for_witness:
  "\<exists>st. rt_reachable (rt_start 1 run_wal demo_fs) st \<and> rt_clients st = [CWait run_req] \<and>
    distinct (map rid (places st)) \<and> length (wal_batches (rt_wal st)) \<le> 5 \<and> batch_inv (rt_wal st) \<and>
    (\<forall>i r. i < length (rt_clients st) \<longrightarrow> rt_clients st ! i = CWait r \<longrightarrow>
       r \<in> set (places st) \<or> (\<exists>err h'. push_wait r (rt_heap st) = Done (err, h')))"
proof -
  let ?st = "run_state (run_wal\<lparr>wal_batches := [[run_req]]\<rparr>) demo_fs fresh_chan (CWait run_req) FTop False []"
  have "rt_clients ?st = [CWait run_req]" by (simp add: run_state_def)
  with requests_accounted_for [OF run_wal_idle run_waiting] run_waiting show ?thesis by blast
qed

text \<open>
  The flusher is never stuck: in every reachable state in which it has not returned it can take a
  step. In particular the promises it resolves never block it and never panic.
\<close>

theorem flusher_never_stuck:
  assumes "idle_wal wal" and "synced_ok s" and "rt_reachable (rt_start n wal s) st" and "rt_flusher st \<noteq> FStopped"
  shows "\<exists>st'. flusher_step st st'"
proof (cases "rt_flusher st")
  case FDrain
  then show ?thesis
    by (cases "wal_batches (rt_wal st)") (metis flusher_step.drain_default flusher_step.drain_batch surj_pair)+
next
  case (FNotify err rs b after)
  have inv: "requests_inv st" using rt_reachable_inv [OF assms(3) rt_inv_start [OF assms(1,2)]] by (simp add: rt_inv_def)
  show ?thesis
  proof (cases rs)
    case Nil
    then show ?thesis using FNotify by (cases err) (auto intro: flusher_step.intros)
  next
    case (Cons r rs')
    have pend: "pending (places st) (rt_heap st)" and r: "r \<in> set (places st)"
      using inv FNotify Cons by (simp_all add: requests_inv_def places_def)
    obtain p h' where "Promise_Set err (wr_promise r) (rt_heap st) = Done (p, h')"
      using Promise_Set_fresh [of "wr_promise r" "rt_heap st" err] pendingD [OF pend r] by simp
    with FNotify Cons flusher_step.notify [of st err r rs' b after] show ?thesis by blast
  qed
next
  case (FApply rs after)
  then show ?thesis by (cases rs) (auto intro: flusher_step.intros)
next
  case FSelect
  then show ?thesis by (metis flusher_step.select_tick surj_pair)
next
  case FTop
  then show ?thesis by (metis flusher_step.top_done flusher_step.top_default)
qed (use assms(4) in auto)

theorem flusher_never_stuck_witness:
  "\<exists>st. rt_reachable (rt_start 1 run_wal demo_fs) st \<and> rt_flusher st = FNotify None [] [run_req] ToTop \<and>
    (\<exists>st'. flusher_step st st')"
proof -
  obtain seg' s' where r: "rt_reachable (rt_start 1 run_wal demo_fs)
    (run_state (run_wal\<lparr>wal_segment := seg'\<rparr>) s' drained_chan (CReturned run_req None) (FNotify None [] [run_req] ToTop) False [[run_req]])"
    (is "rt_reachable _ ?st") by (rule run_acknowledged)
  have f: "rt_flusher ?st = FNotify None [] [run_req] ToTop" by (simp add: run_state_def)
  then have "rt_flusher ?st \<noteq> FStopped" by simp
  from flusher_never_stuck [OF run_wal_idle r this] r f show ?thesis by blast
qed

end
