(* ===== verification/Wal_Progress.thy ===== *)
theory Wal_Progress
  imports Wal_Runtime
begin

text \<open>
  Progress of the WAL at run time: the flusher's steps against the whole call of \<^verbatim>\<open>flushBatch\<close>, the
  termination of the flusher after cancellation, the answer that every waiting caller gets while the
  flusher runs, and what happens to a caller that comes after the flusher has returned.
\<close>

section \<open>Termination after cancellation\<close>

text \<open>
  The steps the flusher can still take once the context is cancelled: two per parked request and four
  per sealed batch, and what is left of the flush it is in.
\<close>

fun next_work :: "flush_next \<Rightarrow> nat" where
  "next_work ToTop = 20"
| "next_work ToDrain = 10"
| "next_work ToStop = 0"

fun pc_work :: "flusher \<Rightarrow> nat" where
  "pc_work FTop = 20"
| "pc_work FSelect = 30"
| "pc_work FDrain = 10"
| "pc_work FStopped = 0"
| "pc_work (FNotify err rs b after) = length rs + length b + 2 + next_work after"
| "pc_work (FApply rs after) = length rs + 1 + next_work after"

definition flusher_work :: "rt \<Rightarrow> nat" where
  "flusher_work st = 2 * length (wal_batch (rt_wal st)) +
     sum_list (map (\<lambda>b. 2 * length b + 4) (wal_batches (rt_wal st))) + pc_work (rt_flusher st)"

lemma pc_work_resume [simp]: "pc_work (resume after) = next_work after"
  by (cases after) simp_all

lemma begin_flush_frame [frame_rules]:
  "wal_batch (rt_wal (begin_flush b after st)) = wal_batch (rt_wal st)"
  "wal_batches (rt_wal (begin_flush b after st)) = wal_batches (rt_wal st)"
  "rt_cancelled (begin_flush b after st) = rt_cancelled st"
  "rt_clients (begin_flush b after st) = rt_clients st"
  "rt_heap (begin_flush b after st) = rt_heap st"
  by (auto simp: begin_flush_def split: prod.splits option.splits)

lemma begin_flush_work: "pc_work (rt_flusher (begin_flush b after st)) \<le> 2 * length b + 2 + next_work after"
  by (auto simp: begin_flush_def split: prod.splits option.splits)

lemma flusher_step_work:
  assumes "flusher_step st st'" "rt_cancelled st"
  shows "flusher_work st' < flusher_work st \<and> rt_cancelled st'"
  using assms(1)
proof cases
  case (select_batch b bs)
  then show ?thesis using assms(2) begin_flush_work [of b ToTop "st\<lparr>rt_wal := (rt_wal st)\<lparr>wal_batches := bs\<rparr>\<rparr>"]
    by (simp add: flusher_work_def frame_rules)
next
  case (select_tick b wal')
  then show ?thesis using assms(2) begin_flush_work [of b ToTop "st\<lparr>rt_wal := wal'\<rparr>"]
    by (auto simp: flusher_work_def frame_rules SealBatch_def)
next
  case (drain_batch b bs)
  then show ?thesis using assms(2) begin_flush_work [of b ToDrain "st\<lparr>rt_wal := (rt_wal st)\<lparr>wal_batches := bs\<rparr>\<rparr>"]
    by (simp add: flusher_work_def frame_rules)
next
  case (drain_default b wal')
  then show ?thesis using assms(2) begin_flush_work [of b ToStop "st\<lparr>rt_wal := wal'\<rparr>"]
    by (auto simp: flusher_work_def frame_rules SealBatch_def)
qed (use assms(2) in \<open>simp_all add: flusher_work_def apply_one_def\<close>)




section \<open>Every waiting caller can be answered\<close>

text \<open>While the context is not cancelled, the flusher is in its main loop.\<close>

fun in_main_loop :: "flusher \<Rightarrow> bool" where
  "in_main_loop FTop = True"
| "in_main_loop FSelect = True"
| "in_main_loop FDrain = False"
| "in_main_loop FStopped = False"
| "in_main_loop (FNotify err rs b after) = (after = ToTop)"
| "in_main_loop (FApply rs after) = (after = ToTop)"

definition running :: "rt \<Rightarrow> bool" where
  "running st \<longleftrightarrow> \<not> rt_cancelled st \<and> in_main_loop (rt_flusher st)"

lemma in_main_loop_begin_flush: "in_main_loop (rt_flusher (begin_flush b ToTop st))"
  by (auto simp: begin_flush_def split: prod.splits option.splits)

lemma flusher_step_running: "flusher_step st st' \<Longrightarrow> running st \<Longrightarrow> running st'"
  by (erule flusher_stepE) (auto simp: running_def frame_rules in_main_loop_begin_flush apply_one_def)

lemma rt_step_running: "rt_step st st' \<Longrightarrow> \<not> rt_cancelled st' \<Longrightarrow> running st \<Longrightarrow> running st'"
proof (erule rt_stepE)
  show "client_step st st' \<Longrightarrow> running st \<Longrightarrow> running st'"
    by (erule client_stepE) (simp_all add: running_def set_client_def)
qed (auto intro: flusher_step_running)

lemma rt_step_cancelled: "rt_step st st' \<Longrightarrow> rt_cancelled st \<Longrightarrow> rt_cancelled st'"
proof (erule rt_stepE)
  show "client_step st st' \<Longrightarrow> rt_cancelled st \<Longrightarrow> rt_cancelled st'"
    by (erule client_stepE) (simp_all add: set_client_def)
qed (auto dest: flusher_step_work)

lemma rt_reachable_running:
  "rt_reachable (rt_start n wal s) st \<Longrightarrow> \<not> rt_cancelled st \<Longrightarrow> running st"
proof (induction rule: rt_reachable.induct)
  case (rt_trans st st')
  then show ?case using rt_step_cancelled rt_step_running by blast
qed (simp add: running_def rt_start_def)

lemma flusher_run_reachable: "flusher_step\<^sup>*\<^sup>* st st' \<Longrightarrow> rt_reachable st st'"
  by (induction rule: rtranclp_induct) (auto intro: rt_refl rt_trans by_flusher)

lemma flusher_run_inv: "flusher_step\<^sup>*\<^sup>* st st' \<Longrightarrow> rt_inv m0 st \<Longrightarrow> rt_inv m0 st'"
  by (rule rt_reachable_inv [OF flusher_run_reachable])

text \<open>From the main loop the flusher finishes what it is doing and comes back to its select.\<close>

lemma top_to_select:
  "rt_flusher st = FTop \<Longrightarrow> \<not> rt_cancelled st \<Longrightarrow> flusher_step\<^sup>*\<^sup>* st (st\<lparr>rt_flusher := FSelect\<rparr>)"
  by (auto intro: flusher_step.top_default)

lemma finish_flush:
  assumes "rt_inv m0 st" "running st"
  obtains st' where "flusher_step\<^sup>*\<^sup>* st st'" "rt_flusher st' = FSelect" "parked st' = parked st"
    "rt_clients st' = rt_clients st" "running st'"
proof -
  have "\<exists>st'. flusher_step\<^sup>*\<^sup>* st st' \<and> rt_flusher st' \<in> {FTop, FSelect} \<and> parked st' = parked st \<and>
      rt_clients st' = rt_clients st \<and> rt_cancelled st' = rt_cancelled st"
  proof (cases "rt_flusher st")
    case (FNotify err rs b after)
    then have after: "after = ToTop" using assms(2) by (simp add: running_def)
    have "pending rs (rt_heap st)"
      using assms(1) FNotify pending_sub [of rs "places st"] by (simp add: rt_inv_def requests_inv_def places_def)
    note run = notify_run [OF notification_pending [OF this] FNotify]
    let ?st1 = "st\<lparr>rt_heap := resolve_all err rs (rt_heap st), rt_flusher := FNotify err [] b after\<rparr>"
    show ?thesis
    proof (cases err)
      case None
      let ?st2 = "?st1\<lparr>rt_flusher := FApply (sort_key (LSN \<circ> wr_log) b) after\<rparr>"
      have "flusher_step ?st1 ?st2" using None by (intro flusher_step.notified_ok) simp
      note rtranclp_trans [OF rtranclp.rtrancl_into_rtrancl [OF run this] apply_run [of ?st2]]
      then show ?thesis by (auto simp: after parked_def intro!: exI)
    next
      case (Some e)
      then have "flusher_step ?st1 (?st1\<lparr>rt_flusher := resume after\<rparr>)" by (intro flusher_step.notified_err) simp
      note rtranclp.rtrancl_into_rtrancl [OF run this]
      then show ?thesis by (auto simp: after parked_def intro!: exI)
    qed
  next
    case (FApply rs after)
    then have "after = ToTop" using assms(2) by (simp add: running_def)
    with apply_run [OF FApply] show ?thesis by (auto simp: parked_def intro!: exI)
  qed (use assms(2) in \<open>auto simp: running_def\<close>)
  then obtain st1 where st1: "flusher_step\<^sup>*\<^sup>* st st1" "rt_flusher st1 \<in> {FTop, FSelect}" "parked st1 = parked st"
      "rt_clients st1 = rt_clients st" "\<not> rt_cancelled st1" using assms(2) by (auto simp: running_def)
  show thesis
  proof (cases "rt_flusher st1 = FSelect")
    case True
    with st1 show ?thesis by (intro that [of st1]) (simp_all add: running_def)
  next
    case False
    with st1 top_to_select [of st1] show ?thesis
      by (intro that [of "st1\<lparr>rt_flusher := FSelect\<rparr>"]) (auto simp: running_def parked_def)
  qed
qed


lemma flush_to_select:
  assumes "pending b (rt_heap st)" "synced_ok (rt_fs st)" "\<not> rt_cancelled st"
  obtains st' where "flusher_step\<^sup>*\<^sup>* (begin_flush b ToTop st) st'" "rt_flusher st' = FSelect"
    "wal_batch (rt_wal st') = wal_batch (rt_wal st)" "wal_batches (rt_wal st') = wal_batches (rt_wal st)"
    "rt_clients st' = rt_clients st" "running st'"
proof -
  obtain err wal' s' h' where f: "flushBatch b (rt_wal st) (rt_fs st) (rt_heap st) = Done (err, wal', s', h')"
    and w: "wal_batch wal' = wal_batch (rt_wal st)" "wal_batches wal' = wal_batches (rt_wal st)"
  proof (cases "b = []")
    case True
    then show ?thesis by (intro that) (auto simp: flushBatch_def)
  next
    case False
    show ?thesis by (rule flushBatch_cases [OF assms(1,2) False, of "rt_wal st"]) (erule that, auto)
  qed
  show thesis
    by (rule that [OF rtranclp_trans [OF flush_run [OF f, of ToTop] top_to_select]])
      (use assms(3) w in \<open>simp_all add: running_def\<close>)
qed

lemma inv_pending: "rt_inv m0 st \<Longrightarrow> mset b \<subseteq># mset (places st) \<Longrightarrow> pending b (rt_heap st)"
  by (auto simp: rt_inv_def requests_inv_def intro: pending_sub)

lemma inv_synced: "rt_inv m0 st \<Longrightarrow> synced_ok (rt_fs st)"
  by (simp add: rt_inv_def disk_inv_def)

text \<open>The flusher empties the channel, and the tick empties the open batch.\<close>

lemma drain_channel:
  "rt_inv m0 st \<Longrightarrow> running st \<Longrightarrow> rt_flusher st = FSelect \<Longrightarrow> wal_batches (rt_wal st) = bs \<Longrightarrow>
   \<exists>st'. flusher_step\<^sup>*\<^sup>* st st' \<and> rt_flusher st' = FSelect \<and> wal_batches (rt_wal st') = [] \<and>
     wal_batch (rt_wal st') = wal_batch (rt_wal st) \<and> rt_clients st' = rt_clients st \<and> running st'"
proof (induction bs arbitrary: st)
  case (Cons b bs)
  let ?st1 = "st\<lparr>rt_wal := (rt_wal st)\<lparr>wal_batches := bs\<rparr>\<rparr>"
  have "pending b (rt_heap ?st1)" using inv_pending [OF Cons.prems(1), of b] Cons.prems(4) by (simp add: places_def parked_def)
  then obtain st2 where st2: "flusher_step\<^sup>*\<^sup>* (begin_flush b ToTop ?st1) st2" "rt_flusher st2 = FSelect"
    "wal_batch (rt_wal st2) = wal_batch (rt_wal st)" "wal_batches (rt_wal st2) = bs"
    "rt_clients st2 = rt_clients st" "running st2"
    by (rule flush_to_select) (use Cons.prems(2) inv_synced [OF Cons.prems(1)] in \<open>auto simp: running_def\<close>)
  note run = converse_rtranclp_into_rtranclp [OF flusher_step.select_batch [OF Cons.prems(3,4)] st2(1)]
  from Cons.IH [OF flusher_run_inv [OF run Cons.prems(1)] st2(6,2,4)] run st2(3,5)
  show ?case by (metis rtranclp_trans)
qed blast

lemma flush_open_batch:
  assumes "rt_inv m0 st" "running st" "rt_flusher st = FSelect"
  obtains st' where "flusher_step\<^sup>*\<^sup>* st st'" "rt_flusher st' = FSelect" "wal_batch (rt_wal st') = []"
    "wal_batches (rt_wal st') = wal_batches (rt_wal st)" "rt_clients st' = rt_clients st" "running st'"
proof -
  let ?st1 = "st\<lparr>rt_wal := (rt_wal st)\<lparr>wal_batch := [], wal_activeBatchVolume := 0\<rparr>\<rparr>"
  have "pending (wal_batch (rt_wal st)) (rt_heap ?st1)"
    using inv_pending [OF assms(1), of "wal_batch (rt_wal st)"] by (simp add: places_def parked_def)
  then obtain st2 where st2: "flusher_step\<^sup>*\<^sup>* (begin_flush (wal_batch (rt_wal st)) ToTop ?st1) st2" "rt_flusher st2 = FSelect"
    "wal_batch (rt_wal st2) = []" "wal_batches (rt_wal st2) = wal_batches (rt_wal st)" "rt_clients st2 = rt_clients st" "running st2"
    by (rule flush_to_select) (use assms(2) inv_synced [OF assms(1)] in \<open>auto simp: running_def\<close>)
  have "flusher_step st (begin_flush (wal_batch (rt_wal st)) ToTop ?st1)"
    by (rule flusher_step.select_tick [OF assms(3)]) (simp add: SealBatch_def)
  from that [OF converse_rtranclp_into_rtranclp [OF this st2(1)] st2(2-6)] show thesis .
qed

text \<open>Together: nothing is parked any more but in the batches that callers are about to send.\<close>

lemma drain_all:
  assumes "rt_inv m0 st" "running st"
  obtains st' where "flusher_step\<^sup>*\<^sup>* st st'" "rt_flusher st' = FSelect" "wal_batch (rt_wal st') = []"
    "wal_batches (rt_wal st') = []" "rt_clients st' = rt_clients st" "running st'" "rt_inv m0 st'"
proof -
  obtain st1 where st1: "flusher_step\<^sup>*\<^sup>* st st1" "rt_flusher st1 = FSelect" "rt_clients st1 = rt_clients st" "running st1"
    by (rule finish_flush [OF assms])
  from drain_channel [OF flusher_run_inv [OF st1(1) assms(1)] st1(4,2) refl] obtain st2 where
    st2: "flusher_step\<^sup>*\<^sup>* st1 st2" "rt_flusher st2 = FSelect" "wal_batches (rt_wal st2) = []" "rt_clients st2 = rt_clients st1" "running st2"
    by blast
  note run = rtranclp_trans [OF st1(1) st2(1)]
  obtain st3 where st3: "flusher_step\<^sup>*\<^sup>* st2 st3" "rt_flusher st3 = FSelect" "wal_batch (rt_wal st3) = []"
    "wal_batches (rt_wal st3) = wal_batches (rt_wal st2)" "rt_clients st3 = rt_clients st2" "running st3"
    by (rule flush_open_batch [OF flusher_run_inv [OF run assms(1)] st2(5,2)])
  note run' = rtranclp_trans [OF run st3(1)]
  show thesis
    by (rule that [OF run' st3(2,3) _ _ st3(6) flusher_run_inv [OF run' assms(1)]]) (use st1 st2 st3 in simp_all)
qed


lemma places_drained:
  assumes "rt_flusher st = FSelect" "wal_batch (rt_wal st) = []" "wal_batches (rt_wal st) = []" "r \<in> set (places st)"
  obtains j q sealed where "j < length (rt_clients st)" "rt_clients st ! j = CSend q sealed" "r \<in> set sealed"
proof -
  from assms obtain c where c: "c \<in> set (rt_clients st)" "r \<in> set (client_sealed c)"
    by (auto simp: places_def parked_def)
  from c(2) obtain q sealed where "c = CSend q sealed" "r \<in> set sealed" by - (cases c, auto)
  with c(1) that show thesis by (metis in_set_conv_nth)
qed

lemma resolved_once: "rt_inv m0 st \<Longrightarrow> mset (places st) = mset (b @ rest) \<Longrightarrow> r \<in> set b \<Longrightarrow> r \<notin> set rest"
  using pending_mset [of "places st" "b @ rest" "rt_heap st"] by (auto simp: rt_inv_def requests_inv_def pending_def)

text \<open>The batch that holds the request is sent by its caller and flushed.\<close>

lemma sealed_request_resolved:
  assumes "rt_inv m0 st" "running st" "rt_flusher st = FSelect" "wal_batch (rt_wal st) = []" "wal_batches (rt_wal st) = []"
    and j: "j < length (rt_clients st)" "rt_clients st ! j = CSend q sealed" "r \<in> set sealed"
  obtains wal' st' where "push_send sealed (rt_wal st) = Done wal'"
    "flusher_step\<^sup>*\<^sup>* (set_client j (CWait q) (st\<lparr>rt_wal := wal'\<rparr>)) st'" "rt_clients st' = (rt_clients st)[j := CWait q]"
    "r \<notin> set (places st')" "running st'"
proof -
  let ?st1 = "set_client j (CWait q) (st\<lparr>rt_wal := (rt_wal st)\<lparr>wal_batches := [sealed]\<rparr>\<rparr>)"
  have "sealed \<noteq> []" using j(3) by auto
  then have send: "push_send sealed (rt_wal st) = Done ((rt_wal st)\<lparr>wal_batches := [sealed]\<rparr>)"
    by (simp add: push_send_def assms(5) batches_cap_def)
  note step = client_step.send [OF j(1,2) send]
  note inv1 = client_step_inv [OF step assms(1)]
  have f1: "running ?st1" "rt_flusher ?st1 = FSelect" "wal_batches (rt_wal ?st1) = [sealed]" "wal_batch (rt_wal ?st1) = []"
    "rt_clients ?st1 = (rt_clients st)[j := CWait q]"
    using assms(2,3,4) by (simp_all add: set_client_def running_def)
  have "places ?st1 = sealed @ concat (map client_sealed (rt_clients ?st1))"
    by (simp add: places_def parked_def f1)
  then have rest: "r \<notin> set (concat (map client_sealed (rt_clients ?st1)))"
    using j(3) by (intro resolved_once [OF inv1, of sealed]) simp_all
  from drain_channel [OF inv1 f1(1-3)] obtain st2 where st2: "flusher_step\<^sup>*\<^sup>* ?st1 st2" "rt_flusher st2 = FSelect"
    "wal_batches (rt_wal st2) = []" "wal_batch (rt_wal st2) = []" "rt_clients st2 = rt_clients ?st1" "running st2" using f1(4) by auto
  have "r \<notin> set (places st2)" using rest st2 by (simp add: places_def parked_def)
  then show thesis using that [OF send st2(1)] st2(5,6) f1(5) by simp
qed

text \<open>
  No caller is forgotten: as long as the context is not cancelled, from every reachable state every
  caller that waits for its answer can be brought to return, by steps of the flusher and of the callers
  that have a sealed batch to send. In particular the bounded channel of batches never deadlocks.
\<close>

theorem waiting_caller_can_return:
  assumes "idle_wal wal" and "synced_ok s" and "rt_reachable (rt_start n wal s) st" and "\<not> rt_cancelled st"
    and "i < length (rt_clients st)" and "rt_clients st ! i = CWait r"
  shows "\<exists>st' err. rt_reachable st st' \<and> rt_clients st' ! i = CReturned r err"
proof -
  note inv = rt_reachable_inv [OF assms(3) rt_inv_start [OF assms(1,2)]]
  obtain st1 where st1: "flusher_step\<^sup>*\<^sup>* st st1" "rt_flusher st1 = FSelect" "wal_batch (rt_wal st1) = []"
    "wal_batches (rt_wal st1) = []" "rt_clients st1 = rt_clients st" "running st1" "rt_inv (ht_data (wal_table wal)) st1"
    by (rule drain_all [OF inv rt_reachable_running [OF assms(3,4)]])
  have "\<exists>st2. rt_reachable st1 st2 \<and> i < length (rt_clients st2) \<and> rt_clients st2 ! i = CWait r \<and> r \<notin> set (places st2)"
  proof (cases "r \<in> set (places st1)")
    case True
    obtain j q sealed where j: "j < length (rt_clients st1)" "rt_clients st1 ! j = CSend q sealed" "r \<in> set sealed"
      by (rule places_drained [OF st1(2-4) True])
    obtain wal' st2 where s: "push_send sealed (rt_wal st1) = Done wal'"
      "flusher_step\<^sup>*\<^sup>* (set_client j (CWait q) (st1\<lparr>rt_wal := wal'\<rparr>)) st2" "rt_clients st2 = (rt_clients st1)[j := CWait q]"
      "r \<notin> set (places st2)" by (rule sealed_request_resolved [OF st1(7,6,2,3,4) j])
    have "rt_reachable st1 st2"
      using rt_reachable_trans [OF flusher_run_reachable [OF s(2)]] rt_trans [OF rt_refl by_client [OF client_step.send [OF j(1,2) s(1)]]] by blast
    moreover note s(3,4)
    moreover have "j \<noteq> i" using j(2) assms(6) st1(5) by auto
    ultimately show ?thesis using assms(5,6) st1(5) by (intro exI [of _ st2]) simp
  next
    case False
    with assms(5,6) st1(5) show ?thesis by (intro exI [of _ st1]) (simp add: rt_refl)
  qed
  then obtain st2 where st2: "rt_reachable st1 st2" "i < length (rt_clients st2)" "rt_clients st2 ! i = CWait r"
    "r \<notin> set (places st2)" by blast
  obtain err h' where "push_wait r (rt_heap st2) = Done (err, h')"
    using wait_answered [OF rt_reachable_inv [OF st2(1) st1(7)] st2(2-4)] by blast
  from rt_trans [OF rt_reachable_trans [OF st2(1) flusher_run_reachable [OF st1(1)]] by_client [OF client_step.wait [OF st2(2,3) this]]]
  show ?thesis using st2(2) by (intro exI conjI) (assumption, simp add: set_client_def)
qed

theorem waiting_caller_can_return_witness:
  "\<exists>st. rt_reachable (rt_start 1 run_wal demo_fs) st \<and> rt_clients st = [CWait run_req] \<and> \<not> rt_cancelled st \<and>
    (\<exists>st' err. rt_reachable st st' \<and> rt_clients st' ! 0 = CReturned run_req err)"
proof -
  let ?st = "run_state (run_wal\<lparr>wal_batches := [[run_req]]\<rparr>) demo_fs fresh_chan (CWait run_req) FTop False []"
  have "rt_clients ?st = [CWait run_req]" "\<not> rt_cancelled ?st" by (simp_all add: run_state_def)
  with waiting_caller_can_return [OF run_wal_idle run_waiting, of 0 run_req] run_waiting show ?thesis by auto
qed


section \<open>After the flusher has returned\<close>

text \<open>Nothing can resolve the promise of a caller any more.\<close>

lemma stranded_step:
  assumes "rt_step st st'" "rt_inv m0 st" "rt_flusher st = FStopped" "i < length (rt_clients st)" "rt_clients st ! i = CWait r"
    and fresh: "ch_at (rt_heap st) (rid r) = Some fresh_chan"
  shows "rt_flusher st' = FStopped \<and> i < length (rt_clients st') \<and> rt_clients st' ! i = CWait r \<and>
    ch_at (rt_heap st') (rid r) = Some fresh_chan"
  using assms(1)
proof (cases rule: rt_step.cases)
  case by_client
  then show ?thesis
  proof (cases rule: client_step.cases)
    case (push j ctx cmd args q sealed wal' h')
    have "rid r < ch_next (rt_heap st)" using assms(2) fresh by (auto simp: rt_inv_def requests_inv_def heap_wf_def)
    with push assms(3-6) show ?thesis by (auto simp: push_locked_simp Let_def set_client_def nth_list_update split: if_splits)
  next
    case (wait j q err h')
    have "j \<noteq> i"
    proof
      assume "j = i"
      with wait assms(5) have "push_wait r (rt_heap st) = Done (err, h')" by simp
      with fresh show False by (simp add: push_wait_defs Future_Get_states(1))
    qed
    moreover have "rid q \<noteq> rid r" using clients_invD(3) [of st j i] wait assms \<open>j \<noteq> i\<close> by (simp add: rt_inv_def)
    moreover have "ch_at h' (rid r) = ch_at (rt_heap st) (rid r)"
      using wait(4) \<open>rid q \<noteq> rid r\<close>
      by (auto simp: push_wait_defs Future_Get_def chan_recv_def split: option.splits list.splits if_splits)
    ultimately show ?thesis using wait assms by (simp add: set_client_def)
  qed (use assms in \<open>auto simp: set_client_def nth_list_update\<close>)
next
  case by_flusher
  then show ?thesis using assms(3) by cases auto
qed (use assms in simp)


lemma blocked_fresh:
  assumes "rt_inv m0 st" "i < length (rt_clients st)" "rt_clients st ! i = CWait r" "push_wait r (rt_heap st) = Blocks"
  shows "ch_at (rt_heap st) (rid r) = Some fresh_chan"
proof -
  have "r \<in> set (places st)" using wait_answered [OF assms(1-3)] assms(4) by auto
  with assms(1) pendingD show ?thesis by (auto simp: rt_inv_def requests_inv_def)
qed

lemma stranded_forever:
  assumes "rt_reachable st st'" "rt_inv m0 st" "rt_flusher st = FStopped" "i < length (rt_clients st)" "rt_clients st ! i = CWait r"
    and "ch_at (rt_heap st) (rid r) = Some fresh_chan"
  shows "rt_flusher st' = FStopped \<and> i < length (rt_clients st') \<and> rt_clients st' ! i = CWait r \<and>
    ch_at (rt_heap st') (rid r) = Some fresh_chan"
  using assms(1)
proof (induction rule: rt_reachable.induct)
  case (rt_trans st1 st2)
  from stranded_step [OF rt_trans(2) rt_reachable_inv [OF rt_trans(1) assms(2)]] rt_trans.IH show ?case by blast
qed (use assms in simp)

text \<open>
  C38. A caller whose request was not answered before the flusher returned waits for ever: the final
  \<^verbatim>\<open>SealBatch\<close> of the shutdown does not close the WAL, so a \<^verbatim>\<open>push\<close> that comes after it blocks in
  \<^verbatim>\<open>future.Get\<close> under every continuation.
\<close>

theorem stopped_flusher_strands_callers:
  assumes "idle_wal wal" and "synced_ok s" and "rt_reachable (rt_start n wal s) st" and "rt_flusher st = FStopped"
    and "i < length (rt_clients st)" and "rt_clients st ! i = CWait r" and "push_wait r (rt_heap st) = Blocks"
    and "rt_reachable st st'"
  shows "rt_clients st' ! i = CWait r \<and> push_wait r (rt_heap st') = Blocks"
proof -
  note inv = rt_reachable_inv [OF assms(3) rt_inv_start [OF assms(1,2)]]
  from stranded_forever [OF assms(8) inv assms(4-6) blocked_fresh [OF inv assms(5-7)]]
  show ?thesis by (simp add: push_wait_defs Future_Get_states(1))
qed

theorem stopped_flusher_strands_callers_witness:
  "\<exists>st. rt_reachable (rt_start 1 run_wal demo_fs) st \<and> rt_flusher st = FStopped \<and>
    (\<forall>st'. rt_reachable st st' \<longrightarrow> rt_clients st' ! 0 = CWait run_req \<and> push_wait run_req (rt_heap st') = Blocks)"
proof -
  let ?init = "rt_start 1 run_wal demo_fs"
  let ?st = "run_state (run_wal\<lparr>wal_batches := [[run_req]]\<rparr>) demo_fs fresh_chan (CWait run_req) FStopped True []"
  have "rt_step (?init\<lparr>rt_cancelled := True\<rparr>) (?init\<lparr>rt_flusher := FDrain, rt_cancelled := True\<rparr>)"
    using flusher_step.top_done [of "?init\<lparr>rt_cancelled := True\<rparr>"] by (auto simp: rt_start_def intro: by_flusher)
  moreover have "rt_step (?init\<lparr>rt_flusher := FDrain, rt_cancelled := True\<rparr>) (?init\<lparr>rt_flusher := FStopped, rt_cancelled := True\<rparr>)"
    using flusher_step.drain_default [of "?init\<lparr>rt_flusher := FDrain, rt_cancelled := True\<rparr>" "[]" run_wal]
    by (auto simp: rt_start_def SealBatch_def run_wal_facts begin_flush_def intro: by_flusher)
  ultimately have "rt_reachable ?init (?init\<lparr>rt_flusher := FStopped, rt_cancelled := True\<rparr>)"
    by (intro rt_trans [OF rt_trans [OF rt_trans [OF rt_refl rt_step.cancel]]])
  note r = rt_trans [OF rt_trans [OF this by_client [OF run_push]] by_client [OF run_send]]
  have h: "rt_flusher ?st = FStopped" "0 < length (rt_clients ?st)" "rt_clients ?st ! 0 = CWait run_req" by (simp_all add: run_state_def)
  have "push_wait run_req (rt_heap ?st) = Blocks"
    by (simp add: run_defs push_wait_defs Future_Get_states(1))
  from stopped_flusher_strands_callers [OF run_wal_idle r h this] r h(1) show ?thesis by blast
qed

section \<open>The flusher and the sequential flush\<close>

text \<open>
  The flusher refines \<^verbatim>\<open>flushBatch\<close>: when it takes a batch from the channel, its steps (write, one
  promise at a time, one record at a time) lead to exactly the WAL, the files and the promises that the
  whole call of \<^verbatim>\<open>flushBatch\<close> computes, on success and on failure.
\<close>

theorem flusher_refines_flushBatch:
  assumes "rt_flusher st = FSelect" and "wal_batches (rt_wal st) = b # bs"
    and "flushBatch b ((rt_wal st)\<lparr>wal_batches := bs\<rparr>) (rt_fs st) (rt_heap st) = Done (err, wal', s', h')"
  shows "\<exists>st'. flusher_step\<^sup>*\<^sup>* st st' \<and> rt_flusher st' = FTop \<and> rt_wal st' = wal' \<and> rt_fs st' = s' \<and> rt_heap st' = h' \<and>
    rt_clients st' = rt_clients st"
proof -
  let ?st1 = "st\<lparr>rt_wal := (rt_wal st)\<lparr>wal_batches := bs\<rparr>\<rparr>"
  have "flushBatch b (rt_wal ?st1) (rt_fs ?st1) (rt_heap ?st1) = Done (err, wal', s', h')" using assms(3) by simp
  note converse_rtranclp_into_rtranclp [OF flusher_step.select_batch [OF assms(1,2)] flush_run [OF this, of ToTop]]
  then show ?thesis by (intro exI conjI) (assumption, simp_all)
qed

theorem flusher_refines_flushBatch_witness:
  "\<exists>err wal' s' h' st'. flushBatch [run_req] run_wal demo_fs (run_heap (Some fresh_chan)) = Done (err, wal', s', h') \<and>
    flusher_step\<^sup>*\<^sup>* (run_state (run_wal\<lparr>wal_batches := [[run_req]]\<rparr>) demo_fs fresh_chan (CWait run_req) FSelect False []) st' \<and>
    rt_wal st' = wal' \<and> rt_fs st' = s' \<and> rt_heap st' = h'"
proof -
  let ?st = "run_state (run_wal\<lparr>wal_batches := [[run_req]]\<rparr>) demo_fs fresh_chan (CWait run_req) FSelect False []"
  have "pending [run_req] (run_heap (Some fresh_chan))" by (simp add: pending_def run_defs)
  then obtain err wal' s' h' where f: "flushBatch [run_req] run_wal demo_fs (run_heap (Some fresh_chan)) = Done (err, wal', s', h')"
    by (rule flushBatch_cases [OF _ run_wal_idle(2), of "[run_req]" _ run_wal]) auto
  have "\<exists>st'. flusher_step\<^sup>*\<^sup>* ?st st' \<and> rt_flusher st' = FTop \<and> rt_wal st' = wal' \<and> rt_fs st' = s' \<and> rt_heap st' = h' \<and>
    rt_clients st' = rt_clients ?st"
    by (rule flusher_refines_flushBatch [of _ "[run_req]" "[]"]) (use f in \<open>simp_all add: run_state_def run_wal_facts\<close>)
  with f show ?thesis by blast
qed

text \<open>
  The answer comes before the effect: there is a run in which \<^verbatim>\<open>Set\<close> has returned nil to its caller
  while the hash table does not hold the key yet, because \<^verbatim>\<open>WalWriter.Write\<close> resolves the promises and
  \<^verbatim>\<open>flushBatch\<close> applies the records afterwards. The caller cannot rely on reading its own write.
\<close>

theorem ack_before_apply:
  "\<exists>st. rt_reachable (rt_start 1 run_wal demo_fs) st \<and> rt_clients st = [CReturned run_req None] \<and>
    HashTable_Get ''a'' (wal_table (rt_wal st)) = ('''', False)"
proof -
  obtain seg' s' where "rt_reachable (rt_start 1 run_wal demo_fs)
    (run_state (run_wal\<lparr>wal_segment := seg'\<rparr>) s' drained_chan (CReturned run_req None) (FNotify None [] [run_req] ToTop) False [[run_req]])"
    by (rule run_acknowledged)
  then show ?thesis by (intro exI conjI) (assumption, simp_all add: run_state_def run_wal_table HashTable_Get_def NewHashTable_def)
qed

end
