(* ===== verification/Service.thy ===== *)
theory Service
  imports Database Wal_Progress
begin

text \<open>
  The service put together: dispatcher, facade, engine, WAL, segment files and hash table. A write call
  with no other caller in flight is the schedule in which the flusher finishes the flush before the
  caller goes on; it is shown to be a run of the interleaved WAL, and the whole service under it to
  refine a map.
\<close>

section \<open>A write call alone\<close>

text \<open>What the WAL works on: its own state, the files, and the channels of the promises.\<close>

type_synonym world = "HashTable Wal \<times> fs \<times> heap"

abbreviation world_table :: "world \<Rightarrow> HashTable" where
  "world_table w \<equiv> wal_table (fst w)"

text \<open>
  One turn of the flusher: the batch at the head of the channel, or what the tick seals when the channel
  is empty.
\<close>

definition flush_turn :: "world \<Rightarrow> (go_error option \<times> world) outcome" where
  "flush_turn w = (case w of (wal, s, h) \<Rightarrow>
     (case wal_batches wal of
        b # bs \<Rightarrow> flushBatch b (wal\<lparr>wal_batches := bs\<rparr>) s h
      | [] \<Rightarrow> (case SealBatch wal of (b, wal1) \<Rightarrow> flushBatch b wal1 s h)))"

definition lone_push :: "ctx \<Rightarrow> int64 \<Rightarrow> string list \<Rightarrow> world \<Rightarrow> (go_error option \<times> world) outcome" where
  "lone_push ctx commandID args w = (case w of (wal, s, h) \<Rightarrow>
     (case push_locked ctx commandID args wal h of (r, sealed, wal1, h1) \<Rightarrow>
        outcome_bind (push_send sealed wal1) (\<lambda>wal2.
        outcome_bind (flush_turn (wal2, s, h1)) (\<lambda>(_, wal3, s3, h3).
        outcome_bind (push_wait r h3) (\<lambda>(err, h4). Done (err, wal3, s3, h4))))))"

definition Wal_Set :: "ctx \<Rightarrow> string \<Rightarrow> string \<Rightarrow> world \<Rightarrow> (go_error option \<times> world) outcome" where
  "Wal_Set ctx key value = lone_push ctx CommandSetID [key, value]"

definition Wal_Del :: "ctx \<Rightarrow> string \<Rightarrow> world \<Rightarrow> (go_error option \<times> world) outcome" where
  "Wal_Del ctx key = lone_push ctx CommandDelID [key]"

definition world_ok :: "world \<Rightarrow> bool" where
  "world_ok w \<longleftrightarrow> (case w of (wal, s, h) \<Rightarrow> idle_wal wal \<and> synced_ok s \<and> heap_wf h)"

text \<open>The request a call of \<^verbatim>\<open>push\<close> makes, and the channels after it.\<close>

definition call_req :: "ctx \<Rightarrow> int64 \<Rightarrow> string list \<Rightarrow> heap \<Rightarrow> WriteRequest" where
  "call_req ctx commandID args h = \<lparr>wr_log = \<lparr>LSN = GetTxIDFromContext ctx, CommandID = commandID, Arguments = args\<rparr>,
     wr_promise = \<lparr>prom_result = ch_next h, promised = False\<rparr>\<rparr>"

definition call_heap :: "heap \<Rightarrow> heap" where
  "call_heap h = h\<lparr>ch_next := Suc (ch_next h), ch_at := (ch_at h)(ch_next h := Some fresh_chan)\<rparr>"

lemma call_pending: "heap_wf h \<Longrightarrow> pending [call_req ctx cmd args h] (call_heap h)" "heap_wf h \<Longrightarrow> heap_wf (call_heap h)"
  using pending_snoc [of "[]" h "call_req ctx cmd args h" "wr_log (call_req ctx cmd args h)"]
  by (auto simp: call_req_def call_heap_def pending_def heap_wf_def less_Suc_eq)

text \<open>From an idle WAL the call sends a batch of its own request, or leaves it to the tick; the flush is the same.\<close>

lemma push_idle:
  assumes "idle_wal wal"
  obtains sealed wal1 where "push_locked ctx cmd args wal h = (call_req ctx cmd args h, sealed, wal1, call_heap h)"
    "sealed = [call_req ctx cmd args h] \<and> wal1 = wal \<or>
     sealed = [] \<and> wal_batch wal1 = [call_req ctx cmd args h] \<and> wal_batches wal1 = [] \<and>
       wal1\<lparr>wal_batch := [], wal_activeBatchVolume := 0\<rparr> = wal"
  using assms by (cases wal) (force simp: push_locked_simp Let_def idle_wal_def call_req_def call_heap_def split: if_splits)

lemma send_flush_idle:
  assumes "idle_wal wal" "sealed = [r] \<and> wal1 = wal \<or> sealed = [] \<and> wal_batch wal1 = [r] \<and> wal_batches wal1 = [] \<and>
       wal1\<lparr>wal_batch := [], wal_activeBatchVolume := 0\<rparr> = wal"
  obtains wal2 where "push_send sealed wal1 = Done wal2" "\<And>s h. flush_turn (wal2, s, h) = flushBatch [r] wal s h"
proof (cases "sealed = []")
  case True
  with assms(2) show ?thesis by (intro that [of wal1]) (auto simp: push_send_def flush_turn_def SealBatch_def)
next
  case False
  with assms show ?thesis
    by (intro that [of "wal\<lparr>wal_batches := [[r]]\<rparr>"])
      (cases wal; auto simp: push_send_def flush_turn_def batches_cap_def idle_wal_def)+
qed


text \<open>The channels after the flush has resolved the request and the caller has read the answer.\<close>

definition answered_heap :: "heap \<Rightarrow> heap" where
  "answered_heap h = h\<lparr>ch_next := Suc (ch_next h), ch_at := (ch_at h)(ch_next h := Some drained_chan)\<rparr>"

lemma wait_resolved:
  "push_wait (call_req ctx cmd args h) (resolve_all err [call_req ctx cmd args h] (call_heap h)) = Done (err, answered_heap h)"
  using Future_Get_states(2) [of "resolve_all err [call_req ctx cmd args h] (call_heap h)" "FutureResponse (call_req ctx cmd args h)" err]
  by (auto simp: push_wait_defs resolve_all_def call_req_def call_heap_def
      answered_heap_def fun_eq_iff)

lemma lone_push_flush:
  assumes "idle_wal wal" "flushBatch [call_req ctx cmd args h] wal s (call_heap h) =
      Done (err, wal', s', resolve_all err [call_req ctx cmd args h] (call_heap h))"
  shows "lone_push ctx cmd args (wal, s, h) = Done (err, wal', s', answered_heap h)"
proof -
  obtain sealed wal1 where p: "push_locked ctx cmd args wal h = (call_req ctx cmd args h, sealed, wal1, call_heap h)"
    "sealed = [call_req ctx cmd args h] \<and> wal1 = wal \<or>
     sealed = [] \<and> wal_batch wal1 = [call_req ctx cmd args h] \<and> wal_batches wal1 = [] \<and>
       wal1\<lparr>wal_batch := [], wal_activeBatchVolume := 0\<rparr> = wal" by (rule push_idle [OF assms(1)])
  obtain wal2 where "push_send sealed wal1 = Done wal2"
    "\<And>s h'. flush_turn (wal2, s, h') = flushBatch [call_req ctx cmd args h] wal s h'"
    by (rule send_flush_idle [OF assms(1) p(2)]) blast
  with p(1) assms(2) wait_resolved show ?thesis by (simp add: lone_push_def)
qed

lemma lone_push_returns:
  assumes "world_ok w"
  shows "\<exists>err w'. lone_push ctx cmd args w = Done (err, w') \<and> world_ok w' \<and> ht_data (world_table w') =
    (if err = None then log_effect \<lparr>LSN = GetTxIDFromContext ctx, CommandID = cmd, Arguments = args\<rparr> (ht_data (world_table w))
     else ht_data (world_table w))"
proof -
  obtain wal s h where w: "w = (wal, s, h)" by (metis surj_pair)
  have ok: "idle_wal wal" "synced_ok s" "heap_wf h" using assms by (simp_all add: world_ok_def w)
  let ?r = "call_req ctx cmd args h"
  obtain err seg' s' where f: "flushBatch [?r] wal s (call_heap h) = Done (err, (if err = None then wal\<lparr>wal_segment := seg',
        wal_table := apply_logged (wal_commandHashTable wal) (sort_key LSN (map wr_log [?r])) (wal_table wal)\<rparr>
      else wal\<lparr>wal_segment := seg'\<rparr>), s', resolve_all err [?r] (call_heap h))" "synced_ok s'"
    by (rule flushBatch_cases [OF call_pending(1) [OF ok(3)] ok(2), of _ _ _ wal]) auto
  have "heap_wf (answered_heap h)" using ok(3) by (auto simp: heap_wf_def answered_heap_def less_Suc_eq)
  with ok f(2) lone_push_flush [OF ok(1) f(1)] show ?thesis
    by (auto simp: w world_ok_def idle_wal_def hash_apply_logged call_req_def simp del: apply_logged.simps)
qed

text \<open>When the segment takes the write, the call succeeds.\<close>

lemma lone_push_ok:
  assumes "world_ok (wal, s, h)" "wf_log \<lparr>LSN = GetTxIDFromContext ctx, CommandID = cmd, Arguments = args\<rparr>"
    and "\<And>data. \<exists>seg' s'. Segment_Write data (wal_segment wal) s = (None, seg', s')"
  shows "\<exists>w'. lone_push ctx cmd args (wal, s, h) = Done (None, w')"
proof -
  define rs where "rs = [call_req ctx cmd args h]"
  have "list_all wf_log (map wr_log rs)" using assms(2) by (simp add: rs_def call_req_def)
  note enc = encode_all_NewEncoder [OF this]
  obtain seg' s' where w: "Segment_Write (batch_stream (map wr_log rs)) (wal_segment wal) s = (None, seg', s')"
    using assms(3) by blast
  have "pending rs (call_heap h)" using assms(1) call_pending(1) by (simp add: rs_def world_ok_def)
  note notif = notification_pending [OF this, of None]
  have "rs \<noteq> []" by (simp add: rs_def)
  with enc w notif have "\<exists>wal'. flushBatch rs wal s (call_heap h) = Done (None, wal', s', resolve_all None rs (call_heap h))"
    by (simp add: flushBatch_def WalWriter_Write_def segment_writer_def)
  then show ?thesis using lone_push_flush [of wal ctx cmd args h s None _ s'] assms(1) by (auto simp: world_ok_def rs_def)
qed

lemma command_effects:
  "log_effect \<lparr>LSN = l, CommandID = CommandSetID, Arguments = [k, v]\<rparr> m = m(k := Some v)"
  "log_effect \<lparr>LSN = l, CommandID = CommandDelID, Arguments = [k]\<rparr> m = m(k := None)"
  by (simp_all add: log_effect_def CommandSetID_def CommandDelID_def)

interpretation wal: command_engine Wal_Set Wal_Del world_table world_ok
proof
  show "\<exists>err s'. Wal_Set ctx k v s = Done (err, s') \<and> world_ok s' \<and>
      ht_data (world_table s') = (if err = None then (ht_data (world_table s))(k := Some v) else ht_data (world_table s))"
    if "world_ok s" for s ctx k v
    using lone_push_returns [OF that, of ctx CommandSetID "[k, v]"] unfolding Wal_Set_def command_effects .
  show "\<exists>err s'. Wal_Del ctx k s = Done (err, s') \<and> world_ok s' \<and>
      ht_data (world_table s') = (if err = None then (ht_data (world_table s))(k := None) else ht_data (world_table s))"
    if "world_ok s" for s ctx k
    using lone_push_returns [OF that, of ctx CommandDelID "[k]"] unfolding Wal_Del_def command_effects .
qed


section \<open>The call is a run of the interleaved WAL\<close>

text \<open>The part of a state of the interleaved WAL that the sequential call works on.\<close>

definition at_world :: "rt \<Rightarrow> world \<Rightarrow> bool" where
  "at_world st w \<longleftrightarrow> (rt_wal st, rt_fs st, rt_heap st) = w"

lemma flush_turn_run:
  assumes "at_world st w" "rt_flusher st = FSelect" "flush_turn w = Done (err, w')"
  obtains st' where "flusher_step\<^sup>*\<^sup>* st st'" "at_world st' w'" "rt_flusher st' = FTop" "rt_clients st' = rt_clients st"
    "rt_cancelled st' = rt_cancelled st"
proof -
  obtain wal' s' h' where w': "w' = (wal', s', h')" by (metis surj_pair)
  obtain b wal1 where b: "flushBatch b wal1 (rt_fs st) (rt_heap st) = Done (err, wal', s', h')"
    "flusher_step st (begin_flush b ToTop (st\<lparr>rt_wal := wal1\<rparr>))"
  proof (cases "wal_batches (rt_wal st)")
    case Nil
    then have "flushBatch (wal_batch (rt_wal st)) (snd (SealBatch (rt_wal st))) (rt_fs st) (rt_heap st) = Done (err, wal', s', h')"
      using assms(1,3) by (auto simp: flush_turn_def at_world_def w' SealBatch_def)
    with that flusher_step.select_tick [OF assms(2)] show ?thesis by (simp add: SealBatch_def)
  next
    case (Cons b bs)
    have "flushBatch b ((rt_wal st)\<lparr>wal_batches := bs\<rparr>) (rt_fs st) (rt_heap st) = Done (err, wal', s', h')"
      using assms(1,3) Cons by (auto simp: flush_turn_def at_world_def w')
    with that flusher_step.select_batch [OF assms(2) Cons] show ?thesis by blast
  qed
  have "flushBatch b (rt_wal (st\<lparr>rt_wal := wal1\<rparr>)) (rt_fs (st\<lparr>rt_wal := wal1\<rparr>)) (rt_heap (st\<lparr>rt_wal := wal1\<rparr>)) =
      Done (err, wal', s', h')" using b(1) by simp
  from that [OF converse_rtranclp_into_rtranclp [OF b(2) flush_run [OF this, of ToTop]]]
  show thesis by (simp add: at_world_def w')
qed

text \<open>
  The sequential call is one of the schedules of the real system: from a state in which the flusher
  is at its select and a client is idle, the interleaved WAL has a run in which the client's \<^verbatim>\<open>push\<close>
  returns exactly the error, and leaves exactly the WAL, the files and the channels, that the sequential
  call computes.
\<close>

theorem lone_push_is_a_run:
  assumes "at_world st w" and "rt_flusher st = FSelect" and "i < length (rt_clients st)" and "rt_clients st ! i = CIdle"
    and "lone_push ctx cmd args w = Done (err, w')"
  shows "\<exists>st' r. rt_reachable st st' \<and> at_world st' w' \<and> rt_clients st' = (rt_clients st)[i := CReturned r err] \<and>
    wr_log r = \<lparr>LSN = GetTxIDFromContext ctx, CommandID = cmd, Arguments = args\<rparr>"
proof -
  obtain wal s h where w: "w = (wal, s, h)" "rt_wal st = wal" "rt_fs st = s" "rt_heap st = h"
    using assms(1) by (auto simp: at_world_def)
  obtain r sealed wal1 h1 where p: "push_locked ctx cmd args (rt_wal st) (rt_heap st) = (r, sealed, wal1, h1)" by (metis surj_pair)
  obtain wal2 e2 wal3 s3 h3 h4 where c: "push_send sealed wal1 = Done wal2" "flush_turn (wal2, s, h1) = Done (e2, wal3, s3, h3)"
    "push_wait r h3 = Done (err, h4)" "w' = (wal3, s3, h4)"
    using assms(5) p by (auto simp: lone_push_def w elim!: outcome_bind_DoneE)
  have r: "wr_log r = \<lparr>LSN = GetTxIDFromContext ctx, CommandID = cmd, Arguments = args\<rparr>"
    using p by (auto simp: push_locked_simp Let_def split: if_splits)
  let ?st1 = "set_client i (if sealed = [] then CWait r else CSend r sealed) (st\<lparr>rt_wal := wal1, rt_heap := h1\<rparr>)"
  let ?st2 = "set_client i (CWait r) (st\<lparr>rt_heap := h1, rt_wal := wal2\<rparr>)"
  have "rt_reachable st ?st1" by (rule rt_trans [OF rt_refl by_client [OF client_step.push [OF assms(3,4) p]]])
  moreover have "rt_reachable ?st1 ?st2"
  proof (cases "sealed = []")
    case True
    then have "?st1 = ?st2" using c(1) by (cases st) (simp add: push_send_def set_client_def)
    then show ?thesis by (metis rt_refl)
  next
    case False
    then have "client_step ?st1 (set_client i (CWait r) (?st1\<lparr>rt_wal := wal2\<rparr>))"
      using assms(3) c(1) by (intro client_step.send) (simp_all add: set_client_def)
    from rt_trans [OF rt_refl by_client [OF this]] False show ?thesis by (simp add: set_client_def)
  qed
  ultimately have "rt_reachable st ?st2" by (rule rt_reachable_trans [rotated])
  moreover have "at_world ?st2 (wal2, s, h1)" "rt_flusher ?st2 = FSelect"
    using assms(2) w by (simp_all add: at_world_def set_client_def)
  then obtain st3 where st3: "flusher_step\<^sup>*\<^sup>* ?st2 st3" "at_world st3 (wal3, s3, h3)" "rt_clients st3 = rt_clients ?st2"
    by (rule flush_turn_run [OF _ _ c(2)])
  ultimately have "rt_reachable st st3" using rt_reachable_trans [OF flusher_run_reachable] by blast
  moreover have "client_step st3 (set_client i (CReturned r err) (st3\<lparr>rt_heap := h4\<rparr>))"
    using assms(3) c(3) st3(2,3) by (intro client_step.wait) (auto simp: at_world_def set_client_def)
  ultimately have "rt_reachable st (set_client i (CReturned r err) (st3\<lparr>rt_heap := h4\<rparr>))" by (rule rt_trans [OF _ by_client])
  with st3 c(4) r show ?thesis by (intro exI conjI) (assumption, auto simp: at_world_def set_client_def)
qed


lemma run_world_ok: "world_ok (run_wal, demo_fs, empty_heap)"
  using run_wal_idle by (simp add: world_ok_def heap_wf_def empty_heap_def)

theorem lone_push_is_a_run_witness:
  "\<exists>err w' st' r. lone_push [] CommandSetID [''a'', ''1''] (run_wal, demo_fs, empty_heap) = Done (err, w') \<and>
    rt_reachable (rt_start 1 run_wal demo_fs\<lparr>rt_flusher := FSelect\<rparr>) st' \<and> at_world st' w' \<and> rt_clients st' = [CReturned r err]"
proof -
  let ?st = "rt_start 1 run_wal demo_fs\<lparr>rt_flusher := FSelect\<rparr>"
  from lone_push_returns [OF run_world_ok] obtain err w' where
    l: "lone_push [] CommandSetID [''a'', ''1''] (run_wal, demo_fs, empty_heap) = Done (err, w')" by blast
  have "at_world ?st (run_wal, demo_fs, empty_heap)" "rt_flusher ?st = FSelect" "0 < length (rt_clients ?st)" "rt_clients ?st ! 0 = CIdle"
    by (simp_all add: at_world_def rt_start_def)
  from lone_push_is_a_run [OF this l] l show ?thesis by (fastforce simp: rt_start_def)
qed

section \<open>The layers wired together\<close>

text \<open>The engine as the value of both storage interfaces, and the facade as the dispatcher's storage layer.\<close>

definition engine_methods :: "'s engine_state CommandStorage \<times> 's engine_state QueryStorage" where
  "engine_methods = (\<lparr>cs_Set = Engine_Set, cs_Del = Engine_Del\<rparr>, \<lparr>qs_Get = Engine_Get\<rparr>)"

definition storage_methods :: "'e Storage \<Rightarrow> 'e StorageLayer" where
  "storage_methods stg = \<lparr>sl_Set = Storage_Set stg, sl_Del = Storage_Del stg, sl_Get = Storage_Get stg\<rparr>"

text \<open>\<^verbatim>\<open>StartDatabase\<close> up to the server loop. The Unicode table of \<^verbatim>\<open>strings.ToUpper\<close> is the parameter \<open>up\<close>.\<close>

definition wire_database :: "upper_map \<Rightarrow> logger option \<Rightarrow> 's engine_state Database result" where
  "wire_database up log =
     (case NewCompute log of
        Inl err \<Rightarrow> Inl (Errorf ''failed to create compute layer'' None)
      | Inr compute \<Rightarrow>
          (case NewStorage log engine_methods of
             Inl err \<Rightarrow> Inl (Errorf ''failed to create storage layer'' None)
           | Inr storage \<Rightarrow>
               (case NewDatabase log (Some \<lparr>cl_ParseAndValidate = ParseAndValidate up\<rparr>) (Some (storage_methods storage)) of
                  Inl err \<Rightarrow> Inl (Errorf ''initialization.StartDatabase: failed to create database'' None)
                | Inr database \<Rightarrow> Inr database)))"

definition wal_methods :: "world CommandEngine" where
  "wal_methods = \<lparr>ce_Set = Wal_Set, ce_Del = Wal_Del\<rparr>"

lemma wire_database_Inr:
  "wire_database up (Some log) = Inr \<lparr>db_Compute = \<lparr>cl_ParseAndValidate = ParseAndValidate up\<rparr>,
     db_Storage = storage_methods (facade log Engine_Set Engine_Del Engine_Get), db_log = log\<rparr>"
  by (simp add: wire_database_def NewCompute_def NewStorage_def NewDatabase_def engine_methods_def facade_def)

interpretation svc: dispatcher "ParseAndValidate up" "Storage_Set (facade log Engine_Set Engine_Del Engine_Get)"
    "Storage_Del (facade log Engine_Set Engine_Del Engine_Get)" "Storage_Get (facade log Engine_Set Engine_Del Engine_Get)"
    "\<lambda>st. ht_data (world_table (snd st))" "engine_ok wal_methods world_table world_ok"
    "\<lparr>db_Compute = \<lparr>cl_ParseAndValidate = ParseAndValidate up\<rparr>,
       db_Storage = storage_methods (facade log Engine_Set Engine_Del Engine_Get), db_log = log\<rparr>" for up log
  unfolding wal_methods_def by unfold_locales (simp_all add: storage_methods_def)

definition service_ok :: "world engine_state \<Rightarrow> bool" where
  "service_ok = engine_ok wal_methods world_table world_ok"

lemma NewEngine_ok:
  "NewEngine (Some log) (Some wal_methods) (Some world_table) = Inr engine \<Longrightarrow> world_ok w \<Longrightarrow> service_ok (engine, w)"
  by (auto simp: NewEngine_def service_ok_def engine_ok_def NewIDGenerator_def)



text \<open>
  Read your writes, end to end: after a \<^verbatim>\<open>SET\<close> answered \<^verbatim>\<open>OK\<close> a \<^verbatim>\<open>GET\<close> of the key answers with the
  value; after one answered \<^verbatim>\<open>failed SET\<close> every \<^verbatim>\<open>GET\<close> answers as before it; and the answer is one of
  these two.
\<close>

theorem set_then_get:
  assumes "wire_database up (Some log) = Inr db" and "service_ok st"
    and "ParseAndValidate up setcmd = Inr [''SET'', k, v]" and "ParseAndValidate up getcmd = Inr [''GET'', l]"
  shows "\<exists>resp st'. DatabaseHandler db ctx setcmd st = Done (resp, st') \<and> service_ok st' \<and>
    (resp = ''OK'' \<and> (l = k \<longrightarrow> DatabaseHandler db ctx' getcmd st' = Done (''VALUE '' @ v, st')) \<or>
     resp = ''failed SET'' \<and> (\<exists>ans. DatabaseHandler db ctx' getcmd st = Done (ans, st) \<and> DatabaseHandler db ctx' getcmd st' = Done (ans, st')))"
proof -
  let ?view = "\<lambda>st :: world engine_state. ht_data (world_table (snd st))"
  have db: "db = \<lparr>db_Compute = \<lparr>cl_ParseAndValidate = ParseAndValidate up\<rparr>,
     db_Storage = storage_methods (facade log Engine_Set Engine_Del Engine_Get), db_log = log\<rparr>"
    using assms(1) by (simp add: wire_database_Inr)
  from svc.handler_refines [of st up log ctx setcmd] assms(2,3) obtain resp st' failed where
    s: "DatabaseHandler db ctx setcmd st = Done (resp, st')" "service_ok st'"
      "exec_spec [''SET'', k, v] failed (?view st) = (resp, ?view st')"
    by (auto simp: db service_ok_def tokens_of_def simp del: exec_spec.simps)
  have get: "DatabaseHandler db ctx' getcmd st1 = Done ((case ?view st1 l of None \<Rightarrow> ''NOT_FOUND'' | Some x \<Rightarrow> ''VALUE '' @ x), st1)"
    if "service_ok st1" for st1
    using svc.sget_view [of st1 log ctx' l] that assms(4)
    by (auto simp: db DatabaseHandler_def handleGet_def token_at_def command_consts storage_methods_def service_ok_def
        facade_def split: option.splits)
  show ?thesis
  proof (cases failed)
    case True
    then have "resp = ''failed SET''" "?view st' = ?view st" using s(3) by simp_all
    with s(1,2) get [OF assms(2)] get [OF s(2)] show ?thesis by auto
  next
    case False
    then have "resp = ''OK''" "?view st' = (?view st)(k := Some v)" using s(3) by simp_all
    with s(1,2) get [OF s(2)] show ?thesis by auto
  qed
qed

theorem set_then_get_witness:
  "\<exists>db engine resp st'. wire_database ascii_upper_images (Some DiscardLogger) = Inr db \<and>
    service_ok (engine, run_wal, demo_fs, empty_heap) \<and>
    DatabaseHandler db [] ''set k v'' (engine, run_wal, demo_fs, empty_heap) = Done (resp, st') \<and> service_ok st' \<and>
    (resp = ''OK'' \<and> DatabaseHandler db [] ''get k'' st' = Done (''VALUE '' @ ''v'', st') \<or> resp = ''failed SET'')"
proof -
  obtain db :: "world engine_state Database" where d: "wire_database ascii_upper_images (Some DiscardLogger) = Inr db"
    using wire_database_Inr by blast
  obtain engine where "NewEngine (Some DiscardLogger) (Some wal_methods) (Some world_table) = Inr engine"
    by (simp add: NewEngine_def)
  note ok = NewEngine_ok [OF this run_world_ok]
  have "ParseAndValidate ascii_upper_images ''set k v'' = Inr [''SET'', ''k'', ''v'']"
    "ParseAndValidate ascii_upper_images ''get k'' = Inr [''GET'', ''k'']" by (simp_all add: parse_eval)
  from set_then_get [OF d ok this, of "[]" "[]"] d ok show ?thesis by blast
qed

end
