(* ===== verification/Wal_Order.thy ===== *)
theory Wal_Order
  imports Wal_Progress "HOL-Library.Sublist"
begin

text \<open>
  The order of application: what the flusher has written and what it has applied advance together, batch
  by batch and inside a batch by LSN, and where every request of the interleaved WAL is.
\<close>

section \<open>The serialisation order\<close>

text \<open>The records of the written batches in the order in which the flusher applies them.\<close>

definition serial :: "rt \<Rightarrow> WriteRequest list" where
  "serial st = concat (map (sort_key (LSN \<circ> wr_log)) (rt_written st))"

text \<open>What the flusher has written but not applied yet.\<close>

fun flusher_owes :: "flusher \<Rightarrow> WriteRequest list" where
  "flusher_owes (FNotify None rs b after) = sort_key (LSN \<circ> wr_log) b"
| "flusher_owes (FApply rs after) = rs"
| "flusher_owes _ = []"

definition order_inv :: "rt \<Rightarrow> bool" where
  "order_inv st \<longleftrightarrow> serial st = rt_applied st @ flusher_owes (rt_flusher st)"

lemma flusher_owes_resume [simp]: "flusher_owes (resume after) = []"
  by (cases after) simp_all

lemma begin_flush_order: "order_inv st \<Longrightarrow> flusher_owes (rt_flusher st) = [] \<Longrightarrow> order_inv (begin_flush b after st)"
  by (auto simp: order_inv_def serial_def begin_flush_def split: option.splits prod.splits)

lemma order_inv_wal: "order_inv (st\<lparr>rt_wal := wal\<rparr>) = order_inv st"
  by (simp add: order_inv_def serial_def)

lemma flusher_step_order: "flusher_step st st' \<Longrightarrow> order_inv st \<Longrightarrow> order_inv st'"
proof (induction rule: flusher_step.induct)
  case (notify st err r rs b after p h')
  then show ?case by (cases err) (simp_all add: order_inv_def serial_def)
qed (auto simp: order_inv_wal intro!: begin_flush_order, auto simp: order_inv_def serial_def apply_one_def)

lemma client_step_frame:
  "client_step st st' \<Longrightarrow> rt_written st' = rt_written st \<and> rt_applied st' = rt_applied st \<and> rt_flusher st' = rt_flusher st \<and>
     rt_fs st' = rt_fs st \<and> rt_cancelled st' = rt_cancelled st \<and> length (rt_clients st') = length (rt_clients st)"
  by (erule client_step.cases) (simp_all add: set_client_def)

lemma order_inv_step: "rt_step st st' \<Longrightarrow> order_inv st \<Longrightarrow> order_inv st'"
  by (erule rt_step.cases) (auto simp: order_inv_def serial_def dest!: client_step_frame dest: flusher_step_order [unfolded order_inv_def serial_def])

lemma order_inv_start: "order_inv (rt_start n wal s)"
  by (simp add: order_inv_def serial_def rt_start_def)

section \<open>What a step of the flusher moves\<close>

definition moves :: "rt \<Rightarrow> rt \<Rightarrow> bool" where
  "moves st st' \<longleftrightarrow> rt_clients st' = rt_clients st \<and> ch_next (rt_heap st') = ch_next (rt_heap st) \<and>
     prefix (rt_applied st) (rt_applied st') \<and> set (places st') \<subseteq> set (places st) \<and>
     (\<exists>ws. rt_written st' = rt_written st @ ws \<and> set (concat ws) \<subseteq> set (places st))"

lemma begin_flush_moves:
  assumes "flusher_todo (rt_flusher st) = []"
    "set (wal_batch wal1) \<union> set (concat (wal_batches wal1)) \<union> set b \<subseteq> set (wal_batch (rt_wal st)) \<union> set (concat (wal_batches (rt_wal st)))"
  shows "moves st (begin_flush b after (st\<lparr>rt_wal := wal1\<rparr>))"
proof -
  let ?st = "begin_flush b after (st\<lparr>rt_wal := wal1\<rparr>)"
  have "set b \<subseteq> set (places st)" using assms(2) by (auto simp: places_def parked_def)
  moreover have "rt_written ?st = rt_written st @ [] \<or> rt_written ?st = rt_written st @ [b]"
    by (auto simp: begin_flush_def split: option.splits prod.splits)
  ultimately have "\<exists>ws. rt_written ?st = rt_written st @ ws \<and> set (concat ws) \<subseteq> set (places st)" by auto
  moreover have "set (places ?st) \<subseteq> set (places st)"
    using assms by (auto simp: begin_flush_def places_def parked_def split: option.splits prod.splits)
  ultimately show ?thesis
    unfolding moves_def by (auto simp: begin_flush_def split: option.splits prod.splits)
qed

lemma Promise_Set_next: "Promise_Set v p h = Done (p', h') \<Longrightarrow> ch_next h' = ch_next h"
  by (auto simp: Promise_Set_def chan_send_def chan_close_def Let_def split: if_splits option.splits outcome.splits)

lemma flusher_step_moves: "flusher_step st st' \<Longrightarrow> moves st st'"
proof (induction rule: flusher_step.induct)
  case (notify st err r rs b after p h')
  then show ?case by (auto simp: moves_def places_def parked_def dest: Promise_Set_next)
next
  case (apply_next st r rs after)
  then show ?case by (simp add: moves_def places_def parked_def apply_one_def)
qed (auto simp: SealBatch_def intro!: begin_flush_moves, auto simp: moves_def places_def parked_def)

lemma rt_step_written_grows: "rt_step st st' \<Longrightarrow> prefix (rt_written st) (rt_written st') \<and> prefix (rt_applied st) (rt_applied st')"
  by (erule rt_step.cases) (auto simp: moves_def dest!: client_step_frame flusher_step_moves)

section \<open>Every record is written once\<close>

definition written_once :: "rt \<Rightarrow> bool" where
  "written_once st \<longleftrightarrow> distinct (map rid (concat (rt_written st)))"

lemma begin_flush_once:
  assumes "rt_inv m0 st" "written_once st" "flusher_todo (rt_flusher st) = []"
    "mset b \<subseteq># mset (wal_batch (rt_wal st)) + mset (concat (wal_batches (rt_wal st)))"
  shows "written_once (begin_flush b after (st\<lparr>rt_wal := wal1\<rparr>))"
proof -
  have p: "pending (places st) (rt_heap st)" "rid ` set (parked st) \<inter> written_ids st = {}"
    using assms(1) by (simp_all add: rt_inv_def requests_inv_def)
  have sub: "mset b \<subseteq># mset (parked st)"
    using subset_mset.order_trans [OF assms(4) mset_subset_eq_add_left, of "mset (concat (map client_sealed (rt_clients st)))"]
    by (simp add: parked_def add.assoc del: mset_concat)
  then have "mset b \<subseteq># mset (places st)" using assms(3) by (simp add: places_def)
  from pending_sub [OF this p(1)] have "distinct (map rid b)" by (simp add: pending_def comp_def)
  moreover have "set b \<subseteq> set (parked st)" using sub by (metis set_mset_mono set_mset_mset)
  then have "rid ` set b \<inter> written_ids st = {}" using p(2) by blast
  ultimately have "distinct (map rid (concat (rt_written st @ [b])))"
    using assms(2) by (auto simp: written_once_def written_ids_def)
  with assms(2) show ?thesis
    by (auto simp: written_once_def begin_flush_def split: option.splits prod.splits)
qed

lemma written_once_step:
  assumes "rt_step st st'" "rt_inv m0 st" "written_once st"
  shows "written_once st'"
  using assms(1)
proof cases
  case by_client
  with client_step_frame [OF this] assms(3) show ?thesis by (simp add: written_once_def)
next
  case by_flusher
  then show ?thesis
    using assms(2,3)
    by cases (auto simp: SealBatch_def intro!: begin_flush_once, auto simp: written_once_def apply_one_def)
qed (use assms(3) in \<open>simp add: written_once_def\<close>)

lemma serial_mset: "mset (serial st) = mset (concat (rt_written st))"
proof -
  have "mset (concat (map (sort_key f) bs)) = mset (concat bs)" for bs and f :: "WriteRequest \<Rightarrow> int"
    by (induction bs) (simp_all del: mset_concat)
  then show ?thesis by (simp add: serial_def)
qed

lemma serial_distinct: "written_once st \<Longrightarrow> distinct (map rid (serial st))"
  using serial_mset [of st] mset_eq_imp_distinct_iff [of "map rid (serial st)" "map rid (concat (rt_written st))"]
  by (simp add: written_once_def del: mset_concat)

lemma serial_grows: "prefix (rt_written st) (rt_written st') \<Longrightarrow> prefix (serial st) (serial st')"
  by (auto simp: serial_def prefix_def)

text \<open>With different LSNs a batch has one arrangement by LSN: an unstable sort gives it too.\<close>

lemma sorted_arrangement_unique:
  assumes "mset xs = mset b" "sorted (map f xs)" "distinct (map f b)"
  shows "xs = sort_key f b"
proof (rule sym, rule properties_for_sort_key)
  show "mset xs = mset b" by (rule assms(1))
  show "filter (\<lambda>x. f k = f x) xs = filter (\<lambda>x. f k = f x) b" if "k \<in> set xs" for k
  proof -
    have one: "filter (\<lambda>x. f k = f x) ys = [k]" if "distinct (map f ys)" "k \<in> set ys" for ys
      using that
    proof (induction ys)
      case (Cons y ys)
      then have "k \<noteq> y \<Longrightarrow> f k \<noteq> f y" by (metis distinct.simps(2) image_eqI list.set_map list.simps(9) set_ConsD)
      with Cons show ?case by (cases "k = y") (auto simp: filter_empty_conv)
    qed simp
    have "distinct (map f xs)" "k \<in> set b"
      using assms(1,3) that mset_eq_imp_distinct_iff [of "map f xs" "map f b"] mset_eq_setD by auto
    with one [of xs] one [of b] assms(3) that show ?thesis by simp
  qed
qed (rule assms(2))

end
