(* ===== verification/Server_Runtime.thy ===== *)
theory Server_Runtime
  imports Service Wal_Order
begin

text \<open>
  The running server: any number of connection goroutines inside \<^verbatim>\<open>DatabaseHandler\<close>, through the facade, the
  engine and its generator into \<^verbatim>\<open>Wal.push\<close>, interleaved with each other, with the flusher and with
  cancellation. \<open>Service\<close> follows one request at a time; here a request is a sequence of atomic steps.
\<close>

section \<open>What a request does before and after its write\<close>

text \<open>The two write calls a request can make.\<close>

datatype wcall = WSet string string | WDel string

fun write_log :: "wcall \<Rightarrow> int64 \<Rightarrow> Log" where
  "write_log (WSet k v) lsn = \<lparr>LSN = lsn, CommandID = CommandSetID, Arguments = [k, v]\<rparr>"
| "write_log (WDel k) lsn = \<lparr>LSN = lsn, CommandID = CommandDelID, Arguments = [k]\<rparr>"

text \<open>The critical section of \<^verbatim>\<open>Wal.Set\<close> or \<^verbatim>\<open>Wal.Del\<close>.\<close>

fun write_locked :: "wcall \<Rightarrow> ctx \<Rightarrow> 't Wal \<Rightarrow> heap \<Rightarrow> WriteRequest \<times> WriteRequest list \<times> 't Wal \<times> heap" where
  "write_locked (WSet k v) ctx = Wal_Set_locked ctx k v"
| "write_locked (WDel k) ctx = Wal_Del_locked ctx k"

text \<open>
  The layers above the WAL run over a \<^verbatim>\<open>CommandEngine\<close> that notes the write it is asked for and answers
  \<open>err\<close>: this tells, from the same definitions of dispatcher, facade and engine, which write a request
  leads to, and how it is answered once the write has returned \<open>err\<close>. Reads go to the table as it is.
\<close>

definition noting :: "go_error option \<Rightarrow> wcall list CommandEngine" where
  "noting err = \<lparr>ce_Set = (\<lambda>ctx k v ws. Done (err, ws @ [WSet k v])), ce_Del = (\<lambda>ctx k ws. Done (err, ws @ [WDel k]))\<rparr>"

definition noting_engine :: "logger \<Rightarrow> HashTable \<Rightarrow> go_error option \<Rightarrow> wcall list Engine" where
  "noting_engine log t err = \<lparr>eng_log = log, eng_currentLSN = NewIDGenerator 0, eng_commandEngine = noting err,
     eng_queryEngine = \<lparr>qe_hashTable = (\<lambda>_. t)\<rparr>\<rparr>"

definition handle_with ::
    "wcall list engine_state Database \<Rightarrow> ctx \<Rightarrow> HashTable \<Rightarrow> go_error option \<Rightarrow> string \<Rightarrow> (string \<times> wcall list) outcome" where
  "handle_with db ctx t err raw =
     outcome_bind (DatabaseHandler db ctx raw (noting_engine (db_log db) t err, [])) (\<lambda>(resp, _, ws). Done (resp, ws))"

section \<open>The steps\<close>

text \<open>
  Where a connection goroutine is: reading the next request, in \<^verbatim>\<open>Generate\<close> before its compare-and-swap and
  before its addition, about to enter \<^verbatim>\<open>push\<close> with its LSN, or in \<^verbatim>\<open>push\<close>, where the WAL's client of the same
  index says how far it is.
\<close>

datatype handler =
    HIdle
  | HCas string wcall
  | HAdd string wcall
  | HCall string wcall "64 word"
  | HPush string wcall "64 word"

text \<open>An answer sent, with two notes no step reads: the request it was for, and how many records had been applied.\<close>

record reply =
  rp_raw :: string
  rp_resp :: string
  rp_reqs :: "WriteRequest list"
  rp_seen :: nat

record server =
  sv_rt :: rt
  sv_gen :: IDGenerator
  sv_handlers :: "handler list"
  sv_calls :: nat
  sv_replies :: "reply list"

abbreviation sv_table :: "server \<Rightarrow> HashTable" where
  "sv_table st \<equiv> wal_table (rt_wal (sv_rt st))"

definition goto :: "nat \<Rightarrow> handler \<Rightarrow> server \<Rightarrow> server" where
  "goto i pc st = st\<lparr>sv_handlers := (sv_handlers st)[i := pc]\<rparr>"

definition respond :: "nat \<Rightarrow> string \<Rightarrow> string \<Rightarrow> WriteRequest list \<Rightarrow> server \<Rightarrow> server" where
  "respond i raw resp rs st = (goto i HIdle st)\<lparr>sv_replies := sv_replies st @
     [\<lparr>rp_raw = raw, rp_resp = resp, rp_reqs = rs, rp_seen = length (rt_applied (sv_rt st))\<rparr>]\<rparr>"

definition lsn_context :: "ctx \<Rightarrow> 64 word \<Rightarrow> ctx" where
  "lsn_context ctx txID = WithValue ctx TxIDKey (StringVal (FormatInt (sint txID)))"

inductive server_step :: "wcall list engine_state Database \<Rightarrow> ctx \<Rightarrow> server \<Rightarrow> server \<Rightarrow> bool" for db ctx where
  read: "i < length (sv_handlers st) \<Longrightarrow> sv_handlers st ! i = HIdle \<Longrightarrow>
    handle_with db ctx (sv_table st) None raw = Done (resp, []) \<Longrightarrow> server_step db ctx st (respond i raw resp [] st)"
| enter: "i < length (sv_handlers st) \<Longrightarrow> sv_handlers st ! i = HIdle \<Longrightarrow>
    handle_with db ctx (sv_table st) None raw = Done (resp, [w]) \<Longrightarrow> server_step db ctx st (goto i (HCas raw w) st)"
| cas: "i < length (sv_handlers st) \<Longrightarrow> sv_handlers st ! i = HCas raw w \<Longrightarrow>
    server_step db ctx st (goto i (HAdd raw w) (st\<lparr>sv_gen := gen_CompareAndSwap (sv_gen st)\<rparr>))"
| add: "i < length (sv_handlers st) \<Longrightarrow> sv_handlers st ! i = HAdd raw w \<Longrightarrow> gen_Add (sv_gen st) = (txID, gen') \<Longrightarrow> txID \<noteq> 0 \<Longrightarrow>
    server_step db ctx st (goto i (HCall raw w txID) (st\<lparr>sv_gen := gen', sv_calls := Suc (sv_calls st)\<rparr>))"
| no_lsn: "i < length (sv_handlers st) \<Longrightarrow> sv_handlers st ! i = HAdd raw w \<Longrightarrow> gen_Add (sv_gen st) = (txID, gen') \<Longrightarrow> txID = 0 \<Longrightarrow>
    handle_with db ctx (sv_table st) (Some InMemory_ErrFailedGenerateLSN) raw = Done (resp, ws) \<Longrightarrow>
    server_step db ctx st (respond i raw resp [] (st\<lparr>sv_gen := gen', sv_calls := Suc (sv_calls st)\<rparr>))"
| push: "i < length (sv_handlers st) \<Longrightarrow> sv_handlers st ! i = HCall raw w txID \<Longrightarrow>
    write_locked w (lsn_context ctx txID) (rt_wal (sv_rt st)) (rt_heap (sv_rt st)) = (r, sealed, wal', h') \<Longrightarrow>
    server_step db ctx st (goto i (HPush raw w txID)
      (st\<lparr>sv_rt := set_client i (if sealed = [] then CWait r else CSend r sealed) ((sv_rt st)\<lparr>rt_wal := wal', rt_heap := h'\<rparr>)\<rparr>))"
| send: "i < length (sv_handlers st) \<Longrightarrow> rt_clients (sv_rt st) ! i = CSend r sealed \<Longrightarrow> push_send sealed (rt_wal (sv_rt st)) = Done wal' \<Longrightarrow>
    server_step db ctx st (st\<lparr>sv_rt := set_client i (CWait r) ((sv_rt st)\<lparr>rt_wal := wal'\<rparr>)\<rparr>)"
| wait: "i < length (sv_handlers st) \<Longrightarrow> rt_clients (sv_rt st) ! i = CWait r \<Longrightarrow> push_wait r (rt_heap (sv_rt st)) = Done (err, h') \<Longrightarrow>
    server_step db ctx st (st\<lparr>sv_rt := set_client i (CReturned r err) ((sv_rt st)\<lparr>rt_heap := h'\<rparr>)\<rparr>)"
| return: "i < length (sv_handlers st) \<Longrightarrow> sv_handlers st ! i = HPush raw w txID \<Longrightarrow> rt_clients (sv_rt st) ! i = CReturned r err \<Longrightarrow>
    handle_with db ctx (sv_table st) err raw = Done (resp, ws) \<Longrightarrow>
    server_step db ctx st (respond i raw resp [r] (st\<lparr>sv_rt := set_client i CIdle (sv_rt st)\<rparr>))"
| flush: "flusher_step (sv_rt st) rt' \<Longrightarrow> server_step db ctx st (st\<lparr>sv_rt := rt'\<rparr>)"
| shutdown: "server_step db ctx st (st\<lparr>sv_rt := (sv_rt st)\<lparr>rt_cancelled := True\<rparr>\<rparr>)"

definition server_start :: "nat \<Rightarrow> HashTable Wal \<Rightarrow> fs \<Rightarrow> server" where
  "server_start n wal s = \<lparr>sv_rt = rt_start n wal s, sv_gen = NewIDGenerator 0, sv_handlers = replicate n HIdle, sv_calls = 0, sv_replies = []\<rparr>"

inductive server_reachable :: "wcall list engine_state Database \<Rightarrow> ctx \<Rightarrow> server \<Rightarrow> server \<Rightarrow> bool" for db ctx st0 where
  sv_refl: "server_reachable db ctx st0 st0"
| sv_trans: "server_reachable db ctx st0 st \<Longrightarrow> server_step db ctx st st' \<Longrightarrow> server_reachable db ctx st0 st'"

section \<open>The layers above the WAL\<close>

fun write_of :: "string list \<Rightarrow> wcall option" where
  "write_of [cmd, k] = (if cmd = ''DEL'' then Some (WDel k) else None)"
| "write_of [cmd, k, v] = (if cmd = ''SET'' then Some (WSet k v) else None)"
| "write_of _ = None"

lemma noting_calls:
  "Engine_Set ctx k v (noting_engine log t err, ws) = Done (err, next_lsn (noting_engine log t err), ws @ [WSet k v])"
  "Engine_Del ctx k (noting_engine log t err, ws) = Done (err, next_lsn (noting_engine log t err), ws @ [WDel k])"
  "Engine_Get ctx k (noting_engine log t err, ws) = (case ht_data t k of None \<Rightarrow> Inl Storage_ErrKeyNotFound | Some v \<Rightarrow> Inr v)"
proof -
  have g: "0 \<le> sint (counter (eng_currentLSN (noting_engine log t err)))" by (simp add: noting_engine_def NewIDGenerator_def)
  show "Engine_Set ctx k v (noting_engine log t err, ws) = Done (err, next_lsn (noting_engine log t err), ws @ [WSet k v])"
    "Engine_Del ctx k (noting_engine log t err, ws) = Done (err, next_lsn (noting_engine log t err), ws @ [WDel k])"
    unfolding Engine_writes(1,2) [OF g] by (simp_all add: noting_engine_def noting_def)
  show "Engine_Get ctx k (noting_engine log t err, ws) = (case ht_data t k of None \<Rightarrow> Inl Storage_ErrKeyNotFound | Some v \<Rightarrow> Inr v)"
    by (simp add: noting_engine_def Engine_Get_def HashTable_Get_def split: option.splits)
qed

lemma handle_with_spec:
  assumes "wire_database up (Some log) = Inr db"
  shows "handle_with db ctx t err raw =
    Done (fst (exec_spec (tokens_of (ParseAndValidate up) raw) (err \<noteq> None) (ht_data t)),
      case write_of (tokens_of (ParseAndValidate up) raw) of None \<Rightarrow> [] | Some w \<Rightarrow> [w])"
proof -
  have db: "db = \<lparr>db_Compute = \<lparr>cl_ParseAndValidate = ParseAndValidate up\<rparr>,
     db_Storage = storage_methods (facade log Engine_Set Engine_Del Engine_Get), db_log = log\<rparr>"
    using assms by (simp add: wire_database_Inr)
  show ?thesis
  proof (cases "ParseAndValidate up raw")
    case (Inl e)
    then show ?thesis by (simp add: handle_with_def db DatabaseHandler_def tokens_of_def)
  next
    case (Inr tokens)
    with pv.parse_nonempty obtain cmd args where "tokens = cmd # args" by (cases tokens) auto
    then show ?thesis using Inr
      by (auto simp: handle_with_def db DatabaseHandler_def tokens_of_def token_at_def command_consts handleSet_def handleGet_def
          handleDel_def storage_methods_def Storage_passes_on facade_def noting_calls split: list.splits option.splits)
  qed
qed

section \<open>The invariants\<close>

text \<open>The request of a client, and a handler together with its client.\<close>

fun client_reqs :: "client \<Rightarrow> WriteRequest list" where
  "client_reqs CIdle = []"
| "client_reqs (CSend r sealed) = [r]"
| "client_reqs (CWait r) = [r]"
| "client_reqs (CReturned r err) = [r]"

fun handler_ok :: "upper_map \<Rightarrow> handler \<Rightarrow> client \<Rightarrow> bool" where
  "handler_ok up HIdle c \<longleftrightarrow> c = CIdle"
| "handler_ok up (HCas raw w) c \<longleftrightarrow> c = CIdle \<and> write_of (tokens_of (ParseAndValidate up) raw) = Some w"
| "handler_ok up (HAdd raw w) c \<longleftrightarrow> c = CIdle \<and> write_of (tokens_of (ParseAndValidate up) raw) = Some w"
| "handler_ok up (HCall raw w txID) c \<longleftrightarrow> c = CIdle \<and> write_of (tokens_of (ParseAndValidate up) raw) = Some w"
| "handler_ok up (HPush raw w txID) c \<longleftrightarrow> write_of (tokens_of (ParseAndValidate up) raw) = Some w \<and>
     map wr_log (client_reqs c) = [write_log w (sint txID)]"

definition handlers_inv :: "upper_map \<Rightarrow> server \<Rightarrow> bool" where
  "handlers_inv up st \<longleftrightarrow> list_all2 (handler_ok up) (sv_handlers st) (rt_clients (sv_rt st))"

text \<open>The requests made so far: answered, or in the hands of a client.\<close>

definition answered :: "server \<Rightarrow> WriteRequest list" where
  "answered st = concat (map rp_reqs (sv_replies st))"

definition inflight :: "server \<Rightarrow> WriteRequest list" where
  "inflight st = concat (map client_reqs (rt_clients (sv_rt st)))"

definition issued :: "server \<Rightarrow> WriteRequest list" where
  "issued st = answered st @ inflight st"

definition issued_inv :: "server \<Rightarrow> bool" where
  "issued_inv st \<longleftrightarrow> mset (map rid (issued st)) = mset [0..<ch_next (rt_heap (sv_rt st))] \<and>
     set (places (sv_rt st)) \<subseteq> set (inflight st) \<and> set (concat (rt_written (sv_rt st))) \<subseteq> set (issued st)"

text \<open>The LSNs handed out so far: in a request, or with a handler that has not called the WAL yet.\<close>

fun handler_lsn :: "handler \<Rightarrow> int64 list" where
  "handler_lsn (HCall raw w txID) = [sint txID]"
| "handler_lsn _ = []"

definition tickets :: "server \<Rightarrow> int64 list" where
  "tickets st = map (LSN \<circ> wr_log) (issued st) @ concat (map handler_lsn (sv_handlers st))"

definition lsn_inv :: "server \<Rightarrow> bool" where
  "lsn_inv st \<longleftrightarrow> (sv_calls st < 2 ^ 63 - 1 \<longrightarrow> counter (sv_gen st) = of_nat (sv_calls st) \<and>
     mset (tickets st) = mset (map int [1..<Suc (sv_calls st)]))"

text \<open>
  An answer is right: it is what the specification answers on the records applied when it was given, and
  a write is acknowledged if its record is written, and fails if it is not.
\<close>

definition fate_ok :: "rt \<Rightarrow> wcall option \<Rightarrow> bool \<Rightarrow> WriteRequest list \<Rightarrow> bool" where
  "fate_ok st wo failed rs \<longleftrightarrow> (case wo of
       None \<Rightarrow> rs = []
     | Some w \<Rightarrow> if failed then rid ` set rs \<inter> written_ids st = {}
         else \<exists>r lsn. rs = [r] \<and> wr_log r = write_log w lsn \<and> r \<in> set (concat (rt_written st)))"

definition reply_ok :: "upper_map \<Rightarrow> (string \<Rightarrow> string option) \<Rightarrow> rt \<Rightarrow> reply \<Rightarrow> bool" where
  "reply_ok up m0 st rp \<longleftrightarrow> rp_seen rp \<le> length (rt_applied st) \<and>
     (\<exists>failed. rp_resp rp = fst (exec_spec (tokens_of (ParseAndValidate up) (rp_raw rp)) failed
         (replay (map wr_log (take (rp_seen rp) (rt_applied st))) m0)) \<and>
       fate_ok st (write_of (tokens_of (ParseAndValidate up) (rp_raw rp))) failed (rp_reqs rp))"

definition replies_inv :: "upper_map \<Rightarrow> (string \<Rightarrow> string option) \<Rightarrow> server \<Rightarrow> bool" where
  "replies_inv up m0 st \<longleftrightarrow> sorted (map rp_seen (sv_replies st)) \<and> (\<forall>rp \<in> set (sv_replies st). reply_ok up m0 (sv_rt st) rp)"

definition server_inv :: "upper_map \<Rightarrow> (string \<Rightarrow> string option) \<Rightarrow> server \<Rightarrow> bool" where
  "server_inv up m0 st \<longleftrightarrow> handlers_inv up st \<and> rt_inv m0 (sv_rt st) \<and> order_inv (sv_rt st) \<and> written_once (sv_rt st) \<and>
     issued_inv st \<and> lsn_inv st \<and> replies_inv up m0 st"

section \<open>The WAL under the server is the interleaved WAL\<close>

lemma write_locked_push:
  "write_locked w ctx = push_locked ctx (CommandID (write_log w 0)) (Arguments (write_log w 0))"
  by (cases w) (simp_all add: Wal_Set_locked_def Wal_Del_locked_def)

lemma write_locked_log:
  "write_locked w ctx wal h = (r, sealed, wal', h') \<Longrightarrow> wr_log r = write_log w (GetTxIDFromContext ctx)"
  by (cases w) (auto simp: write_locked_push push_locked_simp Let_def split: if_splits)

lemma handlers_invD:
  "handlers_inv up st \<Longrightarrow> i < length (sv_handlers st) \<Longrightarrow> handler_ok up (sv_handlers st ! i) (rt_clients (sv_rt st) ! i)"
  "handlers_inv up st \<Longrightarrow> length (rt_clients (sv_rt st)) = length (sv_handlers st)"
  by (auto simp: handlers_inv_def list_all2_conv_all_nth)

text \<open>Every step of the server leaves the WAL as it is or is one step of the interleaved WAL.\<close>

lemma server_step_rt:
  assumes "server_step db ctx st st'" "handlers_inv up st"
  shows "sv_rt st' = sv_rt st \<or> rt_step (sv_rt st) (sv_rt st')"
  using assms(1)
proof cases
  case (push i raw w txID r sealed wal' h')
  then have "rt_clients (sv_rt st) ! i = CIdle" "i < length (rt_clients (sv_rt st))"
    using handlers_invD [OF assms(2)] by fastforce+
  from client_step.push [OF this(2,1) push(4) [unfolded write_locked_push]] push(1) show ?thesis
    by (simp add: goto_def by_client)
next
  case (send i r sealed wal')
  with handlers_invD(2) [OF assms(2)] show ?thesis by (auto intro!: by_client client_step.send)
next
  case (wait i r err h')
  with handlers_invD(2) [OF assms(2)] show ?thesis by (auto intro!: by_client client_step.wait)
next
  case (return i raw w txID r err resp ws)
  with handlers_invD(2) [OF assms(2)] show ?thesis
    by (auto simp: respond_def goto_def intro!: by_client client_step.again)
qed (auto simp: respond_def goto_def intro: by_flusher cancel)

lemma handlers_inv_update:
  "handlers_inv up st \<Longrightarrow> sv_handlers st' = (sv_handlers st)[i := pc] \<Longrightarrow> rt_clients (sv_rt st') = (rt_clients (sv_rt st))[i := c] \<Longrightarrow>
   handler_ok up pc c \<Longrightarrow> handlers_inv up st'"
  by (simp add: handlers_inv_def list_all2_update_cong)

lemma handlers_inv_goto:
  assumes "handlers_inv up st" "sv_handlers st' = (sv_handlers st)[i := pc]" "rt_clients (sv_rt st') = rt_clients (sv_rt st)"
    and "handler_ok up pc (rt_clients (sv_rt st) ! i)"
  shows "handlers_inv up st'"
  by (rule handlers_inv_update [OF assms(1,2) _ assms(4)]) (simp add: assms(3))

lemma handlers_inv_clients:
  assumes "handlers_inv up st" "sv_handlers st' = sv_handlers st" "rt_clients (sv_rt st') = (rt_clients (sv_rt st))[i := c]"
    and "client_reqs c = client_reqs (rt_clients (sv_rt st) ! i)" "client_reqs c \<noteq> []" "i < length (sv_handlers st)"
  shows "handlers_inv up st'"
proof (rule handlers_inv_update [OF assms(1) _ assms(3)])
  have "handler_ok up (sv_handlers st ! i) (rt_clients (sv_rt st) ! i)" using handlers_invD(1) [OF assms(1,6)] .
  with assms(4,5) show "handler_ok up (sv_handlers st ! i) c" by (cases "sv_handlers st ! i") auto
qed (simp add: assms(2))

lemma sint_range [simp]: "int64_range (sint (x :: 64 word))"
  using sint_lt [of x] sint_ge [of x] by (simp add: int64_range_def)

lemma GetTxID_lsn_context [simp]: "GetTxIDFromContext (lsn_context ctx txID) = sint txID"
  by (simp add: lsn_context_def)

lemma handlers_inv_step:
  assumes "server_step db ctx st st'" "handlers_inv up st" "wire_database up (Some log) = Inr db"
  shows "handlers_inv up st'"
proof -
  note spec = handle_with_spec [OF assms(3)] and old = handlers_invD(1) [OF assms(2)]
  from assms(1) show ?thesis
  proof cases
    case (read i raw resp)
    with old [of i] show ?thesis
      by (intro handlers_inv_goto [OF assms(2), of _ i HIdle]) (auto simp: respond_def goto_def)
  next
    case (enter i raw resp w)
    with old [of i] show ?thesis
      by (intro handlers_inv_goto [OF assms(2), of _ i "HCas raw w"]) (auto simp: goto_def spec split: option.splits)
  next
    case (cas i raw w)
    with old [of i] show ?thesis
      by (intro handlers_inv_goto [OF assms(2), of _ i "HAdd raw w"]) (auto simp: goto_def)
  next
    case (add i raw w txID gen')
    with old [of i] show ?thesis
      by (intro handlers_inv_goto [OF assms(2), of _ i "HCall raw w txID"]) (auto simp: goto_def)
  next
    case (no_lsn i raw w txID gen' resp ws)
    with old [of i] show ?thesis
      by (intro handlers_inv_goto [OF assms(2), of _ i HIdle]) (auto simp: respond_def goto_def)
  next
    case (push i raw w txID r sealed wal' h')
    with old [of i] write_locked_log [OF push(4)] show ?thesis
      by (intro handlers_inv_update [OF assms(2), of _ i "HPush raw w txID" "if sealed = [] then CWait r else CSend r sealed"])
        (auto simp: goto_def set_client_def)
  next
    case (send i r sealed wal')
    then show ?thesis by (intro handlers_inv_clients [OF assms(2), of _ i "CWait r"]) (auto simp: set_client_def)
  next
    case (wait i r err h')
    then show ?thesis by (intro handlers_inv_clients [OF assms(2), of _ i "CReturned r err"]) (auto simp: set_client_def)
  next
    case (return i raw w txID r err resp ws)
    then show ?thesis
      by (intro handlers_inv_update [OF assms(2), of _ i HIdle CIdle]) (auto simp: respond_def goto_def set_client_def)
  next
    case (flush rt')
    with assms(2) show ?thesis by (auto simp: handlers_inv_def moves_def dest: flusher_step_moves)
  qed (use assms(2) in \<open>simp add: handlers_inv_def\<close>)
qed

section \<open>Requests and LSNs\<close>

lemma places_set_client: "set (places (set_client i c st)) \<subseteq> set (places st) \<union> set (client_sealed c)"
  using set_update_subset_insert [of "rt_clients st" i c] by (fastforce simp: places_def parked_def set_client_def)

lemma inflight_update:
  "i < length (rt_clients (sv_rt st)) \<Longrightarrow> rt_clients (sv_rt st') = (rt_clients (sv_rt st))[i := c] \<Longrightarrow>
   mset (inflight st') + mset (client_reqs (rt_clients (sv_rt st) ! i)) = mset (inflight st) + mset (client_reqs c)"
  unfolding inflight_def using mset_concat_update by metis

lemma inflight_reqs: "i < length (rt_clients (sv_rt st)) \<Longrightarrow> set (client_reqs (rt_clients (sv_rt st) ! i)) \<subseteq> set (inflight st)"
  by (force simp: inflight_def)

lemma push_wait_next: "push_wait r h = Done (err, h') \<Longrightarrow> ch_next h' = ch_next h"
  by (auto simp: push_wait_defs Future_Get_def chan_recv_def Let_def split: option.splits if_splits list.splits outcome.splits)

text \<open>A returned request is nowhere any more.\<close>

lemma returned_not_parked:
  assumes "rt_inv m0 st" "i < length (rt_clients st)" "rt_clients st ! i = CReturned r err"
  shows "r \<notin> set (places st)"
proof
  assume "r \<in> set (places st)"
  then have "ch_at (rt_heap st) (rid r) = Some fresh_chan" using assms(1) pendingD by (fastforce simp: rt_inv_def requests_inv_def)
  moreover have "client_ok st (CReturned r err)" using assms clients_invD(1) by (fastforce simp: rt_inv_def)
  ultimately show False by simp
qed

text \<open>
  What a step does to the requests made: \<^verbatim>\<open>push\<close> makes one; in all other steps they stay where they are,
  change hands, or one of them is answered.
\<close>

definition makes :: "nat \<Rightarrow> WriteRequest \<Rightarrow> server \<Rightarrow> server \<Rightarrow> bool" where
  "makes i r st st' \<longleftrightarrow> (\<exists>raw w txID. i < length (sv_handlers st) \<and> sv_handlers st ! i = HCall raw w txID \<and>
     sv_handlers st' = (sv_handlers st)[i := HPush raw w txID] \<and> wr_log r = write_log w (sint txID)) \<and>
     rid r = ch_next (rt_heap (sv_rt st)) \<and> ch_next (rt_heap (sv_rt st')) = Suc (ch_next (rt_heap (sv_rt st))) \<and>
     set (places (sv_rt st')) \<subseteq> insert r (set (places (sv_rt st))) \<and> mset (inflight st') = mset (inflight st) + {#r#} \<and>
     sv_replies st' = sv_replies st \<and> sv_gen st' = sv_gen st \<and> sv_calls st' = sv_calls st \<and>
     rt_written (sv_rt st') = rt_written (sv_rt st) \<and> rt_applied (sv_rt st') = rt_applied (sv_rt st)"

definition keeps :: "server \<Rightarrow> server \<Rightarrow> bool" where
  "keeps st st' \<longleftrightarrow> ch_next (rt_heap (sv_rt st')) = ch_next (rt_heap (sv_rt st)) \<and> mset (issued st') = mset (issued st) \<and>
     set (places (sv_rt st')) \<subseteq> set (places (sv_rt st)) \<and> prefix (rt_applied (sv_rt st)) (rt_applied (sv_rt st')) \<and>
     (\<exists>ws. rt_written (sv_rt st') = rt_written (sv_rt st) @ ws \<and> set (concat ws) \<subseteq> set (places (sv_rt st))) \<and>
     (mset (inflight st') = mset (inflight st) \<or>
      (\<exists>i r err. i < length (rt_clients (sv_rt st)) \<and> rt_clients (sv_rt st) ! i = CReturned r err \<and>
         mset (inflight st) = mset (inflight st') + {#r#}))"

lemma push_makes:
  assumes "handlers_inv up st" and i: "i < length (sv_handlers st)" "sv_handlers st ! i = HCall raw w txID"
    and p: "write_locked w (lsn_context ctx txID) (rt_wal (sv_rt st)) (rt_heap (sv_rt st)) = (r, sealed, wal', h')"
  shows "makes i r st (goto i (HPush raw w txID)
    (st\<lparr>sv_rt := set_client i (if sealed = [] then CWait r else CSend r sealed) ((sv_rt st)\<lparr>rt_wal := wal', rt_heap := h'\<rparr>)\<rparr>))"
    (is "makes i r st ?st")
proof -
  note f = push_locked_facts [OF p [unfolded write_locked_push]]
  let ?c = "if sealed = [] then CWait r else CSend r sealed"
  have idle: "rt_clients (sv_rt st) ! i = CIdle" using handlers_invD(1) [OF assms(1) i(1)] i(2) by simp
  have upd: "rt_clients (sv_rt ?st) = (rt_clients (sv_rt st))[i := ?c]" by (simp add: goto_def set_client_def)
  have fl: "mset (inflight ?st) = mset (inflight st) + {#r#}"
    using inflight_update [OF _ upd] i(1) handlers_invD(2) [OF assms(1)] idle by simp
  have sealed: "set sealed \<union> set (wal_batch wal') = insert r (set (wal_batch (rt_wal (sv_rt st))))"
    using arg_cong [OF f(1), of set] by auto
  have "set (places (sv_rt ?st)) \<subseteq> set (places ((sv_rt st)\<lparr>rt_wal := wal', rt_heap := h'\<rparr>)) \<union> set (client_sealed ?c)"
    unfolding goto_def using places_set_client by simp
  also have "\<dots> \<subseteq> insert r (set (places (sv_rt st)))" using sealed f(5) by (auto simp: places_def parked_def)
  finally show ?thesis
    using i fl f(2,4) write_locked_log [OF p] by (auto simp: makes_def goto_def set_client_def)
qed

lemma send_keeps:
  assumes "handlers_inv up st" "i < length (sv_handlers st)" "rt_clients (sv_rt st) ! i = CSend r sealed"
    "push_send sealed (rt_wal (sv_rt st)) = Done wal'"
  shows "keeps st (st\<lparr>sv_rt := set_client i (CWait r) ((sv_rt st)\<lparr>rt_wal := wal'\<rparr>)\<rparr>)" (is "keeps st ?st")
proof -
  have len: "i < length (rt_clients (sv_rt st))" using handlers_invD(2) [OF assms(1)] assms(2) by simp
  have upd: "rt_clients (sv_rt ?st) = (rt_clients (sv_rt st))[i := CWait r]" by (simp add: set_client_def)
  have "mset (inflight ?st) = mset (inflight st)" using inflight_update [OF len upd] assms(3) by simp
  moreover have "CSend r sealed \<in> set (rt_clients (sv_rt st))" using assms(3) len by (metis nth_mem)
  then have "set (places ((sv_rt st)\<lparr>rt_wal := wal'\<rparr>)) \<subseteq> set (places (sv_rt st))"
    using assms(4) by (force simp: push_send_def places_def parked_def split: if_splits)
  ultimately show ?thesis
    using places_set_client [of i "CWait r" "(sv_rt st)\<lparr>rt_wal := wal'\<rparr>"]
    by (auto simp: keeps_def issued_def answered_def set_client_def)
qed

lemma wait_keeps:
  assumes "handlers_inv up st" "i < length (sv_handlers st)" "rt_clients (sv_rt st) ! i = CWait r"
    "push_wait r (rt_heap (sv_rt st)) = Done (err, h')"
  shows "keeps st (st\<lparr>sv_rt := set_client i (CReturned r err) ((sv_rt st)\<lparr>rt_heap := h'\<rparr>)\<rparr>)" (is "keeps st ?st")
proof -
  have len: "i < length (rt_clients (sv_rt st))" using handlers_invD(2) [OF assms(1)] assms(2) by simp
  have upd: "rt_clients (sv_rt ?st) = (rt_clients (sv_rt st))[i := CReturned r err]" by (simp add: set_client_def)
  have "mset (inflight ?st) = mset (inflight st)" using inflight_update [OF len upd] assms(3) by simp
  moreover have "places ((sv_rt st)\<lparr>rt_heap := h'\<rparr>) = places (sv_rt st)" by (simp add: places_def parked_def)
  ultimately show ?thesis
    using places_set_client [of i "CReturned r err" "(sv_rt st)\<lparr>rt_heap := h'\<rparr>"] push_wait_next [OF assms(4)]
    by (auto simp: keeps_def issued_def answered_def set_client_def)
qed

lemma return_keeps:
  assumes "handlers_inv up st" "i < length (sv_handlers st)" "rt_clients (sv_rt st) ! i = CReturned r err"
  shows "keeps st (respond i raw resp [r] (st\<lparr>sv_rt := set_client i CIdle (sv_rt st)\<rparr>))" (is "keeps st ?st")
proof -
  have len: "i < length (rt_clients (sv_rt st))" using handlers_invD(2) [OF assms(1)] assms(2) by simp
  have upd: "rt_clients (sv_rt ?st) = (rt_clients (sv_rt st))[i := CIdle]" by (simp add: respond_def goto_def set_client_def)
  have fl: "mset (inflight st) = mset (inflight ?st) + {#r#}" using inflight_update [OF len upd] assms(3) by simp
  then have "\<exists>i r err. i < length (rt_clients (sv_rt st)) \<and> rt_clients (sv_rt st) ! i = CReturned r err \<and>
      mset (inflight st) = mset (inflight ?st) + {#r#}" using len assms(3) by blast
  with fl places_set_client [of i CIdle "sv_rt st"] show ?thesis
    by (auto simp: keeps_def issued_def answered_def respond_def goto_def set_client_def)
qed

lemma request_step:
  assumes "server_step db ctx st st'" "handlers_inv up st"
  obtains i r where "makes i r st st'" | "keeps st st'"
  using assms(1)
proof cases
  case (push i raw w txID r sealed wal' h')
  with push_makes [OF assms(2) push(2-4)] that(1) show thesis by blast
next
  case (flush rt')
  with flusher_step_moves [OF flush(2)] show thesis
    by (intro that(2)) (auto simp: keeps_def issued_def answered_def inflight_def moves_def)
next
  case (send i r sealed wal')
  with send_keeps [OF assms(2) send(2-4)] that(2) show thesis by blast
next
  case (wait i r err h')
  with wait_keeps [OF assms(2) wait(2-4)] that(2) show thesis by blast
next
  case (return i raw w txID r err resp ws)
  with return_keeps [OF assms(2) return(2,4)] that(2) show thesis by blast
qed ((rule that(2); auto simp: keeps_def issued_def answered_def inflight_def respond_def goto_def places_def parked_def)+)

lemma issued_inv_step:
  assumes "server_step db ctx st st'" "handlers_inv up st" "issued_inv st" "rt_inv m0 (sv_rt st)"
  shows "issued_inv st'"
  using request_step [OF assms(1,2)]
proof cases
  case (1 i r)
  then have "mset (issued st') = mset (issued st) + {#r#}" by (simp add: makes_def issued_def answered_def)
  moreover from this have "set (issued st) \<subseteq> set (issued st')" by (metis mset_subset_eq_add_left set_mset_mono set_mset_mset)
  moreover have "set (inflight st') = insert r (set (inflight st))"
    using 1 mset_eq_setD [of "inflight st'" "r # inflight st"] by (simp add: makes_def)
  ultimately show ?thesis using 1 assms(3) by (auto simp: makes_def issued_inv_def)
next
  case 2
  then have iss: "mset (issued st') = mset (issued st)" by (simp add: keeps_def)
  then have "set (issued st') = set (issued st)" by (rule mset_eq_setD)
  moreover have "set (places (sv_rt st')) \<subseteq> set (inflight st')"
  proof -
    have pl: "set (places (sv_rt st')) \<subseteq> set (places (sv_rt st))" "set (places (sv_rt st)) \<subseteq> set (inflight st)"
      using 2 assms(3) by (simp_all add: keeps_def issued_inv_def)
    consider "mset (inflight st') = mset (inflight st)" | r where "r \<notin> set (places (sv_rt st))" "mset (inflight st) = mset (r # inflight st')"
      using 2 returned_not_parked [OF assms(4)] by (auto simp: keeps_def)
    then show ?thesis
    proof cases
      case (2 r)
      from mset_eq_setD [OF 2(2)] 2(1) pl show ?thesis by auto
    qed (use pl mset_eq_setD in blast)
  qed
  moreover have "set (concat (rt_written (sv_rt st'))) \<subseteq> set (issued st)"
  proof -
    obtain ws where "rt_written (sv_rt st') = rt_written (sv_rt st) @ ws" "set (concat ws) \<subseteq> set (places (sv_rt st))"
      using 2 unfolding keeps_def by blast
    moreover have "set (places (sv_rt st)) \<subseteq> set (issued st)" "set (concat (rt_written (sv_rt st))) \<subseteq> set (issued st)"
      using assms(3) by (auto simp: issued_inv_def issued_def)
    ultimately show ?thesis by simp
  qed
  ultimately show ?thesis
    using 2 assms(3) arg_cong [OF iss, of "image_mset rid"] by (simp add: keeps_def issued_inv_def)
qed

text \<open>The LSNs after a handler has moved.\<close>

lemma tickets_goto:
  assumes "i < length (sv_handlers st)" "sv_handlers st' = (sv_handlers st)[i := pc]" "mset (issued st') = mset (issued st)"
  shows "mset (tickets st') + mset (handler_lsn (sv_handlers st ! i)) = mset (tickets st) + mset (handler_lsn pc)"
  using mset_concat_update [OF assms(1), of handler_lsn pc] arg_cong [OF assms(3), of "image_mset (LSN \<circ> wr_log)"] assms(2)
  by (simp add: tickets_def del: mset_concat)

lemma lsn_inv_goto:
  assumes "lsn_inv st" "i < length (sv_handlers st)" "sv_handlers st' = (sv_handlers st)[i := pc]" "mset (issued st') = mset (issued st)"
    and "handler_lsn pc = handler_lsn (sv_handlers st ! i)" "sv_calls st' = sv_calls st"
    and "sv_calls st < 2 ^ 63 - 1 \<Longrightarrow> counter (sv_gen st) = of_nat (sv_calls st) \<Longrightarrow> sv_gen st' = sv_gen st"
  shows "lsn_inv st'"
  using assms tickets_goto [OF assms(2-4)] by (simp add: lsn_inv_def)

lemma lsn_inv_same:
  "lsn_inv st \<Longrightarrow> keeps st st' \<Longrightarrow> sv_handlers st' = sv_handlers st \<Longrightarrow> sv_calls st' = sv_calls st \<Longrightarrow> sv_gen st' = sv_gen st \<Longrightarrow> lsn_inv st'"
  by (auto simp: lsn_inv_def keeps_def tickets_def dest: arg_cong [of _ _ "image_mset (LSN \<circ> wr_log)"])

lemma gen_CAS_small: "k < 2 ^ 63 - 1 \<Longrightarrow> counter gen = of_nat k \<Longrightarrow> gen_CompareAndSwap gen = gen"
  using of_nat_MaxInt64 [of k] by (simp add: gen_CompareAndSwap_def)

lemma gen_Add_small:
  assumes "Suc k < 2 ^ 63" "counter gen = of_nat k" "gen_Add gen = (txID, gen')"
  shows "sint txID = int (Suc k)" "txID \<noteq> 0" "counter gen' = of_nat (Suc k)"
proof -
  have t: "txID = of_nat (Suc k)" "counter gen' = of_nat (Suc k)" using assms(2,3) by (auto simp: gen_Add_def)
  then show s: "sint txID = int (Suc k)" "counter gen' = of_nat (Suc k)" using sint_of_small_nat [OF assms(1)] by simp_all
  then show "txID \<noteq> 0" by auto
qed

lemma lsn_inv_add:
  assumes "lsn_inv st" "i < length (sv_handlers st)" "sv_handlers st ! i = HAdd raw w" "gen_Add (sv_gen st) = (txID, gen')"
  shows "lsn_inv (goto i (HCall raw w txID) (st\<lparr>sv_gen := gen', sv_calls := Suc (sv_calls st)\<rparr>))" (is "lsn_inv ?st")
  unfolding lsn_inv_def
proof
  assume "sv_calls ?st < 2 ^ 63 - 1"
  then have k: "sv_calls st < 2 ^ 63 - 1" "Suc (sv_calls st) < 2 ^ 63" by (simp_all add: goto_def)
  then have old: "counter (sv_gen st) = of_nat (sv_calls st)" "mset (tickets st) = mset (map int [1..<Suc (sv_calls st)])"
    using assms(1) by (simp_all add: lsn_inv_def)
  note new = gen_Add_small [OF k(2) old(1) assms(4)]
  have "mset (tickets ?st) = mset (tickets st) + {#sint txID#}"
    using tickets_goto [OF assms(2), of ?st "HCall raw w txID"] assms(3) by (simp add: goto_def issued_def answered_def inflight_def)
  with new(1,3) old(2) show "counter (sv_gen ?st) = of_nat (sv_calls ?st) \<and> mset (tickets ?st) = mset (map int [1..<Suc (sv_calls ?st)])"
    by (simp add: goto_def)
qed

lemma lsn_inv_make:
  assumes "lsn_inv st" "makes i r st st'"
  shows "lsn_inv st'"
proof -
  obtain raw w txID where m: "i < length (sv_handlers st)" "sv_handlers st ! i = HCall raw w txID"
    "sv_handlers st' = (sv_handlers st)[i := HPush raw w txID]" "wr_log r = write_log w (sint txID)"
    using assms(2) by (auto simp: makes_def)
  have "LSN (write_log w l) = l" for l by (cases w) simp_all
  moreover have "mset (issued st') = mset (issued st) + {#r#}" using assms(2) by (simp add: makes_def issued_def answered_def)
  ultimately have "mset (map (LSN \<circ> wr_log) (issued st')) = mset (map (LSN \<circ> wr_log) (issued st)) + {#sint txID#}"
    by (simp add: m(4))
  then have "mset (tickets st') = mset (tickets st)"
    using mset_concat_update [OF m(1), of handler_lsn "HPush raw w txID"] m(2,3) by (simp add: tickets_def del: mset_concat mset_map)
  with assms show ?thesis by (simp add: lsn_inv_def makes_def)
qed

lemma lsn_inv_step:
  assumes "server_step db ctx st st'" "handlers_inv up st" "lsn_inv st"
  shows "lsn_inv st'"
  using assms(1)
proof cases
  case (read i raw resp)
  with assms(3) show ?thesis
    by (intro lsn_inv_goto [OF assms(3), of i _ HIdle]) (auto simp: respond_def goto_def issued_def answered_def inflight_def)
next
  case (enter i raw resp w)
  with assms(3) show ?thesis
    by (intro lsn_inv_goto [OF assms(3), of i _ "HCas raw w"]) (auto simp: goto_def issued_def answered_def inflight_def)
next
  case (cas i raw w)
  with assms(3) gen_CAS_small [of "sv_calls st" "sv_gen st"] show ?thesis
    by (intro lsn_inv_goto [OF assms(3), of i _ "HAdd raw w"]) (auto simp: goto_def issued_def answered_def inflight_def)
next
  case (add i raw w txID gen')
  with lsn_inv_add [OF assms(3) add(2-4)] show ?thesis by simp
next
  case (no_lsn i raw w txID gen' resp ws)
  show ?thesis
  proof (cases "Suc (sv_calls st) < 2 ^ 63 - 1")
    case True
    then have "counter (sv_gen st) = of_nat (sv_calls st)" using assms(3) by (simp add: lsn_inv_def)
    from gen_Add_small(2) [OF _ this no_lsn(4)] True no_lsn(5) show ?thesis by simp
  qed (simp add: lsn_inv_def no_lsn(1) respond_def goto_def)
next
  case (push i raw w txID r sealed wal' h')
  from lsn_inv_make [OF assms(3) push_makes [OF assms(2) push(2-4)]] push(1) show ?thesis by simp
next
  case (send i r sealed wal')
  from lsn_inv_same [OF assms(3) send_keeps [OF assms(2) send(2-4)]] send(1) show ?thesis by simp
next
  case (wait i r err h')
  from lsn_inv_same [OF assms(3) wait_keeps [OF assms(2) wait(2-4)]] wait(1) show ?thesis by simp
next
  case (return i raw w txID r err resp ws)
  have "keeps st st'" using return_keeps [OF assms(2) return(2,4)] return(1) by simp
  then show ?thesis using return
    by (intro lsn_inv_goto [OF assms(3), of i _ HIdle]) (auto simp: respond_def goto_def keeps_def)
next
  case (flush rt')
  have "mset (issued st') = mset (issued st)"
    using flush(1) flusher_step_moves [OF flush(2)] by (simp add: issued_def answered_def inflight_def moves_def)
  then have "mset (tickets st') = mset (tickets st)"
    using flush(1) arg_cong [of "mset (issued st')" "mset (issued st)" "image_mset (LSN \<circ> wr_log)"] by (simp add: tickets_def)
  with flush(1) assms(3) show ?thesis by (simp add: lsn_inv_def)
qed (use assms(3) in \<open>simp add: lsn_inv_def tickets_def issued_def answered_def inflight_def\<close>)

section \<open>Answers\<close>

lemma reply_ok_later:
  assumes "reply_ok up m0 st rp" "prefix (rt_applied st) (rt_applied st')" "rt_written st' = rt_written st @ ws"
    "rid ` set (rp_reqs rp) \<inter> rid ` set (concat ws) = {}"
  shows "reply_ok up m0 st' rp"
proof -
  have "rp_seen rp \<le> length (rt_applied st)" using assms(1) by (simp add: reply_ok_def)
  then have "take (rp_seen rp) (rt_applied st') = take (rp_seen rp) (rt_applied st)" "rp_seen rp \<le> length (rt_applied st')"
    using assms(2) by (auto simp: prefix_def)
  moreover have "written_ids st' = written_ids st \<union> rid ` set (concat ws)" by (auto simp: written_ids_def assms(3))
  then have "fate_ok st wo failed (rp_reqs rp) \<Longrightarrow> fate_ok st' wo failed (rp_reqs rp)" for wo failed
    using assms(3,4) by (auto simp: fate_ok_def split: option.splits if_splits)
  ultimately show ?thesis using assms(1) unfolding reply_ok_def by auto
qed

lemma issued_distinct:
  assumes "issued_inv st"
  shows "distinct (map rid (issued st))"
  using mset_eq_imp_distinct_iff [of "map rid (issued st)" "[0..<ch_next (rt_heap (sv_rt st))]"] assms
  by (simp add: issued_inv_def)

text \<open>The answers given so far stay right.\<close>

lemma replies_later:
  assumes "server_step db ctx st st'" "handlers_inv up st" "issued_inv st" "replies_inv up m0 st" "rp \<in> set (sv_replies st)"
  shows "reply_ok up m0 (sv_rt st') rp"
  using request_step [OF assms(1,2)]
proof cases
  case (1 i r)
  then show ?thesis
    using assms(4,5) reply_ok_later [of up m0 "sv_rt st" rp "sv_rt st'" "[]"] by (simp add: makes_def replies_inv_def)
next
  case 2
  then obtain ws where ws: "rt_written (sv_rt st') = rt_written (sv_rt st) @ ws" "set (concat ws) \<subseteq> set (places (sv_rt st))"
    unfolding keeps_def by blast
  have "set (rp_reqs rp) \<subseteq> set (answered st)" using assms(5) by (auto simp: answered_def)
  moreover have "rid ` set (answered st) \<inter> rid ` set (inflight st) = {}"
    using issued_distinct [OF assms(3)] by (auto simp: issued_def)
  moreover have "set (concat ws) \<subseteq> set (inflight st)" using ws(2) assms(3) unfolding issued_inv_def by blast
  ultimately have "rid ` set (rp_reqs rp) \<inter> rid ` set (concat ws) = {}" by blast
  then show ?thesis
    using assms(4,5) 2 reply_ok_later [of up m0 "sv_rt st" rp "sv_rt st'" ws] ws(1) by (simp add: keeps_def replies_inv_def)
qed

text \<open>A new answer is right if its parts are.\<close>

lemma reply_ok_new:
  assumes "rt_inv m0 st" "wire_database up (Some log) = Inr db"
    "handle_with db ctx (wal_table (rt_wal st)) err raw = Done (resp, ws)"
    "fate_ok st (write_of (tokens_of (ParseAndValidate up) raw)) (err \<noteq> None) rs"
  shows "reply_ok up m0 st \<lparr>rp_raw = raw, rp_resp = resp, rp_reqs = rs, rp_seen = length (rt_applied st)\<rparr>"
proof -
  have "ht_data (wal_table (rt_wal st)) = replay (map wr_log (rt_applied st)) m0"
    using assms(1) by (simp add: rt_inv_def table_inv_def)
  with assms(3,4) show ?thesis
    unfolding handle_with_spec [OF assms(2)] reply_ok_def by (intro conjI exI [of _ "err \<noteq> None"]) auto
qed

text \<open>What a step adds to the answers: nothing, or one right answer with the present number of applied records.\<close>

lemma new_reply:
  assumes "server_step db ctx st st'" "handlers_inv up st" "rt_inv m0 (sv_rt st)" "wire_database up (Some log) = Inr db"
  obtains "sv_replies st' = sv_replies st"
  | rp where "sv_replies st' = sv_replies st @ [rp]" "rp_seen rp = length (rt_applied (sv_rt st))" "reply_ok up m0 (sv_rt st) rp"
proof -
  note spec = handle_with_spec [OF assms(4)] and old = handlers_invD [OF assms(2)] and right = reply_ok_new [OF assms(3,4)]
  from assms(1) show thesis
  proof cases
    case (read i raw resp)
    have "fate_ok (sv_rt st) (write_of (tokens_of (ParseAndValidate up) raw)) (None \<noteq> None) []"
      using read(4) by (auto simp: spec fate_ok_def split: option.splits)
    from right [OF read(4) this] read(1) show thesis by (intro that(2)) (simp_all add: respond_def goto_def)
  next
    case (no_lsn i raw w txID gen' resp ws)
    have "write_of (tokens_of (ParseAndValidate up) raw) = Some w" using old(1) [OF no_lsn(2)] no_lsn(3) by simp
    then have "fate_ok (sv_rt st) (write_of (tokens_of (ParseAndValidate up) raw)) (Some InMemory_ErrFailedGenerateLSN \<noteq> None) []"
      by (simp add: fate_ok_def)
    from right [OF no_lsn(6) this] no_lsn(1) show thesis by (intro that(2)) (simp_all add: respond_def goto_def)
  next
    case (return i raw w txID r err resp ws)
    have w: "write_of (tokens_of (ParseAndValidate up) raw) = Some w" "wr_log r = write_log w (sint txID)"
      using old(1) [OF return(2)] return(3,4) by simp_all
    have "settled (sv_rt st) r err" using returned_settled [OF assms(3) _ return(4)] return(2) old(2) by simp
    with w have "fate_ok (sv_rt st) (write_of (tokens_of (ParseAndValidate up) raw)) (err \<noteq> None) [r]"
      by (auto simp: fate_ok_def settled_def split: option.splits)
    from right [OF return(5) this] return(1) show thesis by (intro that(2)) (simp_all add: respond_def goto_def set_client_def)
  qed (rule that(1); simp add: goto_def)+
qed

lemma replies_inv_step:
  assumes "server_step db ctx st st'" "handlers_inv up st" "rt_inv m0 (sv_rt st)" "wire_database up (Some log) = Inr db"
    "issued_inv st" "replies_inv up m0 st"
  shows "replies_inv up m0 st'"
  using new_reply [OF assms(1-4)]
proof cases
  case 1
  with replies_later [OF assms(1,2,5,6)] assms(6) show ?thesis by (simp add: replies_inv_def)
next
  case (2 rp)
  have eq: "sv_rt st' = sv_rt st \<or> rt_written (sv_rt st') = rt_written (sv_rt st) \<and> rt_applied (sv_rt st') = rt_applied (sv_rt st)"
    using assms(1) 2(1) by cases (auto simp: goto_def respond_def set_client_def)
  then have "reply_ok up m0 (sv_rt st') rp" using 2(3) reply_ok_later [OF 2(3), of "sv_rt st'" "[]"] by auto
  moreover have "\<forall>q \<in> set (sv_replies st). rp_seen q \<le> rp_seen rp" using assms(6) 2(2) by (simp add: replies_inv_def reply_ok_def)
  ultimately show ?thesis
    using replies_later [OF assms(1,2,5,6)] assms(6) 2(1) by (auto simp: replies_inv_def sorted_append)
qed

lemma server_inv_step:
  assumes "server_step db ctx st st'" "server_inv up m0 st" "wire_database up (Some log) = Inr db"
  shows "server_inv up m0 st'"
proof -
  have i: "handlers_inv up st" "rt_inv m0 (sv_rt st)" "order_inv (sv_rt st)" "issued_inv st" "lsn_inv st" "replies_inv up m0 st"
    "written_once (sv_rt st)"
    using assms(2) by (simp_all add: server_inv_def)
  have "rt_inv m0 (sv_rt st')" "order_inv (sv_rt st')" "written_once (sv_rt st')"
    using server_step_rt [OF assms(1) i(1)] i(2,3,7) rt_step_inv order_inv_step written_once_step [OF _ i(2)] by auto
  then show ?thesis
    using handlers_inv_step [OF assms(1) i(1) assms(3)] issued_inv_step [OF assms(1) i(1,4,2)] lsn_inv_step [OF assms(1) i(1,5)]
      replies_inv_step [OF assms(1) i(1,2) assms(3) i(4,6)] by (simp add: server_inv_def)
qed

lemma server_inv_start:
  assumes "idle_wal wal" "synced_ok s"
  shows "server_inv up (ht_data (wal_table wal)) (server_start n wal s)"
proof -
  have "places (rt_start n wal s) = []"
    using assms(1) by (simp add: places_def parked_def rt_start_def idle_wal_def map_replicate_const concat_replicate_trivial)
  then show ?thesis
    using rt_inv_start [OF assms, of n] order_inv_start
    by (simp add: server_inv_def server_start_def handlers_inv_def issued_inv_def issued_def answered_def inflight_def lsn_inv_def tickets_def
        replies_inv_def written_once_def rt_start_def list_all2_conv_all_nth NewIDGenerator_def empty_heap_def map_replicate_const concat_replicate_trivial)
qed

lemma server_reachable_inv:
  assumes "server_reachable db ctx (server_start n wal s) st" "wire_database up (Some log) = Inr db" "idle_wal wal" "synced_ok s"
  shows "server_inv up (ht_data (wal_table wal)) st"
  using assms(1)
proof induction
  case sv_refl
  show ?case by (rule server_inv_start [OF assms(3,4)])
next
  case (sv_trans st st')
  then show ?case using server_inv_step assms(2) by blast
qed

end
