(* ===== verification/Server_Guarantees.thy ===== *)
theory Server_Guarantees
  imports Server_Runtime
begin

text \<open>
  What the connections of a running server can rely on, under every interleaving: durability of what is
  acknowledged, answers that are those of a map, LSNs and the serial order of the writes, that every
  request can be answered; and what they cannot rely on.
\<close>

section \<open>Later states\<close>

lemma server_reachable_trans:
  "server_reachable db ctx st1 st2 \<Longrightarrow> server_reachable db ctx st0 st1 \<Longrightarrow> server_reachable db ctx st0 st2"
  by (induction rule: server_reachable.induct) (auto intro: sv_trans)

lemma server_reachable_grows:
  assumes "server_reachable db ctx st st'" "server_inv up m0 st" "wire_database up (Some log) = Inr db"
  shows "server_inv up m0 st' \<and> prefix (rt_written (sv_rt st)) (rt_written (sv_rt st')) \<and> prefix (sv_replies st) (sv_replies st')"
  using assms(1)
proof induction
  case sv_refl
  show ?case using assms(2) by simp
next
  case (sv_trans st1 st2)
  then have i: "handlers_inv up st1" "rt_inv m0 (sv_rt st1)" by (simp_all add: server_inv_def)
  have "prefix (rt_written (sv_rt st1)) (rt_written (sv_rt st2))"
    using server_step_rt [OF sv_trans(2) i(1)] rt_step_written_grows by auto
  moreover have "prefix (sv_replies st1) (sv_replies st2)" using new_reply [OF sv_trans(2) i assms(3)] by cases simp_all
  moreover have "server_inv up m0 st2" using server_inv_step [OF sv_trans(2) _ assms(3)] sv_trans(3) by blast
  ultimately show ?case using sv_trans(3) by (auto intro: prefix_order.trans)
qed

lemma acknowledged_written:
  assumes "reply_ok up m0 st rp" "rp_resp rp = ''OK'' \<or> rp_resp rp = ''DELETED''"
  obtains w r lsn where "write_of (tokens_of (ParseAndValidate up) (rp_raw rp)) = Some w" "rp_reqs rp = [r]" "wr_log r = write_log w lsn"
    "r \<in> set (concat (rt_written st))"
proof -
  let ?t = "tokens_of (ParseAndValidate up) (rp_raw rp)"
  obtain failed m where f: "rp_resp rp = fst (exec_spec ?t failed m)" "fate_ok st (write_of ?t) failed (rp_reqs rp)"
    using assms(1) by (auto simp: reply_ok_def)
  have "\<not> failed \<and> write_of ?t \<noteq> None"
    using f(1) assms(2) by (cases ?t rule: write_of.cases) (auto split: if_splits option.splits list.splits)
  then obtain w where w: "write_of ?t = Some w" "\<not> failed" by blast
  then have "\<exists>r lsn. rp_reqs rp = [r] \<and> wr_log r = write_log w lsn \<and> r \<in> set (concat (rt_written st))"
    using f(2) unfolding fate_ok_def by simp
  with w(1) that show thesis by blast
qed

section \<open>Progress\<close>

fun handler_raw :: "handler \<Rightarrow> string option" where
  "handler_raw HIdle = None"
| "handler_raw (HCas raw w) = Some raw"
| "handler_raw (HAdd raw w) = Some raw"
| "handler_raw (HCall raw w txID) = Some raw"
| "handler_raw (HPush raw w txID) = Some raw"

text \<open>The WAL under the server is a run of the interleaved WAL.\<close>

lemma server_reachable_rt:
  assumes "server_reachable db ctx (server_start n wal s) st" "wire_database up (Some log) = Inr db" "idle_wal wal" "synced_ok s"
  shows "rt_reachable (rt_start n wal s) (sv_rt st)"
  using assms(1)
proof induction
  case sv_refl
  show ?case by (simp add: server_start_def rt_refl)
next
  case (sv_trans st st')
  have "handlers_inv up st" using server_reachable_inv [OF sv_trans(1) assms(2-4)] by (simp add: server_inv_def)
  from server_step_rt [OF sv_trans(2) this] sv_trans(3) show ?case by (auto intro: rt_trans)
qed

text \<open>A request at \<open>i\<close> can be answered: some continuation sends exactly one more answer, to it.\<close>

definition answerable :: "wcall list engine_state Database \<Rightarrow> ctx \<Rightarrow> nat \<Rightarrow> string \<Rightarrow> server \<Rightarrow> bool" where
  "answerable db ctx i raw st \<longleftrightarrow>
     (\<exists>st' rp. server_reachable db ctx st st' \<and> sv_replies st' = sv_replies st @ [rp] \<and> rp_raw rp = raw \<and> sv_handlers st' ! i = HIdle)"

lemma answerable_later:
  assumes "server_reachable db ctx st st1" "sv_replies st1 = sv_replies st" "answerable db ctx i raw st1"
  shows "answerable db ctx i raw st"
  using assms server_reachable_trans unfolding answerable_def by (metis (no_types, lifting))

lemma answerable_step:
  "server_step db ctx st st1 \<Longrightarrow> sv_replies st1 = sv_replies st \<Longrightarrow> answerable db ctx i raw st1 \<Longrightarrow> answerable db ctx i raw st"
  by (rule answerable_later [OF sv_trans [OF sv_refl]])

lemma flusher_run_server: "flusher_step\<^sup>*\<^sup>* (sv_rt st) rt' \<Longrightarrow> server_reachable db ctx st (st\<lparr>sv_rt := rt'\<rparr>)"
proof (induction rule: rtranclp_induct)
  case base
  show ?case by (simp add: sv_refl)
next
  case (step y z)
  from server_step.flush [of "st\<lparr>sv_rt := y\<rparr>" z] step(2) sv_trans [OF step(3)] show ?case by simp
qed

lemma answerable_flush:
  "flusher_step\<^sup>*\<^sup>* (sv_rt st) rt' \<Longrightarrow> answerable db ctx i raw (st\<lparr>sv_rt := rt'\<rparr>) \<Longrightarrow> answerable db ctx i raw st"
  by (rule answerable_later [OF flusher_run_server]) simp_all

lemma respond_answers:
  assumes "server_reachable db ctx st (respond i raw resp rs st1)" "i < length (sv_handlers st)"
    "length (sv_handlers st1) = length (sv_handlers st)" "sv_replies st1 = sv_replies st"
  shows "answerable db ctx i raw st"
proof -
  have "sv_replies (respond i raw resp rs st1) =
      sv_replies st @ [\<lparr>rp_raw = raw, rp_resp = resp, rp_reqs = rs, rp_seen = length (rt_applied (sv_rt st1))\<rparr>]"
    "sv_handlers (respond i raw resp rs st1) ! i = HIdle"
    using assms(2-4) by (simp_all add: respond_def goto_def)
  with assms(1) show ?thesis unfolding answerable_def by fastforce
qed

text \<open>A caller whose promise is resolved reads it and returns through the layers.\<close>

lemma returned_answerable:
  assumes "wire_database up (Some log) = Inr db"
    and i: "i < length (sv_handlers st)" "sv_handlers st ! i = HPush raw w txID" "rt_clients (sv_rt st) ! i = CReturned r err"
  shows "answerable db ctx i raw st"
proof -
  obtain resp ws where "handle_with db ctx (sv_table st) err raw = Done (resp, ws)" using handle_with_spec [OF assms(1)] by blast
  from sv_trans [OF sv_refl server_step.return [OF i this]] i(1) show ?thesis by (rule respond_answers) simp_all
qed

lemma resolved_answerable:
  assumes "wire_database up (Some log) = Inr db" "server_inv up m0 st"
    and i: "i < length (sv_handlers st)" "sv_handlers st ! i = HPush raw w txID" "rt_clients (sv_rt st) ! i = CWait r"
    and "r \<notin> set (places (sv_rt st))"
  shows "answerable db ctx i raw st"
proof -
  have inv: "rt_inv m0 (sv_rt st)" "length (rt_clients (sv_rt st)) = length (sv_handlers st)"
    using assms(2) handlers_invD(2) by (auto simp: server_inv_def)
  obtain err h' where p: "push_wait r (rt_heap (sv_rt st)) = Done (err, h')"
    using wait_answered [OF inv(1) _ i(3) assms(6)] i(1) inv(2) by auto
  have "answerable db ctx i raw (st\<lparr>sv_rt := set_client i (CReturned r err) ((sv_rt st)\<lparr>rt_heap := h'\<rparr>)\<rparr>)"
    using i inv(2) by (intro returned_answerable [OF assms(1)]) (simp_all add: set_client_def)
  from answerable_step [OF server_step.wait [OF i(1,3) p] _ this] show ?thesis by simp
qed

lemma waiting_answerable:
  assumes "wire_database up (Some log) = Inr db" "server_inv up m0 st" "running (sv_rt st)"
    and i: "i < length (sv_handlers st)" "sv_handlers st ! i = HPush raw w txID" "rt_clients (sv_rt st) ! i = CWait r"
  shows "answerable db ctx i raw st"
proof -
  have "rt_inv m0 (sv_rt st)" using assms(2) by (simp add: server_inv_def)
  then obtain rt1 where rt1: "flusher_step\<^sup>*\<^sup>* (sv_rt st) rt1" "rt_flusher rt1 = FSelect" "wal_batch (rt_wal rt1) = []"
    "wal_batches (rt_wal rt1) = []" "rt_clients rt1 = rt_clients (sv_rt st)" "running rt1" "rt_inv m0 rt1"
    by (rule drain_all [OF _ assms(3)])
  let ?st1 = "st\<lparr>sv_rt := rt1\<rparr>"
  note run1 = flusher_run_server [OF rt1(1), of db ctx]
  have inv1: "server_inv up m0 ?st1" using server_reachable_grows [OF run1 assms(2,1)] by simp
  have "answerable db ctx i raw ?st1"
  proof (cases "r \<in> set (places rt1)")
    case False
    with i rt1(5) show ?thesis by (intro resolved_answerable [OF assms(1) inv1]) simp_all
  next
    case True
    obtain j q sealed where j: "j < length (rt_clients rt1)" "rt_clients rt1 ! j = CSend q sealed" "r \<in> set sealed"
      by (rule places_drained [OF rt1(2-4) True])
    obtain wal' rt2 where rt2: "push_send sealed (rt_wal rt1) = Done wal'"
      "flusher_step\<^sup>*\<^sup>* (set_client j (CWait q) (rt1\<lparr>rt_wal := wal'\<rparr>)) rt2" "rt_clients rt2 = (rt_clients rt1)[j := CWait q]"
      "r \<notin> set (places rt2)" by (rule sealed_request_resolved [OF rt1(7,6,2,3,4) j])
    let ?st2 = "?st1\<lparr>sv_rt := set_client j (CWait q) (rt1\<lparr>rt_wal := wal'\<rparr>)\<rparr>"
    have "j < length (sv_handlers ?st1)" using j(1) inv1 handlers_invD(2) by (fastforce simp: server_inv_def)
    then have step: "server_step db ctx ?st1 ?st2" using j(2) rt2(1) server_step.send [of j ?st1 q sealed wal'] by simp
    have run2: "server_reachable db ctx ?st2 (st\<lparr>sv_rt := rt2\<rparr>)" using flusher_run_server [of ?st2 rt2] rt2(2) by simp
    have "server_inv up m0 (st\<lparr>sv_rt := rt2\<rparr>)"
      using server_reachable_grows [OF run2 server_inv_step [OF step inv1 assms(1)] assms(1)] by simp
    moreover have "j \<noteq> i" using j(2) i(3) rt1(5) by auto
    ultimately have "answerable db ctx i raw (st\<lparr>sv_rt := rt2\<rparr>)"
      using i rt2(3,4) rt1(5) by (intro resolved_answerable [OF assms(1)]) simp_all
    from answerable_step [OF step _ answerable_later [OF run2 _ this]] show ?thesis by simp
  qed
  with rt1(1) show ?thesis by (rule answerable_flush)
qed

lemma pushing_answerable:
  assumes "wire_database up (Some log) = Inr db" "server_inv up m0 st" "running (sv_rt st)"
    and i: "i < length (sv_handlers st)" "sv_handlers st ! i = HPush raw w txID"
  shows "answerable db ctx i raw st"
proof (cases "rt_clients (sv_rt st) ! i")
  case CIdle
  have "handlers_inv up st" using assms(2) by (simp add: server_inv_def)
  from handlers_invD(1) [OF this i(1)] i(2) CIdle show ?thesis by simp
next
  case (CSend r sealed)
  have "rt_inv m0 (sv_rt st)" using assms(2) by (simp add: server_inv_def)
  then obtain rt1 where rt1: "flusher_step\<^sup>*\<^sup>* (sv_rt st) rt1" "rt_flusher rt1 = FSelect" "wal_batches (rt_wal rt1) = []"
    "rt_clients rt1 = rt_clients (sv_rt st)" "running rt1"
    by (rule drain_all [OF _ assms(3)])
  have "\<exists>wal'. push_send sealed (rt_wal rt1) = Done wal'" using rt1(3) by (simp add: push_send_def batches_cap_def)
  then obtain wal' where p: "push_send sealed (rt_wal rt1) = Done wal'" by blast
  let ?st1 = "st\<lparr>sv_rt := rt1\<rparr>" and ?st2 = "st\<lparr>sv_rt := set_client i (CWait r) (rt1\<lparr>rt_wal := wal'\<rparr>)\<rparr>"
  have inv1: "server_inv up m0 ?st1" using server_reachable_grows [OF flusher_run_server [OF rt1(1)] assms(2,1)] by simp
  have step: "server_step db ctx ?st1 ?st2" using server_step.send [of i ?st1 r sealed wal'] i(1) rt1(4) CSend p by simp
  have len: "i < length (rt_clients rt1)" using inv1 i(1) handlers_invD(2) [of up ?st1] by (simp add: server_inv_def)
  have "running (sv_rt ?st2)" using rt1(5) by (simp add: running_def set_client_def)
  then have "answerable db ctx i raw ?st2"
    using i len by (intro waiting_answerable [OF assms(1) server_inv_step [OF step inv1 assms(1)]]) (simp_all add: set_client_def)
  from answerable_step [OF step _ this] have "answerable db ctx i raw ?st1" by simp
  with rt1(1) show ?thesis by (rule answerable_flush)
next
  case (CWait r)
  with i show ?thesis by (rule waiting_answerable [OF assms(1-3)])
next
  case (CReturned r err)
  with assms(1) i show ?thesis by (rule returned_answerable)
qed

lemma called_answerable:
  assumes "wire_database up (Some log) = Inr db" "server_inv up m0 st" "running (sv_rt st)"
    and i: "i < length (sv_handlers st)" "sv_handlers st ! i = HCall raw w txID"
  shows "answerable db ctx i raw st"
proof -
  obtain r sealed wal' h' where p: "write_locked w (lsn_context ctx txID) (rt_wal (sv_rt st)) (rt_heap (sv_rt st)) = (r, sealed, wal', h')"
    by (metis surj_pair)
  note step = server_step.push [OF i p, of db]
  have "answerable db ctx i raw (goto i (HPush raw w txID) (st\<lparr>sv_rt := set_client i (if sealed = [] then CWait r else CSend r sealed)
      ((sv_rt st)\<lparr>rt_wal := wal', rt_heap := h'\<rparr>)\<rparr>))"
    by (rule pushing_answerable [OF assms(1) server_inv_step [OF step assms(2,1)]])
      (use assms(3) i in \<open>simp_all add: goto_def running_def set_client_def\<close>)
  from answerable_step [OF step _ this] show ?thesis by (simp add: goto_def)
qed

lemma adding_answerable:
  assumes "wire_database up (Some log) = Inr db" "server_inv up m0 st" "running (sv_rt st)"
    and i: "i < length (sv_handlers st)" "sv_handlers st ! i = HAdd raw w"
  shows "answerable db ctx i raw st"
proof -
  obtain txID gen' where g: "gen_Add (sv_gen st) = (txID, gen')" by fastforce
  show ?thesis
  proof (cases "txID = 0")
    case True
    obtain resp ws where "handle_with db ctx (sv_table st) (Some InMemory_ErrFailedGenerateLSN) raw = Done (resp, ws)"
      using handle_with_spec [OF assms(1)] by blast
    from server_step.no_lsn [OF i g True this] have "server_reachable db ctx st
        (respond i raw resp [] (st\<lparr>sv_gen := gen', sv_calls := Suc (sv_calls st)\<rparr>))" by (rule sv_trans [OF sv_refl])
    then show ?thesis using i(1) by (rule respond_answers) simp_all
  next
    case False
    note step = server_step.add [OF i g False]
    have "answerable db ctx i raw (goto i (HCall raw w txID) (st\<lparr>sv_gen := gen', sv_calls := Suc (sv_calls st)\<rparr>))"
      by (rule called_answerable [OF assms(1) server_inv_step [OF step assms(2,1)]])
        (use assms(3) i in \<open>simp_all add: goto_def\<close>)
    from answerable_step [OF step _ this] show ?thesis by (simp add: goto_def)
  qed
qed

section \<open>A run\<close>

definition sv_at :: "rt \<Rightarrow> nat \<Rightarrow> handler \<Rightarrow> reply list \<Rightarrow> server" where
  "sv_at st calls pc rs = \<lparr>sv_rt = st, sv_gen = NewIDGenerator (of_nat calls), sv_handlers = [pc], sv_calls = calls, sv_replies = rs\<rparr>"

definition run_db :: "wcall list engine_state Database" where
  "run_db = (case wire_database ascii_upper_images (Some DiscardLogger) of Inr db \<Rightarrow> db)"

definition run_reply :: reply where
  "run_reply = \<lparr>rp_raw = ''SET a 1'', rp_resp = ''OK'', rp_reqs = [run_req], rp_seen = 0\<rparr>"

lemma run_db_wired: "wire_database ascii_upper_images (Some DiscardLogger) = Inr run_db"
  by (simp add: run_db_def wire_database_Inr)

lemma run_handle:
  "handle_with run_db ctx t None ''SET a 1'' = Done (''OK'', [WSet ''a'' ''1''])"
  "handle_with run_db ctx t None ''GET a'' = Done (case ht_data t ''a'' of None \<Rightarrow> ''NOT_FOUND'' | Some v \<Rightarrow> ''VALUE '' @ v, [])"
proof -
  have p: "ParseAndValidate ascii_upper_images ''SET a 1'' = Inr [''SET'', ''a'', ''1'']"
    "ParseAndValidate ascii_upper_images ''GET a'' = Inr [''GET'', ''a'']" by (simp_all add: parse_eval)
  show "handle_with run_db ctx t None ''SET a 1'' = Done (''OK'', [WSet ''a'' ''1''])"
    "handle_with run_db ctx t None ''GET a'' = Done (case ht_data t ''a'' of None \<Rightarrow> ''NOT_FOUND'' | Some v \<Rightarrow> ''VALUE '' @ v, [])"
    unfolding handle_with_spec [OF run_db_wired] by (simp_all add: tokens_of_def p)
qed

lemma run_called:
  assumes "eager_wal wal"
  shows "server_reachable run_db ctx (server_start 1 wal s) (sv_at (run_state (wal\<lparr>wal_batches := [[run_req]]\<rparr>) s fresh_chan
     (CWait run_req) FTop False []) 1 (HPush ''SET a 1'' (WSet ''a'' ''1'') 1) [])"
proof -
  let ?rt = "rt_start 1 wal s" and ?w = "WSet ''a'' ''1''" and ?raw = "''SET a 1''"
  have 0: "server_start 1 wal s = sv_at ?rt 0 HIdle []" by (simp add: server_start_def sv_at_def)
  have "server_step run_db ctx (sv_at ?rt 0 HIdle []) (sv_at ?rt 0 (HCas ?raw ?w) [])"
    using server_step.enter [of 0 "sv_at ?rt 0 HIdle []" run_db ctx ?raw] by (simp add: sv_at_def goto_def run_handle)
  note 1 = sv_trans [OF sv_refl this]
  have "server_step run_db ctx (sv_at ?rt 0 (HCas ?raw ?w) []) (sv_at ?rt 0 (HAdd ?raw ?w) [])"
    using server_step.cas [of 0 "sv_at ?rt 0 (HCas ?raw ?w) []" ?raw ?w run_db ctx] by (simp add: sv_at_def goto_def gen_defs MaxInt64_def)
  note 2 = sv_trans [OF 1 this]
  have "server_step run_db ctx (sv_at ?rt 0 (HAdd ?raw ?w) []) (sv_at ?rt 1 (HCall ?raw ?w 1) [])"
    using server_step.add [of 0 "sv_at ?rt 0 (HAdd ?raw ?w) []" ?raw ?w] by (simp add: sv_at_def goto_def gen_defs)
  note 3 = sv_trans [OF 2 this]
  have "write_locked ?w (lsn_context ctx 1) (rt_wal ?rt) (rt_heap ?rt) = (run_req, [run_req], wal, run_heap (Some fresh_chan))"
    using run_push_locked [OF assms, of "lsn_context ctx 1"] by (simp add: write_locked_push rt_start_def)
  then have "server_step run_db ctx (sv_at ?rt 1 (HCall ?raw ?w 1) [])
      (sv_at (run_state wal s fresh_chan (CSend run_req [run_req]) FTop False []) 1 (HPush ?raw ?w 1) [])"
    using server_step.push [of 0 "sv_at ?rt 1 (HCall ?raw ?w 1) []" ?raw ?w 1 ctx run_req "[run_req]" wal "run_heap (Some fresh_chan)"]
    by (simp add: sv_at_def goto_def run_defs rt_start_def)
  note 4 = sv_trans [OF 3 this]
  have "server_step run_db ctx (sv_at (run_state wal s fresh_chan (CSend run_req [run_req]) FTop False []) 1 (HPush ?raw ?w 1) [])
      (sv_at (run_state (wal\<lparr>wal_batches := [[run_req]]\<rparr>) s fresh_chan (CWait run_req) FTop False []) 1 (HPush ?raw ?w 1) [])"
    using server_step.send [of 0 "sv_at (run_state wal s fresh_chan (CSend run_req [run_req]) FTop False []) 1 (HPush ?raw ?w 1) []"
        run_req "[run_req]" "wal\<lparr>wal_batches := [[run_req]]\<rparr>"]
    by (simp add: sv_at_def run_state_def set_client_def push_send_def batches_cap_def eager_wal_facts [OF assms])
  from sv_trans [OF 4 this] show ?thesis unfolding 0 .
qed

lemma eager_answered:
  assumes "eager_wal wal" "Segment_Write (batch_stream [wr_log run_req]) (wal_segment wal) s = (None, seg', s')"
  shows "server_reachable run_db ctx (server_start 1 wal s)
    (sv_at (run_state (wal\<lparr>wal_segment := seg'\<rparr>) s' drained_chan CIdle (FNotify None [] [run_req] ToTop) False [[run_req]]) 1 HIdle [run_reply])"
proof -
  let ?pc = "HPush ''SET a 1'' (WSet ''a'' ''1'') 1"
  have flush: "flusher_step st st' \<Longrightarrow> server_step run_db ctx (sv_at st k pc rs) (sv_at st' k pc rs)" for st st' k pc rs
    using server_step.flush [of "sv_at st k pc rs" st'] by (simp add: sv_at_def)
  have "flusher_step (run_state wal s ch c FTop False w) (run_state wal s ch c FSelect False w)" for wal s ch c w
    using flusher_step.top_default [of "run_state wal s ch c FTop False w"] by (simp add: run_state_def)
  note 1 = sv_trans [OF run_called [OF assms(1)] flush [OF this]]
  note 2 = sv_trans [OF sv_trans [OF 1 flush [OF eager_flush [OF assms]]] flush [OF run_notify]]
  let ?st = "\<lambda>ch c. run_state (wal\<lparr>wal_segment := seg'\<rparr>) s' ch c (FNotify None [] [run_req] ToTop) False [[run_req]]"
  have "server_step run_db ctx (sv_at (?st (resolved_chan None) (CWait run_req)) 1 ?pc []) (sv_at (?st drained_chan (CReturned run_req None)) 1 ?pc [])"
    using server_step.wait [of 0 "sv_at (?st (resolved_chan None) (CWait run_req)) 1 ?pc []"] run_push_wait
    by (simp add: sv_at_def run_state_def set_client_def)
  note 3 = sv_trans [OF 2 this]
  have "server_step run_db ctx (sv_at (?st drained_chan (CReturned run_req None)) 1 ?pc []) (sv_at (?st drained_chan CIdle) 1 HIdle [run_reply])"
    using server_step.return [of 0 "sv_at (?st drained_chan (CReturned run_req None)) 1 ?pc []" _ _ _ run_req None run_db ctx] run_handle(1)
    by (simp add: sv_at_def run_state_def set_client_def respond_def goto_def run_reply_def)
  from sv_trans [OF 3 this] show ?thesis .
qed

lemma run_answered:
  obtains seg' s' where "server_reachable run_db ctx (server_start 1 run_wal demo_fs)
    (sv_at (run_state (run_wal\<lparr>wal_segment := seg'\<rparr>) s' drained_chan CIdle (FNotify None [] [run_req] ToTop) False [[run_req]]) 1 HIdle [run_reply])"
  using eager_answered [OF run_wal_eager] run_write by metis

text \<open>The same connection then asks for the key, before the flusher has applied the record.\<close>

lemma run_read:
  obtains st where "server_reachable run_db ctx (server_start 1 run_wal demo_fs) st"
    "sv_replies st = [run_reply, \<lparr>rp_raw = ''GET a'', rp_resp = ''NOT_FOUND'', rp_reqs = [], rp_seen = 0\<rparr>]"
proof -
  obtain seg' s' where r: "server_reachable run_db ctx (server_start 1 run_wal demo_fs)
    (sv_at (run_state (run_wal\<lparr>wal_segment := seg'\<rparr>) s' drained_chan CIdle (FNotify None [] [run_req] ToTop) False [[run_req]]) 1 HIdle [run_reply])"
    (is "server_reachable _ _ _ ?st") by (rule run_answered)
  have "server_step run_db ctx ?st (respond 0 ''GET a'' ''NOT_FOUND'' [] ?st)"
    by (rule server_step.read) (simp_all add: sv_at_def run_handle run_state_def run_wal_table NewHashTable_def)
  from sv_trans [OF r this] show thesis by (rule that) (simp add: sv_at_def respond_def goto_def run_state_def)
qed

section \<open>What the connections can rely on\<close>

text \<open>
  C2. Acknowledged means durable, for the whole server: however the connections, the flusher and a
  cancellation interleave, and whatever the system calls do, every \<^verbatim>\<open>OK\<close> and every \<^verbatim>\<open>DELETED\<close> that has been
  sent answers a \<^verbatim>\<open>SET\<close> or \<^verbatim>\<open>DEL\<close> whose record, with the key and value of that very command, is in a batch
  whose stream is in a file, in this and in every later state, also after a crash. Different answers
  have different records.
\<close>

theorem acknowledged_is_durable:
  assumes "wire_database up (Some log) = Inr db" and "idle_wal wal" and "synced_ok s"
    and "server_reachable db ctx (server_start n wal s) st" and "server_reachable db ctx st st'"
  shows "distinct (map rid (answered st)) \<and>
    (\<forall>rp \<in> set (sv_replies st). rp_resp rp = ''OK'' \<or> rp_resp rp = ''DELETED'' \<longrightarrow>
      (\<exists>w r lsn b. write_of (tokens_of (ParseAndValidate up) (rp_raw rp)) = Some w \<and> rp_reqs rp = [r] \<and> wr_log r = write_log w lsn \<and>
         r \<in> set b \<and> (\<forall>keep. file_stores (batch_stream (map wr_log b)) (crash keep (rt_fs (sv_rt st'))))))"
proof (intro conjI ballI impI)
  note inv = server_reachable_inv [OF assms(4,1-3)]
  show "distinct (map rid (answered st))"
    using issued_distinct [of st] inv by (simp add: server_inv_def issued_def)
  fix rp assume rp: "rp \<in> set (sv_replies st)" "rp_resp rp = ''OK'' \<or> rp_resp rp = ''DELETED''"
  have "reply_ok up (ht_data (wal_table wal)) (sv_rt st) rp" using inv rp(1) by (simp add: server_inv_def replies_inv_def)
  then obtain w r lsn where r: "write_of (tokens_of (ParseAndValidate up) (rp_raw rp)) = Some w" "rp_reqs rp = [r]" "wr_log r = write_log w lsn"
    "r \<in> set (concat (rt_written (sv_rt st)))" using rp(2) by (rule acknowledged_written)
  then obtain b where b: "b \<in> set (rt_written (sv_rt st))" "r \<in> set b" by auto
  note later = server_reachable_grows [OF assms(5) inv assms(1)]
  have "b \<in> set (rt_written (sv_rt st'))" using later b(1) by (auto simp: prefix_def)
  moreover have "disk_inv (sv_rt st')" using later by (simp add: server_inv_def rt_inv_def)
  ultimately have "\<forall>keep. file_stores (batch_stream (map wr_log b)) (crash keep (rt_fs (sv_rt st')))"
    using file_stores_crash by (auto simp: disk_inv_def list_all_iff)
  with r b(2) show "\<exists>w r lsn b. write_of (tokens_of (ParseAndValidate up) (rp_raw rp)) = Some w \<and> rp_reqs rp = [r] \<and> wr_log r = write_log w lsn \<and>
      r \<in> set b \<and> (\<forall>keep. file_stores (batch_stream (map wr_log b)) (crash keep (rt_fs (sv_rt st'))))" by blast
qed

theorem acknowledged_is_durable_witness:
  "\<exists>st. server_reachable run_db [] (server_start 1 run_wal demo_fs) st \<and> run_reply \<in> set (sv_replies st) \<and>
    (\<exists>w r lsn b. write_of (tokens_of (ParseAndValidate ascii_upper_images) ''SET a 1'') = Some w \<and> rp_reqs run_reply = [r] \<and>
       wr_log r = write_log w lsn \<and> r \<in> set b \<and> (\<forall>keep. file_stores (batch_stream (map wr_log b)) (crash keep (rt_fs (sv_rt st)))))"
proof -
  obtain seg' s' where r: "server_reachable run_db [] (server_start 1 run_wal demo_fs)
    (sv_at (run_state (run_wal\<lparr>wal_segment := seg'\<rparr>) s' drained_chan CIdle (FNotify None [] [run_req] ToTop) False [[run_req]]) 1 HIdle [run_reply])"
    (is "server_reachable _ _ _ ?st") by (rule run_answered)
  have m: "run_reply \<in> set (sv_replies ?st)" "rp_resp run_reply = ''OK''" "rp_raw run_reply = ''SET a 1''"
    by (simp_all add: sv_at_def run_reply_def)
  from acknowledged_is_durable [OF run_db_wired run_wal_idle r sv_refl, THEN conjunct2, rule_format, of run_reply] m r show ?thesis
    by (intro exI [of _ ?st] conjI) (simp_all only: simp_thms)
qed



text \<open>
  C9. The LSNs: as long as fewer than \<open>2^63 - 1\<close> writes have asked for one, the LSNs in all requests ever
  made, answered or in flight, and in the hands of handlers that have not called the WAL yet, are exactly
  the numbers from 1 to the number of writes, each once: none is lost, shared, zero or negative, although
  the two atomic operations of \<^verbatim>\<open>Generate\<close> interleave.
\<close>

theorem lsn_assigned_once:
  assumes "wire_database up (Some log) = Inr db" and "idle_wal wal" and "synced_ok s"
    and "server_reachable db ctx (server_start n wal s) st" and "sv_calls st < 2 ^ 63 - 1"
  shows "mset (tickets st) = mset (map int [1..<Suc (sv_calls st)])"
  using server_reachable_inv [OF assms(4,1-3)] assms(5) by (simp add: server_inv_def lsn_inv_def)

theorem lsn_assigned_once_witness:
  "\<exists>st. server_reachable run_db [] (server_start 1 run_wal demo_fs) st \<and> sv_calls st = 1 \<and> mset (tickets st) = {#1#}"
proof -
  note r = run_called [OF run_wal_eager, of "[]" demo_fs]
  let ?st = "sv_at (run_state (run_wal\<lparr>wal_batches := [[run_req]]\<rparr>) demo_fs fresh_chan (CWait run_req) FTop False []) 1
    (HPush ''SET a 1'' (WSet ''a'' ''1'') 1) []"
  have "sv_calls ?st = 1" by (simp add: sv_at_def)
  with lsn_assigned_once [OF run_db_wired run_wal_idle r] r show ?thesis by (intro exI [of _ ?st]) simp
qed

lemma issued_lsn_distinct:
  assumes "server_inv up m0 st" "sv_calls st < 2 ^ 63 - 1"
  shows "distinct (map (LSN \<circ> wr_log) (issued st))"
proof -
  have "mset (tickets st) = mset (map int [1..<Suc (sv_calls st)])" using assms by (simp add: server_inv_def lsn_inv_def)
  moreover have "distinct (map int [1..<Suc (sv_calls st)])" by (simp add: distinct_map)
  ultimately have "distinct (tickets st)" by (metis mset_eq_imp_distinct_iff)
  then show ?thesis by (simp add: tickets_def)
qed

text \<open>
  C18. The order inside a batch does not depend on the sorting algorithm: \<^verbatim>\<open>sort.Slice\<close> is not stable, but
  every arrangement of a written batch that is sorted by LSN is the one the model applies.
\<close>

theorem batch_order_unique:
  assumes "wire_database up (Some log) = Inr db" and "idle_wal wal" and "synced_ok s"
    and "server_reachable db ctx (server_start n wal s) st" and "sv_calls st < 2 ^ 63 - 1"
    and "b \<in> set (rt_written (sv_rt st))" and "mset xs = mset b" and "sorted (map (LSN \<circ> wr_log) xs)"
  shows "xs = sort_key (LSN \<circ> wr_log) b"
proof (rule sorted_arrangement_unique [OF assms(7,8)])
  note inv = server_reachable_inv [OF assms(4,1-3)]
  have sub: "set b \<subseteq> set (issued st)" using inv assms(6) by (auto simp: server_inv_def issued_inv_def)
  have "distinct (map rid (concat (rt_written (sv_rt st))))" using inv by (simp add: server_inv_def written_once_def)
  then have "distinct b" using assms(6) by (auto simp: distinct_map dest: distinct_concat_iff [THEN iffD1])
  moreover have "inj_on (LSN \<circ> wr_log) (set b)"
    using issued_lsn_distinct [OF inv assms(5)] sub by (auto simp: distinct_map intro: inj_on_subset)
  ultimately show "distinct (map (LSN \<circ> wr_log) b)" by (simp add: distinct_map)
qed

theorem batch_order_unique_witness:
  "\<exists>st. server_reachable run_db [] (server_start 1 run_wal demo_fs) st \<and> [run_req] \<in> set (rt_written (sv_rt st)) \<and>
    [run_req] = sort_key (LSN \<circ> wr_log) [run_req]"
proof -
  obtain seg' s' where r: "server_reachable run_db [] (server_start 1 run_wal demo_fs)
    (sv_at (run_state (run_wal\<lparr>wal_segment := seg'\<rparr>) s' drained_chan CIdle (FNotify None [] [run_req] ToTop) False [[run_req]]) 1 HIdle [run_reply])"
    (is "server_reachable _ _ _ ?st") by (rule run_answered)
  have m: "sv_calls ?st < 2 ^ 63 - 1" "[run_req] \<in> set (rt_written (sv_rt ?st))" by (simp_all add: sv_at_def run_state_def)
  have "[run_req] = sort_key (LSN \<circ> wr_log) [run_req]" by (rule batch_order_unique [OF run_db_wired run_wal_idle r m]) simp_all
  with r m show ?thesis by blast
qed

text \<open>
  C7. The table: at any moment the records applied are the first ones of the serial order, that is of the
  written batches in the order of writing and by LSN inside a batch; each has been applied once; the table
  is their replay on the recovered table; and whenever the flusher is between two flushes, or has
  returned, every written record has been applied.
\<close>

theorem applied_in_serial_order:
  assumes "wire_database up (Some log) = Inr db" and "idle_wal wal" and "synced_ok s"
    and "server_reachable db ctx (server_start n wal s) st"
  shows "\<exists>rest. serial (sv_rt st) = rt_applied (sv_rt st) @ rest \<and> distinct (map rid (rt_applied (sv_rt st))) \<and>
    ht_data (sv_table st) = replay (map wr_log (rt_applied (sv_rt st))) (ht_data (wal_table wal)) \<and>
    (rt_flusher (sv_rt st) \<in> {FTop, FSelect, FDrain, FStopped} \<longrightarrow> rest = [])"
proof -
  have inv: "order_inv (sv_rt st)" "written_once (sv_rt st)" "rt_inv (ht_data (wal_table wal)) (sv_rt st)"
    using server_reachable_inv [OF assms(4,1-3)] by (simp_all add: server_inv_def)
  have ser: "serial (sv_rt st) = rt_applied (sv_rt st) @ flusher_owes (rt_flusher (sv_rt st))" using inv(1) by (simp add: order_inv_def)
  moreover have "distinct (map rid (rt_applied (sv_rt st)))" using serial_distinct [OF inv(2)] by (simp add: ser)
  ultimately show ?thesis
    using inv(3) by (intro exI [of _ "flusher_owes (rt_flusher (sv_rt st))"]) (auto simp: rt_inv_def table_inv_def)
qed

theorem applied_in_serial_order_witness:
  "\<exists>st. server_reachable run_db [] (server_start 1 run_wal demo_fs) st \<and> rt_written (sv_rt st) = [[run_req]] \<and>
    (\<exists>rest. serial (sv_rt st) = rt_applied (sv_rt st) @ rest \<and>
       ht_data (sv_table st) = replay (map wr_log (rt_applied (sv_rt st))) (ht_data (wal_table run_wal)))"
proof -
  obtain seg' s' where r: "server_reachable run_db [] (server_start 1 run_wal demo_fs)
    (sv_at (run_state (run_wal\<lparr>wal_segment := seg'\<rparr>) s' drained_chan CIdle (FNotify None [] [run_req] ToTop) False [[run_req]]) 1 HIdle [run_reply])"
    (is "server_reachable _ _ _ ?st") by (rule run_answered)
  have "rt_written (sv_rt ?st) = [[run_req]]" by (simp add: sv_at_def run_state_def)
  with applied_in_serial_order [OF run_db_wired run_wal_idle r] r show ?thesis by blast
qed

text \<open>
  C8. The serial order respects real time: nothing that comes before an acknowledged write in the serial
  order of any later state was requested after that write had been acknowledged. So of two writes of one
  connection, or of two connections that wait for each other's answers, the later one wins.
\<close>

theorem real_time_order:
  assumes "wire_database up (Some log) = Inr db" and "idle_wal wal" and "synced_ok s"
    and "server_reachable db ctx (server_start n wal s) st" and "server_reachable db ctx st st'"
    and "rp \<in> set (sv_replies st)" and "rp_resp rp = ''OK'' \<or> rp_resp rp = ''DELETED''" and "rp_reqs rp = [r]"
  shows "\<exists>before after. serial (sv_rt st') = before @ r # after \<and> set before \<subseteq> set (issued st)"
proof -
  note inv = server_reachable_inv [OF assms(4,1-3)]
  have "reply_ok up (ht_data (wal_table wal)) (sv_rt st) rp" using inv assms(6) by (simp add: server_inv_def replies_inv_def)
  from this assms(7) have "r \<in> set (concat (rt_written (sv_rt st)))"
    by (rule acknowledged_written) (use assms(8) in simp)
  then have "r \<in> set (serial (sv_rt st))" using mset_eq_setD [OF serial_mset] by blast
  then obtain before ys where ser: "serial (sv_rt st) = before @ r # ys" by (meson split_list)
  obtain zs where "serial (sv_rt st') = serial (sv_rt st) @ zs"
    using serial_grows server_reachable_grows [OF assms(5) inv assms(1)] by (metis prefixE)
  moreover have "set before \<subseteq> set (concat (rt_written (sv_rt st)))" using ser mset_eq_setD [OF serial_mset, of "sv_rt st"] by auto
  then have "set before \<subseteq> set (issued st)" using inv by (auto simp: server_inv_def issued_inv_def)
  ultimately show ?thesis using ser by auto
qed

theorem real_time_order_witness:
  "\<exists>st. server_reachable run_db [] (server_start 1 run_wal demo_fs) st \<and>
    (\<exists>before after. serial (sv_rt st) = before @ run_req # after \<and> set before \<subseteq> set (issued st))"
proof -
  obtain seg' s' where r: "server_reachable run_db [] (server_start 1 run_wal demo_fs)
    (sv_at (run_state (run_wal\<lparr>wal_segment := seg'\<rparr>) s' drained_chan CIdle (FNotify None [] [run_req] ToTop) False [[run_req]]) 1 HIdle [run_reply])"
    (is "server_reachable _ _ _ ?st") by (rule run_answered)
  have "run_reply \<in> set (sv_replies ?st)" "rp_resp run_reply = ''OK'' \<or> rp_resp run_reply = ''DELETED''" "rp_reqs run_reply = [run_req]"
    by (simp_all add: sv_at_def run_reply_def)
  from real_time_order [OF run_db_wired run_wal_idle r sv_refl this] r show ?thesis by blast
qed

text \<open>
  C10. No request is forgotten: as long as the context is not cancelled, from every reachable state every
  connection that is inside a write can be answered, by steps of its own, of the flusher, and of the
  connection that holds the sealed batch with its record; no other request has to be answered first. In
  particular neither the bounded channel of batches nor the promises can deadlock the server.
\<close>

theorem request_can_be_answered:
  assumes "wire_database up (Some log) = Inr db" and "idle_wal wal" and "synced_ok s"
    and "server_reachable db ctx (server_start n wal s) st" and "\<not> rt_cancelled (sv_rt st)"
    and "i < length (sv_handlers st)" and "handler_raw (sv_handlers st ! i) = Some raw"
  shows "\<exists>st' rp. server_reachable db ctx st st' \<and> sv_replies st' = sv_replies st @ [rp] \<and> rp_raw rp = raw \<and> sv_handlers st' ! i = HIdle"
proof -
  note inv = server_reachable_inv [OF assms(4,1-3)]
  have run: "running (sv_rt st)" by (rule rt_reachable_running [OF server_reachable_rt [OF assms(4,1-3)] assms(5)])
  have "answerable db ctx i raw st"
  proof (cases "sv_handlers st ! i")
    case (HCas raw' w)
    note step = server_step.cas [OF assms(6) HCas, of db ctx]
    have "answerable db ctx i raw' (goto i (HAdd raw' w) (st\<lparr>sv_gen := gen_CompareAndSwap (sv_gen st)\<rparr>))"
      by (rule adding_answerable [OF assms(1) server_inv_step [OF step inv assms(1)]]) (use run assms(6) in \<open>simp_all add: goto_def\<close>)
    from answerable_step [OF step _ this] HCas assms(7) show ?thesis by (simp add: goto_def)
  next
    case (HAdd raw' w)
    with adding_answerable [OF assms(1) inv run assms(6) HAdd] assms(7) show ?thesis by simp
  next
    case (HCall raw' w txID)
    with called_answerable [OF assms(1) inv run assms(6) HCall] assms(7) show ?thesis by simp
  next
    case (HPush raw' w txID)
    with pushing_answerable [OF assms(1) inv run assms(6) HPush] assms(7) show ?thesis by simp
  qed (use assms(7) in simp)
  then show ?thesis by (simp add: answerable_def)
qed

theorem request_can_be_answered_witness:
  "\<exists>st st' rp. server_reachable run_db [] (server_start 1 run_wal demo_fs) st \<and> sv_replies st = [] \<and>
    server_reachable run_db [] st st' \<and> sv_replies st' = [rp] \<and> rp_raw rp = ''SET a 1''"
proof -
  note r = run_called [OF run_wal_eager, of "[]" demo_fs]
  let ?st = "sv_at (run_state (run_wal\<lparr>wal_batches := [[run_req]]\<rparr>) demo_fs fresh_chan (CWait run_req) FTop False []) 1
    (HPush ''SET a 1'' (WSet ''a'' ''1'') 1) []"
  have "\<not> rt_cancelled (sv_rt ?st)" "0 < length (sv_handlers ?st)" "handler_raw (sv_handlers ?st ! 0) = Some ''SET a 1''" "sv_replies ?st = []"
    by (simp_all add: sv_at_def run_state_def)
  with request_can_be_answered [OF run_db_wired run_wal_idle r this(1-3)] r show ?thesis by (metis append_Nil)
qed

text \<open>
  C39. The answer comes before the effect, end to end: there is a run of the server in which one connection
  sends \<^verbatim>\<open>SET a 1\<close>, is answered \<^verbatim>\<open>OK\<close>, then sends \<^verbatim>\<open>GET a\<close> and is answered \<^verbatim>\<open>NOT_FOUND\<close>, because
  \<^verbatim>\<open>WalWriter.Write\<close> resolves the promises and \<^verbatim>\<open>flushBatch\<close> applies the records afterwards. A client
  cannot rely on reading its own write.
\<close>

theorem own_write_not_found:
  "\<exists>db st. wire_database ascii_upper_images (Some DiscardLogger) = Inr db \<and>
    server_reachable db [] (server_start 1 run_wal demo_fs) st \<and>
    map (\<lambda>rp. (rp_raw rp, rp_resp rp)) (sv_replies st) = [(''SET a 1'', ''OK''), (''GET a'', ''NOT_FOUND'')]"
proof -
  obtain st where "server_reachable run_db [] (server_start 1 run_wal demo_fs) st"
    "sv_replies st = [run_reply, \<lparr>rp_raw = ''GET a'', rp_resp = ''NOT_FOUND'', rp_reqs = [], rp_seen = 0\<rparr>]" by (rule run_read)
  with run_db_wired show ?thesis by (intro exI [of _ run_db] exI [of _ st]) (simp add: run_reply_def)
qed

end
