(* ===== verification/Process.thy ===== *)
theory Process
  imports Server_Guarantees
begin

text \<open>
  The server process after its start (cmd/server/main.go): \<^verbatim>\<open>main\<close> waits in \<^verbatim>\<open>waitForShutdown\<close> beside the
  running server, first for the context, which a signal or a failing \<^verbatim>\<open>StartDatabase\<close> cancels, then for a
  timer; when it returns, the process is gone and no goroutine of the server runs any more.
\<close>

section \<open>main and waitForShutdown\<close>

text \<open>Where \<^verbatim>\<open>main\<close> is: at \<open><-ctx.Done()\<close>, at \<open><-shutdownCtx.Done()\<close> with the deadline of the timer, or returned.\<close>

datatype main_pc = MWait | MTimer nat | MExited

text \<open>Time is counted in nanoseconds.\<close>

definition shutdown_timeout :: nat where "shutdown_timeout = 5 * 10 ^ 9"

record process =
  pr_server :: server
  pr_main :: main_pc
  pr_now :: nat

inductive process_step :: "wcall list engine_state Database \<Rightarrow> ctx \<Rightarrow> process \<Rightarrow> process \<Rightarrow> bool" for db ctx where
  serve: "pr_main p \<noteq> MExited \<Longrightarrow> server_step db ctx (pr_server p) st' \<Longrightarrow> process_step db ctx p (p\<lparr>pr_server := st'\<rparr>)"
| tick: "pr_main p \<noteq> MExited \<Longrightarrow> process_step db ctx p (p\<lparr>pr_now := Suc (pr_now p)\<rparr>)"
| notice: "pr_main p = MWait \<Longrightarrow> rt_cancelled (sv_rt (pr_server p)) \<Longrightarrow>
    process_step db ctx p (p\<lparr>pr_main := MTimer (pr_now p + shutdown_timeout)\<rparr>)"
| expire: "pr_main p = MTimer deadline \<Longrightarrow> deadline \<le> pr_now p \<Longrightarrow> process_step db ctx p (p\<lparr>pr_main := MExited\<rparr>)"

definition process_start :: "nat \<Rightarrow> nat \<Rightarrow> HashTable Wal \<Rightarrow> fs \<Rightarrow> process" where
  "process_start n now wal s = \<lparr>pr_server = server_start n wal s, pr_main = MWait, pr_now = now\<rparr>"

inductive_cases process_stepE: "process_step db ctx p p'"

abbreviation process_reachable :: "wcall list engine_state Database \<Rightarrow> ctx \<Rightarrow> process \<Rightarrow> process \<Rightarrow> bool" where
  "process_reachable db ctx \<equiv> (process_step db ctx)\<^sup>*\<^sup>*"

section \<open>The server inside the process\<close>

lemma process_server:
  assumes "process_reachable db ctx p p'"
  shows "server_reachable db ctx (pr_server p) (pr_server p')"
  using assms
proof (induction rule: rtranclp_induct)
  case base
  show ?case by (rule sv_refl)
next
  case (step y z)
  from step(2) show ?case by (cases rule: process_stepE) (use step(3) in \<open>auto intro: sv_trans\<close>)
qed

lemma server_run_process:
  assumes "server_reachable db ctx st st'" "pr_main p \<noteq> MExited" "pr_server p = st"
  shows "process_reachable db ctx p (p\<lparr>pr_server := st'\<rparr>)"
  using assms(1)
proof induction
  case sv_refl
  show ?case using assms(3) by (cases p) simp
next
  case (sv_trans st1 st2)
  from process_step.serve [of "p\<lparr>pr_server := st1\<rparr>" db ctx st2] sv_trans assms(2) show ?case
    by (simp add: rtranclp.rtrancl_into_rtrancl)
qed

lemma ticks: "pr_main p \<noteq> MExited \<Longrightarrow> process_reachable db ctx p (p\<lparr>pr_now := pr_now p + k\<rparr>)"
proof (induction k)
  case (Suc k)
  from process_step.tick [of "p\<lparr>pr_now := pr_now p + k\<rparr>"] Suc show ?case by (simp add: rtranclp.rtrancl_into_rtrancl)
qed simp

text \<open>Once the context is cancelled the process can exit, whatever the server is doing.\<close>

lemma can_exit:
  assumes "pr_main p = MWait" "rt_cancelled (sv_rt (pr_server p))"
  shows "process_reachable db ctx p (p\<lparr>pr_now := pr_now p + shutdown_timeout, pr_main := MExited\<rparr>)"
proof -
  let ?q = "p\<lparr>pr_main := MTimer (pr_now p + shutdown_timeout)\<rparr>"
  have "process_step db ctx p ?q" by (rule process_step.notice [OF assms])
  also have "process_reachable db ctx ?q (?q\<lparr>pr_now := pr_now p + shutdown_timeout\<rparr>)" using ticks [of ?q] by simp
  also have "process_step db ctx (?q\<lparr>pr_now := pr_now p + shutdown_timeout\<rparr>)
      (p\<lparr>pr_now := pr_now p + shutdown_timeout, pr_main := MExited\<rparr>)"
    using process_step.expire [of "?q\<lparr>pr_now := pr_now p + shutdown_timeout\<rparr>" "pr_now p + shutdown_timeout"] by simp
  finally show ?thesis .
qed

section \<open>The shutdown\<close>

lemma server_step_cancelled: "server_step db ctx st st' \<Longrightarrow> rt_cancelled (sv_rt st) \<Longrightarrow> rt_cancelled (sv_rt st')"
proof (induction rule: server_step.induct)
  case (flush st rt')
  then show ?case
    by (auto elim!: flusher_stepE simp: begin_flush_def apply_one_def split: option.splits prod.splits)
qed (simp_all add: respond_def goto_def set_client_def)

definition main_inv :: "nat \<Rightarrow> process \<Rightarrow> bool" where
  "main_inv t0 p \<longleftrightarrow> t0 \<le> pr_now p \<and> (case pr_main p of
       MWait \<Rightarrow> True
     | MTimer d \<Rightarrow> t0 + shutdown_timeout \<le> d \<and> rt_cancelled (sv_rt (pr_server p))
     | MExited \<Rightarrow> t0 + shutdown_timeout \<le> pr_now p \<and> rt_cancelled (sv_rt (pr_server p)))"

lemma main_inv_step: "process_step db ctx p p' \<Longrightarrow> main_inv t0 p \<Longrightarrow> main_inv t0 p'"
  by (erule process_stepE) (auto simp: main_inv_def server_step_cancelled split: main_pc.splits)

lemma main_inv_reachable: "process_reachable db ctx p p' \<Longrightarrow> main_inv t0 p \<Longrightarrow> main_inv t0 p'"
  by (induction rule: rtranclp_induct) (auto intro: main_inv_step)

text \<open>
  C23. The process ends only through a cancelled context and never less than five seconds after it: if
  \<^verbatim>\<open>main\<close> is still waiting for the context at some moment and the process has ended at a later one, then
  the context is cancelled and at least five seconds lie between the two. The wait is the same for
  a server with nothing to do; and it is the only thing the exit depends on, since in every state with a
  cancelled context the process can end without another step of the server.
\<close>

theorem shutdown_waits_five_seconds:
  assumes "pr_main p = MWait"
  shows "(\<forall>p'. process_reachable db ctx p p' \<and> pr_main p' = MExited \<longrightarrow>
      rt_cancelled (sv_rt (pr_server p')) \<and> pr_now p + 5 * 10 ^ 9 \<le> pr_now p') \<and>
    (rt_cancelled (sv_rt (pr_server p)) \<longrightarrow>
      (\<exists>p'. process_reachable db ctx p p' \<and> pr_main p' = MExited \<and> pr_server p' = pr_server p))"
proof (intro conjI allI impI)
  fix p' assume p': "process_reachable db ctx p p' \<and> pr_main p' = MExited"
  have "main_inv (pr_now p) p" using assms by (simp add: main_inv_def)
  with p' have "main_inv (pr_now p) p'" using main_inv_reachable by blast
  with p' show "rt_cancelled (sv_rt (pr_server p'))" "pr_now p + 5 * 10 ^ 9 \<le> pr_now p'"
    by (simp_all add: main_inv_def shutdown_timeout_def)
next
  assume "rt_cancelled (sv_rt (pr_server p))"
  from can_exit [OF assms this] show "\<exists>p'. process_reachable db ctx p p' \<and> pr_main p' = MExited \<and> pr_server p' = pr_server p"
    by (intro exI [of _ "p\<lparr>pr_now := pr_now p + shutdown_timeout, pr_main := MExited\<rparr>"] conjI) simp_all
qed

text \<open>A process with one client in \<^verbatim>\<open>push\<close>, cancelled and gone.\<close>

lemma run_exits:
  obtains p where "process_reachable run_db [] (process_start 1 0 run_wal demo_fs) p" "pr_main p = MExited"
    "pr_now p = shutdown_timeout" "sv_replies (pr_server p) = []" "rt_written (sv_rt (pr_server p)) = []"
    "sv_handlers (pr_server p) = [HPush ''SET a 1'' (WSet ''a'' ''1'') 1]" "rt_fs (sv_rt (pr_server p)) = demo_fs"
proof -
  let ?boot = "process_start 1 0 run_wal demo_fs"
  let ?st = "sv_at (run_state (run_wal\<lparr>wal_batches := [[run_req]]\<rparr>) demo_fs fresh_chan (CWait run_req) FTop False []) 1
    (HPush ''SET a 1'' (WSet ''a'' ''1'') 1) []"
  let ?p = "?boot\<lparr>pr_server := ?st\<lparr>sv_rt := (sv_rt ?st)\<lparr>rt_cancelled := True\<rparr>\<rparr>\<rparr>"
  have "server_reachable run_db [] (server_start 1 run_wal demo_fs) (?st\<lparr>sv_rt := (sv_rt ?st)\<lparr>rt_cancelled := True\<rparr>\<rparr>)"
    by (rule sv_trans [OF run_called [OF run_wal_eager] server_step.shutdown])
  then have 1: "process_reachable run_db [] ?boot ?p" by (rule server_run_process) (simp_all add: process_start_def)
  have 2: "process_reachable run_db [] ?p (?p\<lparr>pr_now := pr_now ?p + shutdown_timeout, pr_main := MExited\<rparr>)"
    by (rule can_exit) (simp_all add: process_start_def)
  from rtranclp_trans [OF 1 2] show thesis by (rule that) (simp_all add: process_start_def sv_at_def run_state_def)
qed

theorem shutdown_waits_five_seconds_witness:
  "\<exists>p. process_reachable run_db [] (process_start 1 0 run_wal demo_fs) p \<and> pr_main p = MExited \<and>
    rt_cancelled (sv_rt (pr_server p)) \<and> 5 * 10 ^ 9 \<le> pr_now p"
proof -
  obtain p where p: "process_reachable run_db [] (process_start 1 0 run_wal demo_fs) p" "pr_main p = MExited" by (rule run_exits)
  have "pr_main (process_start 1 0 run_wal demo_fs) = MWait" "pr_now (process_start 1 0 run_wal demo_fs) = 0"
    by (simp_all add: process_start_def)
  with shutdown_waits_five_seconds [of "process_start 1 0 run_wal demo_fs" run_db "[]"] p show ?thesis by auto
qed

text \<open>
  C40. The exit does not wait for requests: there is a run of the process in which a connection has sent
  \<^verbatim>\<open>SET a 1\<close> and waits in \<^verbatim>\<open>push\<close>, the context is cancelled, the five seconds pass, and the process ends
  although the request has not been answered and its record is in no file, and no step is possible any
  more. What drains the WAL in time is only the scheduling of the other goroutines.
\<close>

theorem exit_drops_request:
  "\<exists>db p. wire_database ascii_upper_images (Some DiscardLogger) = Inr db \<and>
    process_reachable db [] (process_start 1 0 run_wal demo_fs) p \<and> pr_main p = MExited \<and>
    map handler_raw (sv_handlers (pr_server p)) = [Some ''SET a 1''] \<and> sv_replies (pr_server p) = [] \<and>
    rt_fs (sv_rt (pr_server p)) = demo_fs \<and> \<not> (\<exists>p'. process_step db [] p p')"
proof -
  obtain p where p: "process_reachable run_db [] (process_start 1 0 run_wal demo_fs) p" "pr_main p = MExited"
    "sv_replies (pr_server p) = []" "sv_handlers (pr_server p) = [HPush ''SET a 1'' (WSet ''a'' ''1'') 1]"
    "rt_fs (sv_rt (pr_server p)) = demo_fs" by (rule run_exits)
  moreover have "\<not> (\<exists>p'. process_step run_db [] p p')" using p(2) by (auto elim: process_stepE)
  ultimately show ?thesis using run_db_wired by (intro exI [of _ run_db] exI [of _ p]) simp
qed

end
