(* ===== verification/Network.thy ===== *)
theory Network
  imports Concurrency Go_Strings
begin

text \<open>
  Package \<^verbatim>\<open>internal/network\<close>: connections as the package uses them, the options (network_option.go), the
  per-connection loop and the accept loop of the server (tcp_server.go), and the client (tcp_client.go).
\<close>

section \<open>Connections\<close>

text \<open>
  One end of a TCP connection. What is still to be read arrives in pieces, one per \<^verbatim>\<open>Read\<close> that could
  take it whole, or as an error; after the last piece the peer has closed. What was written is kept in
  order. Every other call on the connection (deadlines, writes) may fail: \<open>nc_fault\<close> gives the fate of
  the \<open>k\<close>-th one.
\<close>

datatype net_event = Data bytes | Fail go_error

record net_conn =
  nc_in :: "net_event list"
  nc_out :: "bytes list"
  nc_fault :: "nat \<Rightarrow> go_error option"
  nc_calls :: nat
  nc_closed :: bool

definition conn_call :: "net_conn \<Rightarrow> go_error option \<times> net_conn" where
  "conn_call c = (nc_fault c (nc_calls c), c\<lparr>nc_calls := Suc (nc_calls c)\<rparr>)"

definition conn_SetDeadline :: "net_conn \<Rightarrow> go_error option \<times> net_conn" where
  "conn_SetDeadline c = conn_call c"

text \<open>\<^verbatim>\<open>Read\<close> into a buffer of \<open>n\<close> bytes takes at most \<open>n\<close> and leaves the rest for the next \<^verbatim>\<open>Read\<close>; an empty buffer is not waited for.\<close>

definition conn_Read :: "nat \<Rightarrow> net_conn \<Rightarrow> bytes result \<times> net_conn" where
  "conn_Read n c = (if n = 0 then (Inr [], c) else case nc_in c of
       [] \<Rightarrow> (Inl Io_EOF, c)
     | Fail e # es \<Rightarrow> (Inl e, c\<lparr>nc_in := es\<rparr>)
     | Data d # es \<Rightarrow> (if length d \<le> n then (Inr d, c\<lparr>nc_in := es\<rparr>)
                      else (Inr (take n d), c\<lparr>nc_in := Data (drop n d) # es\<rparr>)))"

definition conn_Write :: "bytes \<Rightarrow> net_conn \<Rightarrow> go_error option \<times> net_conn" where
  "conn_Write d c = (case conn_call c of
       (None, c') \<Rightarrow> (None, c'\<lparr>nc_out := nc_out c' @ [d]\<rparr>)
     | (Some e, c') \<Rightarrow> (Some e, c'))"

definition conn_Close :: "net_conn \<Rightarrow> go_error option \<times> net_conn" where
  "conn_Close c = (case conn_call c of (e, c') \<Rightarrow> (e, c'\<lparr>nc_closed := True\<rparr>))"

lemmas conn_defs = conn_call_def conn_SetDeadline_def conn_Read_def conn_Write_def conn_Close_def

section \<open>The server: construction (tcp_server.go, network_option.go)\<close>

text \<open>The listener is the address it listens on; the semaphore is nil until the last line of the constructor.\<close>

record TCPServer =
  srv_listener :: string
  srv_semaphore :: "Semaphore option"
  srv_idleTimeout :: int64
  srv_maxConnections :: int64
  srv_bufferSize :: int64
  srv_log :: logger

type_synonym TCPServeOption = "TCPServer \<Rightarrow> TCPServer"

text \<open>Five minutes in nanoseconds.\<close>

definition five_minutes :: int64 where
  "five_minutes = 5 * 60000000000"

definition WithServerTCPIdleTimeout :: "int64 \<Rightarrow> TCPServeOption" where
  "WithServerTCPIdleTimeout timeout server =
     server\<lparr>srv_idleTimeout := (if timeout < 0 then five_minutes else timeout)\<rparr>"

definition WithServerTCPMaxConnectionNumber :: "int64 \<Rightarrow> TCPServeOption" where
  "WithServerTCPMaxConnectionNumber maxConnections server =
     server\<lparr>srv_maxConnections := (if maxConnections < 0 then 100 else maxConnections)\<rparr>"

definition WithServerTCPBufferSize :: "int64 \<Rightarrow> TCPServeOption" where
  "WithServerTCPBufferSize bufferSize server =
     server\<lparr>srv_bufferSize := (if bufferSize < 0 then 4098 else bufferSize)\<rparr>"

lemmas server_option_defs =
  WithServerTCPIdleTimeout_def WithServerTCPMaxConnectionNumber_def WithServerTCPBufferSize_def five_minutes_def

text \<open>The listening sockets of the machine, and what \<^verbatim>\<open>Listen\<close> answers for an address.\<close>

record net_world =
  nw_listeners :: "string list"
  nw_listen :: "string \<Rightarrow> go_error option"

definition NewTCPServer ::
    "string \<Rightarrow> logger option \<Rightarrow> TCPServeOption list \<Rightarrow> net_world \<Rightarrow> TCPServer result \<times> net_world" where
  "NewTCPServer address log options net =
     (case log of
        None \<Rightarrow> (Inl Network_ErrInvalidLogger, net)
      | Some l \<Rightarrow> (case nw_listen net address of
          Some err \<Rightarrow> (Inl err, net)
        | None \<Rightarrow>
            (let net1 = net\<lparr>nw_listeners := address # nw_listeners net\<rparr>;
                 server0 = \<lparr>srv_listener = address, srv_semaphore = None, srv_idleTimeout = 0, srv_maxConnections = 0,
                   srv_bufferSize = 0, srv_log = l\<rparr>;
                 server = fold (\<lambda>option s. option s) options server0
             in if srv_maxConnections server = 0 then (Inl Network_ErrInvalidMaxConn, net1)
                else if srv_bufferSize server = 0 then (Inl Network_ErrInvalidBufferSize, net1)
                else (Inr (server\<lparr>srv_semaphore := Some (NewSemaphore (srv_maxConnections server))\<rparr>), net1))))"

text \<open>A server that is refused because of its options leaves its listener open.\<close>

lemma NewTCPServer_leaks_listener:
  "nw_listen net address = None \<Longrightarrow>
   \<exists>net'. NewTCPServer address (Some l) [WithServerTCPMaxConnectionNumber 0, WithServerTCPBufferSize n] net =
     (Inl Network_ErrInvalidMaxConn, net') \<and> address \<in> set (nw_listeners net')"
  by (simp add: NewTCPServer_def server_option_defs)

section \<open>The server: one connection (tcp_server.go)\<close>

text \<open>
  What a call of the handler does, on the state \<^typ>\<open>'s\<close> the handler works on: it replies, panics, or
  never returns. The context it gets is the same for all calls and part of the handler here.
\<close>

datatype 's handled = Reply bytes 's | Panicked 's | Hangs

type_synonym 's TCPHandler = "bytes \<Rightarrow> 's \<Rightarrow> 's handled"

text \<open>How the connection loop ends: it leaves the loop (also by a panic that is recovered), or hangs in a handler.\<close>

datatype 's served = Served net_conn 's | Hung

definition set_idle_deadline :: "TCPServer \<Rightarrow> net_conn \<Rightarrow> go_error option \<times> net_conn" where
  "set_idle_deadline server c = (if srv_idleTimeout server \<noteq> 0 then conn_SetDeadline c else (None, c))"

text \<open>One round of the loop: the new state to go on with, or how the loop ended.\<close>

definition serve_round ::
    "TCPServer \<Rightarrow> 's TCPHandler \<Rightarrow> net_conn \<Rightarrow> 's \<Rightarrow> 's served + net_conn \<times> 's" where
  "serve_round server handler c s =
     (case set_idle_deadline server c of
        (Some err, c1) \<Rightarrow> Inl (Served c1 s)
      | (None, c1) \<Rightarrow>
          (case conn_Read (nat (srv_bufferSize server)) c1 of
             (Inl err, c2) \<Rightarrow> Inl (Served c2 s)
           | (Inr query, c2) \<Rightarrow>
               (case handler query s of
                  Hangs \<Rightarrow> Inl Hung
                | Panicked s' \<Rightarrow> Inl (Served c2 s')
                | Reply response s' \<Rightarrow>
                    (case set_idle_deadline server c2 of
                       (Some err, c3) \<Rightarrow> Inl (Served c3 s')
                     | (None, c3) \<Rightarrow>
                         (case conn_Write response c3 of
                            (Some err, c4) \<Rightarrow> Inl (Served c4 s')
                          | (None, c4) \<Rightarrow> Inr (c4, s'))))))"

text \<open>The loop may run for ever (a buffer of size 0 makes no progress), so it is a partial function.\<close>

partial_function (option) serve_loop :: "TCPServer \<Rightarrow> 's TCPHandler \<Rightarrow> net_conn \<Rightarrow> 's \<Rightarrow> 's served option" where
  "serve_loop server handler c s =
     (case serve_round server handler c s of
        Inl end_of_loop \<Rightarrow> Some end_of_loop
      | Inr (c', s') \<Rightarrow> serve_loop server handler c' s')"

definition HandleConnections :: "TCPServer \<Rightarrow> 's TCPHandler \<Rightarrow> net_conn \<Rightarrow> 's \<Rightarrow> 's served option" where
  "HandleConnections server handler c s =
     (case serve_loop server handler c s of
        None \<Rightarrow> None
      | Some Hung \<Rightarrow> Some Hung
      | Some (Served c' s') \<Rightarrow> Some (Served (snd (conn_Close c')) s'))"


section \<open>What a connection is answered\<close>

text \<open>The requests the loop sees: each piece cut into buffers, up to the first read error.\<close>

function chop :: "nat \<Rightarrow> 'a list \<Rightarrow> 'a list list" where
  "chop n xs = (if length xs \<le> n \<or> n = 0 then [xs] else take n xs # chop n (drop n xs))"
  by pat_completeness auto
termination by (relation "measure (length \<circ> snd)") auto

declare chop.simps [simp del]

fun requests_of :: "nat \<Rightarrow> net_event list \<Rightarrow> bytes list" where
  "requests_of n [] = []"
| "requests_of n (Fail e # es) = []"
| "requests_of n (Data d # es) = chop n d @ requests_of n es"

text \<open>A handler over a list of requests, one after the other, up to the first that gets no reply.\<close>

fun replies :: "'s TCPHandler \<Rightarrow> bytes list \<Rightarrow> 's \<Rightarrow> bytes list \<times> 's" where
  "replies handler [] s = ([], s)"
| "replies handler (q # qs) s = (case handler q s of
       Reply r s' \<Rightarrow> (case replies handler qs s' of (rs, s'') \<Rightarrow> (r # rs, s''))
     | Panicked s' \<Rightarrow> ([], s')
     | Hangs \<Rightarrow> ([], s))"

lemma chop_short: "length xs \<le> n \<Longrightarrow> chop n xs = [xs]"
  by (simp add: chop.simps [of n xs])

lemma chop_long: "n < length xs \<Longrightarrow> 0 < n \<Longrightarrow> chop n xs = take n xs # chop n (drop n xs)"
  by (subst chop.simps) simp

lemma concat_chop: "concat (chop n xs) = xs"
  by (induction n xs rule: chop.induct) (subst chop.simps, auto)

fun event_size :: "net_event \<Rightarrow> nat" where
  "event_size (Data d) = Suc (length d)"
| "event_size (Fail e) = 1"

definition input_size :: "net_conn \<Rightarrow> nat" where
  "input_size c = sum_list (map event_size (nc_in c))"

lemma conn_Read_Inr:
  assumes "conn_Read n c = (Inr q, c')" "0 < n"
  shows "input_size c' < input_size c \<and> requests_of n (nc_in c) = q # requests_of n (nc_in c') \<and>
    nc_out c' = nc_out c \<and> nc_fault c' = nc_fault c \<and> nc_calls c' = nc_calls c"
  using assms
  by (auto simp: conn_Read_def input_size_def chop_short chop_long split: list.splits net_event.splits if_splits)

lemma conn_Read_Inl: "conn_Read n c = (Inl e, c') \<Longrightarrow> requests_of n (nc_in c) = [] \<and> nc_out c' = nc_out c"
  by (auto simp: conn_Read_def split: list.splits net_event.splits if_splits)

lemma set_idle_deadline_frame:
  "set_idle_deadline server c = (e, c') \<Longrightarrow>
     nc_in c' = nc_in c \<and> nc_out c' = nc_out c \<and> nc_fault c' = nc_fault c \<and> input_size c' = input_size c"
  by (auto simp: set_idle_deadline_def conn_defs input_size_def split: if_splits)

lemma conn_Write_frame:
  "conn_Write d c = (e, c') \<Longrightarrow> nc_in c' = nc_in c \<and> nc_fault c' = nc_fault c \<and> input_size c' = input_size c"
  by (auto simp: conn_Write_def conn_call_def input_size_def split: option.splits)

lemma no_fault_calls:
  assumes "nc_fault c = (\<lambda>_. None)"
  obtains c1 c2 where "set_idle_deadline server c = (None, c1)" "nc_fault c1 = (\<lambda>_. None)" "conn_Write d c = (None, c2)"
  using assms by (cases "srv_idleTimeout server = 0") (simp_all add: set_idle_deadline_def conn_defs)

text \<open>A round that goes on has read something, answered it, and left less to read.\<close>

lemma serve_round_Inr:
  assumes "serve_round server handler c s = Inr (c', s')" "0 < srv_bufferSize server"
  obtains q r where "handler q s = Reply r s'" "input_size c' < input_size c" "nc_fault c' = nc_fault c"
    "requests_of (nat (srv_bufferSize server)) (nc_in c) = q # requests_of (nat (srv_bufferSize server)) (nc_in c')"
    "nc_out c' = nc_out c @ [r]"
proof -
  obtain c1 c2 c3 q r where c1: "set_idle_deadline server c = (None, c1)"
    and c2: "conn_Read (nat (srv_bufferSize server)) c1 = (Inr q, c2)" and h: "handler q s = Reply r s'"
    and c3: "set_idle_deadline server c2 = (None, c3)" and c4: "conn_Write r c3 = (None, c')"
    using assms(1) by (auto simp: serve_round_def split: prod.splits option.splits sum.splits handled.splits)
  have "nc_out c' = nc_out c3 @ [r]" using c4 by (auto simp: conn_Write_def conn_call_def split: option.splits)
  with set_idle_deadline_frame [OF c1] conn_Read_Inr [OF c2] set_idle_deadline_frame [OF c3] conn_Write_frame [OF c4] assms(2) h
  show thesis by (intro that [of q r]) auto
qed

lemma serve_loop_ends:
  assumes "0 < srv_bufferSize server"
  shows "\<exists>e. serve_loop server handler c s = Some e \<and> (e = Hung \<longrightarrow> (\<exists>q s. handler q s = Hangs))"
proof (induction "input_size c" arbitrary: c s rule: less_induct)
  case less
  show ?case
  proof (cases "serve_round server handler c s")
    case (Inl e)
    then have "e = Hung \<longrightarrow> (\<exists>q s. handler q s = Hangs)"
      by (auto simp: serve_round_def split: prod.splits option.splits sum.splits handled.splits)
    with Inl show ?thesis by (simp add: serve_loop.simps [of server handler c s])
  next
    case (Inr cs)
    then obtain c' s' where r: "serve_round server handler c s = Inr (c', s')" by (cases cs) auto
    have "input_size c' < input_size c" by (rule serve_round_Inr [OF r assms])
    from less [OF this, of s'] r show ?thesis by (simp add: serve_loop.simps [of server handler c s])
  qed
qed



definition demo_conn :: "net_event list \<Rightarrow> net_conn" where
  "demo_conn es = \<lparr>nc_in = es, nc_out = [], nc_fault = (\<lambda>_. None), nc_calls = 0, nc_closed = False\<rparr>"

definition demo_server :: "int64 \<Rightarrow> TCPServer" where
  "demo_server n = \<lparr>srv_listener = ''127.0.0.1:3323'', srv_semaphore = Some (NewSemaphore 10), srv_idleTimeout = five_minutes,
     srv_maxConnections = 10, srv_bufferSize = n, srv_log = DiscardLogger\<rparr>"


text \<open>What the server needs of its handler so that every request is answered.\<close>

locale replying_handler =
  fixes handler :: "'s TCPHandler"
    and ok :: "'s \<Rightarrow> bool"
  assumes handler_replies: "ok s \<Longrightarrow> \<exists>r s'. handler q s = Reply r s' \<and> ok s'"
begin

lemma serve_loop_replies:
  assumes "0 < srv_bufferSize server"
  shows "nc_fault c = (\<lambda>_. None) \<Longrightarrow> ok s \<Longrightarrow> replies handler (requests_of (nat (srv_bufferSize server)) (nc_in c)) s = (rs, s') \<Longrightarrow>
    \<exists>c'. serve_loop server handler c s = Some (Served c' s') \<and> nc_out c' = nc_out c @ rs"
proof (induction "input_size c" arbitrary: c s rs rule: less_induct)
  case less
  obtain c1 where "set_idle_deadline server c = (None, c1)" by (rule no_fault_calls [OF less.prems(1)])
  with set_idle_deadline_frame have c1: "set_idle_deadline server c = (None, c1)" "nc_in c1 = nc_in c" "nc_out c1 = nc_out c"
    by blast+
  show ?case
  proof (cases "conn_Read (nat (srv_bufferSize server)) c1")
    case (Pair res c2)
    show ?thesis
    proof (cases res)
      case (Inl e)
      with Pair conn_Read_Inl have "requests_of (nat (srv_bufferSize server)) (nc_in c) = [] \<and> nc_out c2 = nc_out c"
        using c1 by metis
      with less.prems(3) c1(1) Pair Inl show ?thesis
        by (simp add: serve_loop.simps [of server handler c] serve_round_def)
    next
      case (Inr q)
      from handler_replies [OF less.prems(2), of q] obtain r s1 where h: "handler q s = Reply r s1" "ok s1" by blast
      have f: "nc_fault c2 = (\<lambda>_. None)"
        using conn_Read_Inr [of _ c1 q c2] Pair Inr assms less.prems(1) set_idle_deadline_frame [OF c1(1)] by simp
      then obtain c3 where c3: "set_idle_deadline server c2 = (None, c3)" "nc_fault c3 = (\<lambda>_. None)" by (rule no_fault_calls)
      obtain c4 where "conn_Write r c3 = (None, c4)" by (rule no_fault_calls [OF c3(2)])
      with c3(1) c1(1) Pair Inr h have r: "serve_round server handler c s = Inr (c4, s1)" by (simp add: serve_round_def)
      then obtain q' r' where q': "handler q' s = Reply r' s1" "input_size c4 < input_size c" "nc_fault c4 = nc_fault c"
        "requests_of (nat (srv_bufferSize server)) (nc_in c) = q' # requests_of (nat (srv_bufferSize server)) (nc_in c4)"
        "nc_out c4 = nc_out c @ [r']" by (rule serve_round_Inr [OF _ assms])
      obtain rs1 where "replies handler (requests_of (nat (srv_bufferSize server)) (nc_in c4)) s1 = (rs1, s')" "rs = r' # rs1"
        using less.prems(3) q'(1,4) by (auto split: prod.splits)
      with less.hyps [OF q'(2)] q'(3,5) less.prems(1) h(2) r show ?thesis
        by (fastforce simp: serve_loop.simps [of server handler c s])
    qed
  qed
qed

lemma HandleConnections_replies:
  assumes "0 < srv_bufferSize server" "nc_fault c = (\<lambda>_. None)" "ok s"
    and "replies handler (requests_of (nat (srv_bufferSize server)) (nc_in c)) s = (rs, s')"
  shows "\<exists>c'. HandleConnections server handler c s = Some (Served c' s') \<and> nc_out c' = nc_out c @ rs \<and> nc_closed c'"
  using serve_loop_replies [OF assms] by (auto simp: HandleConnections_def conn_Close_def conn_call_def)

end

section \<open>The server: accepting connections (tcp_server.go)\<close>

text \<open>
  The goroutine of the accept loop: in \<^verbatim>\<open>Accept\<close>, before or parked in \<^verbatim>\<open>Acquire\<close> with the connection it
  holds, or returned. The goroutine that called \<^verbatim>\<open>HandleClientQueries\<close>: waiting for the cancellation,
  waiting for the group, or returned.
\<close>

datatype acceptor = AAccept | AAcquire nat | AParked nat | AReturned

datatype query_main = QWait | QJoin | QReturned

text \<open>
  The server at run time. The semaphore is the one of \<open>Concurrency\<close>, its goroutines named by the
  connection they are for: its holders are the connections being served.
\<close>

record srv_rt =
  sr_sem :: Semaphore
  sr_acceptor :: acceptor
  sr_main :: query_main
  sr_next :: nat
  sr_cancelled :: bool
  sr_closed :: bool

definition woken_park :: "nat \<Rightarrow> Semaphore \<Rightarrow> Semaphore" where
  "woken_park c s = s\<lparr>sem_woken := remove1 c (sem_woken s), sem_waiting := sem_waiting s @ [c]\<rparr>"

definition woken_take :: "nat \<Rightarrow> Semaphore \<Rightarrow> Semaphore" where
  "woken_take c s = sem_take c (s\<lparr>sem_woken := remove1 c (sem_woken s)\<rparr>)"

inductive srv_step :: "srv_rt \<Rightarrow> srv_rt \<Rightarrow> bool" where
  accept: "sr_acceptor st = AAccept \<Longrightarrow> \<not> sr_closed st \<Longrightarrow>
    srv_step st (st\<lparr>sr_acceptor := AAcquire (sr_next st), sr_next := Suc (sr_next st)\<rparr>)"
| accept_error: "sr_acceptor st = AAccept \<Longrightarrow> \<not> sr_closed st \<Longrightarrow> srv_step st st"
| accept_closed: "sr_acceptor st = AAccept \<Longrightarrow> sr_closed st \<Longrightarrow> srv_step st (st\<lparr>sr_acceptor := AReturned\<rparr>)"
| acquire: "sr_acceptor st = AAcquire c \<Longrightarrow> \<not> sem_count (sr_sem st) \<ge> sem_max (sr_sem st) \<Longrightarrow>
    srv_step st (st\<lparr>sr_acceptor := AAccept, sr_sem := sem_take c (sr_sem st)\<rparr>)"
| park: "sr_acceptor st = AAcquire c \<Longrightarrow> sem_count (sr_sem st) \<ge> sem_max (sr_sem st) \<Longrightarrow>
    srv_step st (st\<lparr>sr_acceptor := AParked c, sr_sem := (sr_sem st)\<lparr>sem_waiting := sem_waiting (sr_sem st) @ [c]\<rparr>\<rparr>)"
| wake: "sr_acceptor st = AParked c \<Longrightarrow> c \<in> set (sem_woken (sr_sem st)) \<Longrightarrow> \<not> sem_count (sr_sem st) \<ge> sem_max (sr_sem st) \<Longrightarrow>
    srv_step st (st\<lparr>sr_acceptor := AAccept, sr_sem := woken_take c (sr_sem st)\<rparr>)"
| wake_again: "sr_acceptor st = AParked c \<Longrightarrow> c \<in> set (sem_woken (sr_sem st)) \<Longrightarrow> sem_count (sr_sem st) \<ge> sem_max (sr_sem st) \<Longrightarrow>
    srv_step st (st\<lparr>sr_sem := woken_park c (sr_sem st)\<rparr>)"
| served: "sem_holders (sr_sem st) = hs @ c # ks \<Longrightarrow> sem_waiting (sr_sem st) = [] \<Longrightarrow>
    srv_step st (st\<lparr>sr_sem := (sr_sem st)\<lparr>sem_count := sem_count (sr_sem st) - 1, sem_holders := hs @ ks\<rparr>\<rparr>)"
| served_signal: "sem_holders (sr_sem st) = hs @ c # ks \<Longrightarrow> sem_waiting (sr_sem st) = us @ g # vs \<Longrightarrow>
    srv_step st (st\<lparr>sr_sem := (sr_sem st)\<lparr>sem_count := sem_count (sr_sem st) - 1, sem_holders := hs @ ks,
      sem_waiting := us @ vs, sem_woken := sem_woken (sr_sem st) @ [g]\<rparr>\<rparr>)"
| cancel: "srv_step st (st\<lparr>sr_cancelled := True\<rparr>)"
| close: "sr_main st = QWait \<Longrightarrow> sr_cancelled st \<Longrightarrow> srv_step st (st\<lparr>sr_main := QJoin, sr_closed := True\<rparr>)"
| join: "sr_main st = QJoin \<Longrightarrow> sr_acceptor st = AReturned \<Longrightarrow> srv_step st (st\<lparr>sr_main := QReturned\<rparr>)"

definition srv_start :: "int64 \<Rightarrow> srv_rt" where
  "srv_start limit = \<lparr>sr_sem = NewSemaphore limit, sr_acceptor = AAccept, sr_main = QWait, sr_next = 0,
     sr_cancelled = False, sr_closed = False\<rparr>"

inductive srv_reachable :: "int64 \<Rightarrow> srv_rt \<Rightarrow> bool" for limit where
  srv_init: "srv_reachable limit (srv_start limit)"
| srv_next: "srv_reachable limit st \<Longrightarrow> srv_step st st' \<Longrightarrow> srv_reachable limit st'"

inductive_cases srv_stepE: "srv_step st st'"


text \<open>Every step of the server is a step of the semaphore or leaves it alone.\<close>

lemma srv_step_sem:
  assumes "srv_step st st'"
  shows "sr_sem st' = sr_sem st \<or> sem_step (sr_sem st) (sr_sem st')"
proof -
  have split: "\<exists>us vs. xs = us @ c # vs \<and> remove1 c xs = us @ vs" if "c \<in> set xs" for c and xs :: "nat list"
    using split_list_first [OF that] by (fastforce simp: remove1_append)
  from assms show ?thesis
  proof cases
    case (wake c)
    from split [OF wake(3)] wake(1,4) show ?thesis by (auto simp: woken_take_def intro!: sem_step.wake_now)
  next
    case (wake_again c)
    from split [OF wake_again(3)] wake_again(1,4) show ?thesis by (auto simp: woken_park_def intro!: sem_step.wake_park)
  qed (auto intro: sem_step.intros)
qed

lemma srv_reachable_sem: "srv_reachable limit st \<Longrightarrow> sem_reachable limit (sr_sem st)"
proof (induction rule: srv_reachable.induct)
  case srv_init
  then show ?case by (simp add: srv_start_def sem_start)
next
  case (srv_next st st')
  then show ?case using srv_step_sem [OF srv_next(2)] by (auto intro: sem_next)
qed

text \<open>
  Who is where: the waiting and the woken goroutine of the semaphore can only be the accept loop, the
  connections being served are different from each other and from the one it holds, and the listener is
  closed exactly when the caller has left its wait.
\<close>

fun acceptor_inv :: "acceptor \<Rightarrow> srv_rt \<Rightarrow> bool" where
  "acceptor_inv (AParked c) st = (mset (sem_waiting (sr_sem st)) + mset (sem_woken (sr_sem st)) = {#c#} \<and>
     c < sr_next st \<and> c \<notin> set (sem_holders (sr_sem st)))"
| "acceptor_inv (AAcquire c) st = (sem_waiting (sr_sem st) = [] \<and> sem_woken (sr_sem st) = [] \<and>
     c < sr_next st \<and> c \<notin> set (sem_holders (sr_sem st)))"
| "acceptor_inv AAccept st = (sem_waiting (sr_sem st) = [] \<and> sem_woken (sr_sem st) = [])"
| "acceptor_inv AReturned st = (sem_waiting (sr_sem st) = [] \<and> sem_woken (sr_sem st) = [] \<and> sr_closed st)"

definition srv_inv :: "srv_rt \<Rightarrow> bool" where
  "srv_inv st \<longleftrightarrow> acceptor_inv (sr_acceptor st) st \<and> distinct (sem_holders (sr_sem st)) \<and>
     set (sem_holders (sr_sem st)) \<subseteq> {..<sr_next st} \<and> (sr_closed st \<longleftrightarrow> sr_main st \<noteq> QWait) \<and>
     (sr_main st = QReturned \<longrightarrow> sr_acceptor st = AReturned)"

lemma single_mset_cases: "mset xs + mset ys = {#c#} \<Longrightarrow> xs = [c] \<and> ys = [] \<or> xs = [] \<and> ys = [c]"
  by (auto simp: union_is_single)

lemma acceptor_inv_frame:
  assumes "acceptor_inv a st" "sem_waiting (sr_sem st') = sem_waiting (sr_sem st)" "sem_woken (sr_sem st') = sem_woken (sr_sem st)"
    "set (sem_holders (sr_sem st')) \<subseteq> set (sem_holders (sr_sem st))" "sr_next st' = sr_next st" "sr_closed st \<Longrightarrow> sr_closed st'"
  shows "acceptor_inv a st'"
  using assms by (cases a) auto

lemma acceptor_inv_signal:
  assumes "acceptor_inv a st" "sem_waiting (sr_sem st) = us @ g # vs"
    "sem_waiting (sr_sem st') = us @ vs" "sem_woken (sr_sem st') = sem_woken (sr_sem st) @ [g]"
    "set (sem_holders (sr_sem st')) \<subseteq> set (sem_holders (sr_sem st))" "sr_next st' = sr_next st"
  shows "acceptor_inv a st'"
  using assms by (cases a) auto

lemma srv_step_inv: "srv_step st st' \<Longrightarrow> srv_inv st \<Longrightarrow> srv_inv st'"
proof (induction rule: srv_step.induct)
  case (wake st c)
  then show ?case by (auto simp: srv_inv_def woken_take_def sem_take_def dest!: single_mset_cases)
next
  case (wake_again st c)
  then show ?case by (auto simp: srv_inv_def woken_park_def dest!: single_mset_cases)
next
  case (served st hs c ks)
  then show ?case by (auto simp: srv_inv_def intro: acceptor_inv_frame)
next
  case (served_signal st hs c ks us g vs)
  then show ?case by (auto simp: srv_inv_def intro: acceptor_inv_signal)
next
  case (cancel st)
  then show ?case by (auto simp: srv_inv_def intro: acceptor_inv_frame)
next
  case (close st)
  then show ?case by (auto simp: srv_inv_def intro: acceptor_inv_frame)
next
  case (join st)
  then show ?case by (auto simp: srv_inv_def)
qed (auto simp: srv_inv_def sem_take_def)

lemma srv_reachable_inv: "srv_reachable limit st \<Longrightarrow> srv_inv st"
proof (induction rule: srv_reachable.induct)
  case srv_init
  then show ?case by (simp add: srv_inv_def srv_start_def NewSemaphore_def)
qed (rule srv_step_inv)

text \<open>
  C25. The server serves at most \<^verbatim>\<open>maxConnections\<close> connections at a time, under every interleaving of the
  accept loop, the connection handlers and the shutdown; at most one more connection is accepted and held
  back, and when a handler finishes while it is held back, the accept loop has been woken. After
  \<^verbatim>\<open>HandleClientQueries\<close> has returned nothing is accepted any more.
\<close>

theorem server_bounds_connections:
  assumes "srv_reachable limit st" and "0 < limit"
  shows "int (length (sem_holders (sr_sem st))) \<le> limit \<and> distinct (sem_holders (sr_sem st)) \<and>
    (\<forall>c. sr_acceptor st = AParked c \<longrightarrow> c \<notin> set (sem_holders (sr_sem st)) \<and>
       (int (length (sem_holders (sr_sem st))) < limit \<longrightarrow> sem_woken (sr_sem st) = [c])) \<and>
    (sr_main st = QReturned \<longrightarrow> sr_acceptor st = AReturned \<and> sr_closed st)"
proof -
  have s: "sem_inv limit (sr_sem st)" by (rule sem_reachable_inv [OF srv_reachable_sem [OF assms(1)]])
  have i: "srv_inv st" by (rule srv_reachable_inv [OF assms(1)])
  have "sem_woken (sr_sem st) = [c]" if "sr_acceptor st = AParked c" "int (length (sem_holders (sr_sem st))) < limit" for c
  proof -
    have "sem_waiting (sr_sem st) = [c] \<and> sem_woken (sr_sem st) = [] \<or> sem_waiting (sr_sem st) = [] \<and> sem_woken (sr_sem st) = [c]"
      using i that(1) by (intro single_mset_cases) (simp add: srv_inv_def)
    then show ?thesis using s that(2) by (auto simp: sem_inv_def)
  qed
  with s i assms(2) show ?thesis by (auto simp: sem_inv_def srv_inv_def)
qed

lemma srv_run_one:
  "srv_reachable 1 (srv_start 1\<lparr>sr_sem := \<lparr>sem_count = 1, sem_max = 1, sem_waiting = [], sem_woken = [], sem_holders = [0]\<rparr>,
     sr_next := 1\<rparr>)"
proof -
  have 1: "srv_reachable 1 (srv_start 1\<lparr>sr_acceptor := AAcquire 0, sr_next := 1\<rparr>)"
    using srv_next [OF srv_init srv_step.accept, of 1] by (simp add: srv_start_def)
  show ?thesis using srv_next [OF 1 srv_step.acquire [of _ 0]] by (simp add: srv_start_def NewSemaphore_def sem_take_def)
qed

text \<open>A run: one connection is accepted and served, the next one is accepted and held back, then the context is cancelled.\<close>

lemma srv_run_full:
  "srv_reachable 1 \<lparr>sr_sem = \<lparr>sem_count = 1, sem_max = 1, sem_waiting = [1], sem_woken = [], sem_holders = [0]\<rparr>,
     sr_acceptor = AParked 1, sr_main = QWait, sr_next = 2, sr_cancelled = False, sr_closed = False\<rparr>"
proof -
  let ?sem = "\<lparr>sem_count = 1, sem_max = 1, sem_waiting = [], sem_woken = [], sem_holders = [0]\<rparr>"
  have 3: "srv_reachable 1 (srv_start 1\<lparr>sr_sem := ?sem, sr_acceptor := AAcquire 1, sr_next := 2\<rparr>)"
    using srv_next [OF srv_run_one srv_step.accept] by (simp add: srv_start_def numeral_2_eq_2)
  show ?thesis using srv_next [OF 3 srv_step.park [of _ 1]] by (simp add: srv_start_def)
qed

theorem server_bounds_connections_witness:
  "\<exists>st. srv_reachable 1 st \<and> sr_acceptor st = AParked 1 \<and> int (length (sem_holders (sr_sem st))) \<le> 1 \<and>
    distinct (sem_holders (sr_sem st)) \<and> 1 \<notin> set (sem_holders (sr_sem st))"
  using server_bounds_connections [OF srv_run_full] srv_run_full
  by (intro exI conjI) (assumption, simp_all)

text \<open>
  Shutdown does not wait for the handlers: there is a run in which \<^verbatim>\<open>HandleClientQueries\<close> has returned
  while a connection is still being served, because the wait group counts only the accept loop.
\<close>

theorem shutdown_leaves_handlers:
  "\<exists>st. srv_reachable 1 st \<and> sr_main st = QReturned \<and> sem_holders (sr_sem st) \<noteq> []"
proof -
  let ?sem = "\<lparr>sem_count = 1, sem_max = 1, sem_waiting = [], sem_woken = [], sem_holders = [0]\<rparr>"
  let ?st = "\<lambda>a m b. \<lparr>sr_sem = ?sem, sr_acceptor = a, sr_main = m, sr_next = 1, sr_cancelled = True, sr_closed = b\<rparr>"
  have 3: "srv_reachable 1 (?st AAccept QWait False)" using srv_next [OF srv_run_one srv_step.cancel] by (simp add: srv_start_def)
  have 4: "srv_reachable 1 (?st AAccept QJoin True)" using srv_next [OF 3 srv_step.close] by simp
  have 5: "srv_reachable 1 (?st AReturned QJoin True)" using srv_next [OF 4 srv_step.accept_closed] by simp
  have 6: "srv_reachable 1 (?st AReturned QReturned True)" using srv_next [OF 5 srv_step.join] by simp
  then show ?thesis by (intro exI conjI) (assumption, simp_all)
qed


section \<open>The client (tcp_client.go, network_option.go)\<close>

record TCPClient =
  cli_conn :: "net_conn option"
  cli_address :: string
  cli_idleTimeout :: int64
  cli_maxMessageSize :: int64
  cli_log :: logger

type_synonym TCPClientOption = "TCPClient \<Rightarrow> TCPClient"

definition WithClientTCPAddress :: "string \<Rightarrow> TCPClientOption" where
  "WithClientTCPAddress address client = client\<lparr>cli_address := address\<rparr>"

definition WithClientTCPIdleTimeout :: "int64 \<Rightarrow> TCPClientOption" where
  "WithClientTCPIdleTimeout timeout client =
     client\<lparr>cli_idleTimeout := (if timeout < 0 then five_minutes else timeout)\<rparr>"

definition WithClientTCPMaxMessageSize :: "int64 \<Rightarrow> TCPClientOption" where
  "WithClientTCPMaxMessageSize maxMessageSize client =
     client\<lparr>cli_maxMessageSize := (if maxMessageSize < 0 then 4098 else maxMessageSize)\<rparr>"

text \<open>
  The dialer answers for an address and a time limit, if there is one, with the client's end of a
  connection or an error.
\<close>

definition NewTCPClient ::
    "(string \<Rightarrow> int64 option \<Rightarrow> net_conn result) \<Rightarrow> logger option \<Rightarrow> TCPClientOption list \<Rightarrow> TCPClient result" where
  "NewTCPClient dial log options =
     (case log of
        None \<Rightarrow> Inl (Errorf ''network.NewTCPClient: failed to initialize logger'' None)
      | Some l \<Rightarrow>
          (let client0 = \<lparr>cli_conn = None, cli_address = '''', cli_idleTimeout = 0, cli_maxMessageSize = 0, cli_log = l\<rparr>;
               client = fold (\<lambda>option c. option c) options client0;
               limit = (if cli_idleTimeout client > 0 then Some (cli_idleTimeout client) else None)
           in case dial (cli_address client) limit of
                Inl err \<Rightarrow> Inl (Errorf ''network.NewTCPClient: failed to connect to server: '' (Some err))
              | Inr conn \<Rightarrow> Inr (client\<lparr>cli_conn := Some conn\<rparr>)))"

text \<open>A failed deadline is only logged.\<close>

definition client_deadline :: "TCPClient \<Rightarrow> net_conn \<Rightarrow> net_conn" where
  "client_deadline client c = (if cli_idleTimeout client \<noteq> 0 then snd (conn_SetDeadline c) else c)"

definition SendAndReceive :: "bytes \<Rightarrow> TCPClient \<Rightarrow> (bytes result \<times> TCPClient) outcome" where
  "SendAndReceive request client =
     (case cli_conn client of
        None \<Rightarrow> Panics ''nil pointer dereference''
      | Some c \<Rightarrow>
          (case conn_Write request (client_deadline client c) of
             (Some err, c1) \<Rightarrow>
               Done (Inl (Errorf ''network.TCPClient.SendAndReceive: failed to send data to server '' (Some err)), client\<lparr>cli_conn := Some c1\<rparr>)
           | (None, c1) \<Rightarrow>
               (case conn_Read (nat (cli_maxMessageSize client)) (client_deadline client c1) of
                  (Inl err, c2) \<Rightarrow>
                    Done (Inl (Errorf ''network.TCPClient.SendAndReceive: failed to read data from server '' (Some err)), client\<lparr>cli_conn := Some c2\<rparr>)
                | (Inr response, c2) \<Rightarrow> Done (Inr (TrimSpace response), client\<lparr>cli_conn := Some c2\<rparr>))))"

definition Client_Close :: "TCPClient \<Rightarrow> TCPClient" where
  "Client_Close client = (case cli_conn client of
       None \<Rightarrow> client
     | Some c \<Rightarrow> client\<lparr>cli_conn := Some (snd (conn_Close c))\<rparr>)"

text \<open>A client with a connection on which no call fails.\<close>

definition connected :: "TCPClient \<Rightarrow> net_conn \<Rightarrow> bool" where
  "connected client c \<longleftrightarrow> cli_conn client = Some c \<and> nc_fault c = (\<lambda>_. None)"

lemma client_deadline_frame [frame_rules]:
  "nc_in (client_deadline client c) = nc_in c" "nc_out (client_deadline client c) = nc_out c"
  "nc_fault (client_deadline client c) = nc_fault c"
  by (simp_all add: client_deadline_def conn_defs)

text \<open>What a call returns, and what it leaves to be read.\<close>

lemma SendAndReceive_data:
  assumes "connected client c" "nc_in c = Data r # es" "0 < cli_maxMessageSize client"
  obtains client' c' where
    "SendAndReceive request client = Done (Inr (TrimSpace (take (nat (cli_maxMessageSize client)) r)), client')"
    "connected client' c'" "nc_out c' = nc_out c @ [request]" "cli_maxMessageSize client' = cli_maxMessageSize client"
    "nc_in c' = (if length r \<le> nat (cli_maxMessageSize client) then es else Data (drop (nat (cli_maxMessageSize client)) r) # es)"
proof -
  let ?n = "nat (cli_maxMessageSize client)"
  obtain c1 where c1: "conn_Write request (client_deadline client c) = (None, c1)" "nc_in c1 = nc_in c" "nc_out c1 = nc_out c @ [request]"
    "nc_fault c1 = nc_fault c"
    using assms(1) by (auto simp: conn_Write_def conn_call_def connected_def frame_rules)
  define c2 where "c2 = (client_deadline client c1)\<lparr>nc_in := (if length r \<le> ?n then es else Data (drop ?n r) # es)\<rparr>"
  have "conn_Read ?n (client_deadline client c1) = (Inr (take ?n r), c2)"
    using assms(2,3) c1(2) by (auto simp: conn_Read_def frame_rules c2_def)
  with assms(1) c1(1) have "SendAndReceive request client = Done (Inr (TrimSpace (take ?n r)), client\<lparr>cli_conn := Some c2\<rparr>)"
    by (simp add: SendAndReceive_def connected_def)
  moreover have "connected (client\<lparr>cli_conn := Some c2\<rparr>) c2" "nc_out c2 = nc_out c @ [request]"
    "nc_in c2 = (if length r \<le> ?n then es else Data (drop ?n r) # es)"
    using assms(1) c1(3,4) by (simp_all add: c2_def frame_rules connected_def)
  ultimately show thesis by (intro that [of "client\<lparr>cli_conn := Some c2\<rparr>" c2]) simp_all
qed

text \<open>
  C37. A response longer than the client's buffer puts the client out of step: the call returns its first
  \<^verbatim>\<open>maxMessageSize\<close> bytes, and the next call, whatever it sends, returns the next bytes of that old
  response, not the answer to its own request.
\<close>

theorem long_response_desynchronises:
  assumes "connected client c" and "nc_in c = Data r1 # Data r2 # es" and "0 < cli_maxMessageSize client"
    and "nat (cli_maxMessageSize client) < length r1"
  shows "\<exists>client1 client2. SendAndReceive q1 client = Done (Inr (TrimSpace (take (nat (cli_maxMessageSize client)) r1)), client1) \<and>
    SendAndReceive q2 client1 = Done (Inr (TrimSpace (take (nat (cli_maxMessageSize client)) (drop (nat (cli_maxMessageSize client)) r1))), client2)"
proof -
  let ?n = "nat (cli_maxMessageSize client)"
  obtain client1 c1 where 1: "SendAndReceive q1 client = Done (Inr (TrimSpace (take ?n r1)), client1)" "connected client1 c1"
    "cli_maxMessageSize client1 = cli_maxMessageSize client" "nc_in c1 = (if length r1 \<le> ?n then Data r2 # es else Data (drop ?n r1) # Data r2 # es)"
    by (rule SendAndReceive_data [OF assms(1-3)])
  have "nc_in c1 = Data (drop ?n r1) # Data r2 # es" using 1(4) assms(4) by simp
  then obtain client2 where "SendAndReceive q2 client1 = Done (Inr (TrimSpace (take (nat (cli_maxMessageSize client1)) (drop ?n r1))), client2)"
    by (rule SendAndReceive_data [OF 1(2)]) (use assms(3) 1(3) in simp)
  with 1(1,3) show ?thesis by auto
qed

definition demo_client :: "int64 \<Rightarrow> net_event list \<Rightarrow> TCPClient" where
  "demo_client n es = \<lparr>cli_conn = Some (demo_conn es), cli_address = ''127.0.0.1:3323'', cli_idleTimeout = five_minutes,
     cli_maxMessageSize = n, cli_log = DiscardLogger\<rparr>"

theorem long_response_desynchronises_witness:
  "\<exists>client1 client2. SendAndReceive ''GET a'' (demo_client 8 [Data ''VALUE abc'', Data ''OK'']) =
      Done (Inr (TrimSpace (take (nat (cli_maxMessageSize (demo_client 8 [Data ''VALUE abc'', Data ''OK'']))) ''VALUE abc'')), client1) \<and>
    SendAndReceive ''SET b 1'' client1 =
      Done (Inr (TrimSpace (take (nat (cli_maxMessageSize (demo_client 8 [Data ''VALUE abc'', Data ''OK''])))
        (drop (nat (cli_maxMessageSize (demo_client 8 [Data ''VALUE abc'', Data ''OK'']))) ''VALUE abc''))), client2)"
  by (rule long_response_desynchronises [of _ "demo_conn [Data ''VALUE abc'', Data ''OK'']"])
    (simp_all add: demo_client_def demo_conn_def connected_def)

end
