(* ===== verification/Wal_Recovery.thy ===== *)
theory Wal_Recovery
  imports Wal
begin

text \<open>
  What \<^verbatim>\<open>Wal.Recovery\<close> rebuilds from the segment files: the replay of one batch per segment, the
  failure on a segment with two batches, and the round trip from acknowledged flushes through a crash
  to the recovered table.
\<close>

section \<open>Replaying segments\<close>

definition no_faults :: "fs \<Rightarrow> bool" where
  "no_faults s \<longleftrightarrow> (\<forall>n. fs_fault s n = NoFault)"

lemma no_faults_env: "no_faults s \<Longrightarrow> same_env s s' \<Longrightarrow> no_faults s'"
  by (simp add: no_faults_def same_env_def)

lemma Segment_Read_ok:
  assumes "no_faults s" "fs_lookup s (path_key s p) = Some d"
  obtains s' where "Segment_Read p s = (Inr (fd_bytes d), s')" "fs_files s' = fs_files s" "same_env s s'"
    "fs_reads s' = fs_reads s"
  using assms
  by (auto simp: Segment_Read_def ReadFile_def os_defs no_faults_def same_env_def Let_def split: if_splits)

text \<open>A segment file whose bytes decode to the given records.\<close>

definition segment_holds :: "fs \<Rightarrow> string \<Rightarrow> Log list \<Rightarrow> bool" where
  "segment_holds s file ls \<longleftrightarrow> (\<exists>d. fs_lookup s (path_key s file) = Some d \<and>
     fd_bytes d = batch_stream ls \<and> list_all (\<lambda>l. wf_log l \<and> applicable l) ls)"

lemma segment_holds_env:
  "fs_files s' = fs_files s \<Longrightarrow> same_env s s' \<Longrightarrow> segment_holds s' = segment_holds s"
  by (simp add: segment_holds_def fun_eq_iff fs_lookup_def path_key_env)

lemma recover_files_append:
  "recover_files rd cmd (fs1 @ fs2) t s =
     (case recover_files rd cmd fs1 t s of
        (Some err, t1, s1) \<Rightarrow> (Some err, t1, s1)
      | (None, t1, s1) \<Rightarrow> recover_files rd cmd fs2 t1 s1)"
  by (induction fs1 arbitrary: t s) (auto split: prod.splits sum.splits option.splits)

text \<open>
  What \<^verbatim>\<open>Recovery\<close> relies on of the interface \<^verbatim>\<open>segmentRead\<close>: a read returns the content of the file and changes
  nothing that the reader shows. Over any such reader the loop replays the files that decode, and stops
  at the first one that does not.
\<close>

locale segment_read =
  fixes rd :: "'s segmentRead"
    and ok :: "'s \<Rightarrow> bool"
    and view :: "'s \<Rightarrow> 'v"
    and content :: "'v \<Rightarrow> string \<Rightarrow> bytes option"
  assumes read_content: "ok s \<Longrightarrow> content (view s) p = Some d \<Longrightarrow> \<exists>s'. sr_Read rd p s = (Inr d, s') \<and> ok s' \<and> view s' = view s"
begin

definition decodes :: "'v \<Rightarrow> string \<Rightarrow> Log list \<Rightarrow> bool" where
  "decodes v p ls \<longleftrightarrow> (\<exists>d. content v p = Some d \<and> decode_logs (NewDecoder d) = Inr ls) \<and> list_all applicable ls"

lemma replays:
  assumes "ok s" "list_all2 (decodes (view s)) files lss"
  shows "\<exists>t' s'. recover_files rd hash_commands files t s = (None, t', s') \<and>
    ht_data t' = replay (concat (map (sort_key LSN) lss)) (ht_data t) \<and> ok s' \<and> view s' = view s"
  using assms
proof (induction files arbitrary: lss t s)
  case (Cons f files)
  then obtain ls lss' where lss: "lss = ls # lss'" "decodes (view s) f ls" "list_all2 (decodes (view s)) files lss'"
    by (auto simp: list_all2_Cons1)
  then obtain d where d: "content (view s) f = Some d" "decode_logs (NewDecoder d) = Inr ls" "list_all applicable ls"
    by (auto simp: decodes_def)
  obtain s1 where s1: "sr_Read rd f s = (Inr d, s1)" "ok s1" "view s1 = view s" using read_content [OF Cons.prems(1) d(1)] by blast
  obtain t1 where t1: "apply_all hash_commands (sort_key LSN ls) t = (None, t1)"
    "ht_data t1 = replay (sort_key LSN ls) (ht_data t)"
    using hash_apply_all [of "sort_key LSN ls" t] d(3) by auto
  from Cons.IH [OF s1(2), of lss' t1] lss(3) s1(3) show ?case using s1(1) t1 d(2) lss(1) by auto
qed simp

lemma stops:
  assumes "ok s" "list_all2 (decodes (view s)) files lss" "content (view s) f = Some d" "decode_logs (NewDecoder d) = Inl e"
  shows "\<exists>t' s'. recover_files rd hash_commands (files @ f # files') t s = (Some Wal_ErrFailedDecode, t', s') \<and>
    ht_data t' = replay (concat (map (sort_key LSN) lss)) (ht_data t) \<and> view s' = view s"
proof -
  obtain t1 s1 where 1: "recover_files rd hash_commands files t s = (None, t1, s1)" "ok s1" "view s1 = view s"
    "ht_data t1 = replay (concat (map (sort_key LSN) lss)) (ht_data t)"
    using replays [OF assms(1,2), of t] by blast
  obtain s2 where "sr_Read rd f s1 = (Inr d, s2)" "view s2 = view s1" using read_content [OF 1(2), of f d] 1(3) assms(3) by auto
  with 1 assms(4) show ?thesis by (simp add: recover_files_append)
qed

end

text \<open>The segment of a machine whose calls do not fail is such a reader; it shows all but the number of calls.\<close>

definition reader_view :: "Segment \<times> fs \<Rightarrow> Segment \<times> fs" where
  "reader_view w = (fst w, (snd w)\<lparr>fs_calls := 0\<rparr>)"

definition file_content :: "Segment \<times> fs \<Rightarrow> string \<Rightarrow> bytes option" where
  "file_content w p = map_option fd_bytes (fs_lookup (snd w) (path_key (snd w) p))"

interpretation sr: segment_read segment_reader "\<lambda>w. no_faults (snd w)" reader_view file_content
proof
  fix w p d assume "no_faults (snd w)" "file_content (reader_view w) p = Some d"
  then show "\<exists>w'. sr_Read segment_reader p w = (Inr d, w') \<and> no_faults (snd w') \<and> reader_view w' = reader_view w"
    by (cases w)
      (auto simp: segment_reader_def reader_view_def file_content_def Segment_Read_def ReadFile_def os_defs no_faults_def path_key_def)
qed

lemma file_content_view: "file_content (reader_view (seg, s)) p = map_option fd_bytes (fs_lookup s (path_key s p))"
  by (simp add: file_content_def reader_view_def fs_lookup_def path_key_def)

lemma reader_view_eqD:
  assumes "reader_view (seg', s') = reader_view (seg, s)"
  shows "seg' = seg" "fs_files s' = fs_files s" "same_env s s'" "fs_reads s' = fs_reads s"
  using assms by (auto simp: reader_view_def same_env_def dest: arg_cong [of _ _ fs_files] arg_cong [of _ _ fs_reads]
      arg_cong [of _ _ fs_dirs] arg_cong [of _ _ fs_cwd] arg_cong [of _ _ fs_fault] arg_cong [of _ _ fs_clock])

lemma segment_holds_decodes:
  "segment_holds s file ls \<Longrightarrow> sr.decodes (reader_view (seg, s)) file ls"
  using decode_logs_stream [of ls] by (auto simp: segment_holds_def sr.decodes_def file_content_view list_all_iff)

lemma recover_files_ok:
  assumes "no_faults s" "list_all2 (segment_holds s) files lss"
  shows "\<exists>t' s'. recover_files segment_reader hash_commands files t (seg, s) = (None, t', seg, s') \<and>
    ht_data t' = replay (concat (map (sort_key LSN) lss)) (ht_data t) \<and>
    fs_files s' = fs_files s \<and> same_env s s' \<and> fs_reads s' = fs_reads s"
proof -
  have "list_all2 (sr.decodes (reader_view (seg, s))) files lss"
    using assms(2) by (rule list_all2_mono) (rule segment_holds_decodes)
  with sr.replays [of "(seg, s)" files lss t] assms(1) obtain t' seg' s' where
    r: "recover_files segment_reader hash_commands files t (seg, s) = (None, t', seg', s')"
      "ht_data t' = replay (concat (map (sort_key LSN) lss)) (ht_data t)" "reader_view (seg', s') = reader_view (seg, s)" by auto
  from r reader_view_eqD [OF r(3)] show ?thesis by blast
qed

text \<open>
  The directory of a segment: its files are the segments created at the times \<open>ts\<close>, in order, each with
  the stream of one batch of \<open>lss\<close> (or nothing), and it has no subdirectories.
\<close>

definition dir_of :: "Segment \<Rightarrow> nat list \<Rightarrow> fs \<Rightarrow> bool" where
  "dir_of seg ts s \<longleftrightarrow>
     (let K = path_key s (seg_directory seg) in
      IsAbs (seg_directory seg) \<and> plain_mask (seg_maskName seg) \<and> K \<in> set (fs_dirs s) \<and>
      dir_children K (fs_dirs s) = [] \<and> sorted_wrt (<) ts \<and> list_all clock_19 ts \<and>
      dir_children K (map fst (fs_files s)) = map (segment_name (seg_maskName seg)) ts)"

definition seg_path :: "Segment \<Rightarrow> nat \<Rightarrow> string" where
  "seg_path seg t = Join [seg_directory seg, segment_name (seg_maskName seg) t]"

definition dir_holds :: "Segment \<Rightarrow> nat list \<Rightarrow> Log list list \<Rightarrow> fs \<Rightarrow> bool" where
  "dir_holds seg ts lss s \<longleftrightarrow> dir_of seg ts s \<and> list_all2 (\<lambda>t ls. segment_holds s (seg_path seg t) ls) ts lss"

lemma dir_of_list:
  assumes "no_faults s" "dir_of seg ts s"
  shows "Segment_GetList seg s = (Inr (map (seg_path seg) ts), s\<lparr>fs_calls := Suc (fs_calls s)\<rparr>)"
  using assms GetFileList_chronological [of s "seg_directory seg" "seg_maskName seg" ts]
  by (simp add: Segment_GetList_def dir_of_def no_faults_def seg_path_def [abs_def] Let_def)

lemma calls_env: "same_env s (s\<lparr>fs_calls := n\<rparr>)"
  by (simp add: same_env_def)

lemma seg_path_key:
  "IsAbs (seg_directory seg) \<Longrightarrow> plain_mask (seg_maskName seg) \<Longrightarrow>
     path_key s (seg_path seg t) = path_key s (seg_directory seg) @ [segment_name (seg_maskName seg) t]"
  unfolding seg_path_def by (intro path_key_Join(1) plain_segment_name)

lemma dir_children_mem: "n \<in> set (dir_children K ps) \<longleftrightarrow> K @ [n] \<in> set ps"
  by (force simp: dir_children_def image_iff)

text \<open>Choosing the active file after the replay.\<close>

lemma CreateFile_empty_dir:
  assumes "no_faults s" "dir_of seg [] s"
  obtains f s' where "CreateFile (seg_directory seg) (seg_maskName seg) s = (Inr f, s')"
proof -
  let ?K = "path_key s (seg_directory seg)" and ?t = "fs_clock s (fs_reads s)"
  have k: "path_key s (seg_path seg ?t) = ?K @ [segment_name (seg_maskName seg) ?t]"
    using assms(2) by (intro seg_path_key) (simp_all add: dir_of_def Let_def)
  have "?K @ [n] \<notin> set (map fst (fs_files s))" "?K @ [n] \<notin> set (fs_dirs s)" "?K \<in> set (fs_dirs s)" for n
    using assms(2) unfolding dir_children_mem [symmetric] by (simp_all add: dir_of_def Let_def)
  then have "\<exists>f s'. CreateFile (seg_directory seg) (seg_maskName seg) s = (Inr f, s')"
    using assms(1) k by (simp add: CreateFile_def os_defs no_faults_def Let_def seg_path_def map_of_eq_None_iff)
  then show thesis using that by blast
qed

lemma SetFile_exact:
  assumes "no_faults s" "of_open f" "fs_lookup s (of_path f) = Some d"
  shows "\<exists>s'. SetFile (Some f) seg s =
      (seg\<lparr>seg_file := Some f, seg_segmentSize := int (length (fd_bytes d))\<rparr>, s') \<and>
    fs_files s' = fs_files s \<and> same_env s s' \<and> fs_reads s' = fs_reads s"
  using assms by (auto simp: SetFile_def os_defs no_faults_def same_env_def)

definition active_time :: "nat list \<Rightarrow> fs \<Rightarrow> nat" where
  "active_time ts s = (if ts = [] then fs_clock s (fs_reads s) else last ts)"

text \<open>The files after the active one has been chosen: one more, empty, if there was none.\<close>

definition files_after :: "Segment \<Rightarrow> nat list \<Rightarrow> fs \<Rightarrow> (path \<times> fdata) list" where
  "files_after seg ts s = (if ts = []
     then fs_files s @ [(path_key s (seg_path seg (active_time ts s)), \<lparr>fd_bytes = [], fd_synced = 0\<rparr>)]
     else fs_files s)"

lemma recovery_file_ok:
  assumes "no_faults s" "dir_of seg ts s" "list_all (\<lambda>t. fs_lookup s (path_key s (seg_path seg t)) \<noteq> None) ts"
  obtains f seg' s' where "recovery_file segment_reader (map (seg_path seg) ts) (seg, s) = (Inr f, seg', s')"
    "\<And>n. seg'\<lparr>seg_file := Some f, seg_segmentSize := n\<rparr> = seg\<lparr>seg_file := Some f, seg_segmentSize := n\<rparr>"
    "of_open f" "of_path f = path_key s (seg_path seg (active_time ts s))" "fs_files s' = files_after seg ts s"
    "same_env s s'" "fs_reads s' = (if ts = [] then Suc (fs_reads s) else fs_reads s)"
    "fs_lookup s (of_path f) = None \<longleftrightarrow> ts = []"
proof (cases "ts = []")
  case True
  with assms obtain f s' where c: "CreateFile (seg_directory seg) (seg_maskName seg) s = (Inr f, s')"
    using CreateFile_empty_dir by blast
  from CreateFile_Inr [OF c] True c show thesis
    by (intro that [of f "seg\<lparr>seg_file := Some f, seg_segmentSize := 0\<rparr>" s'])
      (auto simp: recovery_file_def segment_reader_def Segment_CreateFile_def seg_path_def active_time_def files_after_def)
next
  case False
  then have l: "last (map (seg_path seg) ts) = seg_path seg (last ts)" by (simp add: last_map)
  obtain d where d: "fs_lookup s (path_key s (seg_path seg (last ts))) = Some d"
    using assms(3) last_in_set [OF False] by (auto simp: list_all_iff)
  let ?f = "\<lparr>of_name = seg_path seg (last ts), of_path = path_key s (seg_path seg (last ts)), of_open = True\<rparr>"
  have "os_OpenFile_append (seg_path seg (last ts)) s = (Inr ?f, s\<lparr>fs_calls := Suc (fs_calls s)\<rparr>)"
    using assms(1) d by (simp add: os_defs no_faults_def Let_def)
  with False d show thesis
    by (intro that [of ?f seg "s\<lparr>fs_calls := Suc (fs_calls s)\<rparr>"])
      (simp_all add: recovery_file_def l calls_env active_time_def files_after_def)
qed

lemma dir_holds_present:
  assumes "dir_holds seg ts lss s" "t \<in> set ts"
  shows "fs_lookup s (path_key s (seg_path seg t)) \<noteq> None"
  using assms unfolding dir_holds_def segment_holds_def list_all2_conv_all_nth
  by (metis in_set_conv_nth option.distinct(1))

lemma dir_holds_last:
  assumes "dir_holds seg ts lss s" "ts \<noteq> []"
  obtains d where "fs_lookup s (path_key s (seg_path seg (last ts))) = Some d" "fd_bytes d = batch_stream (last lss)"
proof -
  have "length ts = length lss" "\<forall>i < length ts. segment_holds s (seg_path seg (ts ! i)) (lss ! i)"
    using assms(1) by (simp_all add: dir_holds_def list_all2_conv_all_nth)
  with assms(2) have "segment_holds s (seg_path seg (last ts)) (last lss)"
    by (cases lss rule: rev_cases) (auto simp: last_conv_nth)
  then show thesis using that by (auto simp: segment_holds_def)
qed

lemma dir_holds_env:
  assumes "dir_holds seg ts lss s" "fs_files s' = fs_files s" "same_env s s'"
  shows "dir_holds seg ts lss s'"
  using assms segment_holds_env [OF assms(2,3)] path_key_env [OF assms(3)]
  by (simp add: dir_holds_def dir_of_def same_env_def)

lemma recover_dir_files:
  assumes "no_faults s" "dir_holds seg ts lss s"
  obtains t' s2 where "recover_files segment_reader hash_commands (map (seg_path seg) ts) t (seg, s\<lparr>fs_calls := Suc (fs_calls s)\<rparr>) = (None, t', seg, s2)"
    "ht_data t' = replay (concat (map (sort_key LSN) lss)) (ht_data t)" "fs_files s2 = fs_files s" "same_env s s2"
    "fs_reads s2 = fs_reads s"
proof -
  let ?s1 = "s\<lparr>fs_calls := Suc (fs_calls s)\<rparr>"
  have "segment_holds ?s1 = segment_holds s" using segment_holds_env [of ?s1 s] calls_env by simp
  then have "list_all2 (segment_holds ?s1) (map (seg_path seg) ts) lss"
    using assms(2) by (simp add: list_all2_map1 dir_holds_def)
  then obtain t' s2 where r: "recover_files segment_reader hash_commands (map (seg_path seg) ts) t (seg, ?s1) = (None, t', seg, s2)"
    "ht_data t' = replay (concat (map (sort_key LSN) lss)) (ht_data t)"
    "fs_files s2 = fs_files s" "same_env ?s1 s2" "fs_reads s2 = fs_reads s"
    using recover_files_ok [of ?s1 "map (seg_path seg) ts" lss t seg] no_faults_env [OF assms(1) calls_env] by auto
  have "same_env s s2" using r(4) calls_env same_env_trans by blast
  with r that show thesis by blast
qed

lemma Recovery_dir:
  assumes "no_faults s" "dir_holds (wal_segment wal) ts lss s" "wal_commandHashTable wal = hash_commands"
  obtains t' f n s' where "Recovery wal s = (None, wal\<lparr>wal_table := t',
      wal_segment := (wal_segment wal)\<lparr>seg_file := Some f, seg_segmentSize := n\<rparr>\<rparr>, s')"
    "ht_data t' = replay (concat (map (sort_key LSN) lss)) (ht_data (wal_table wal))" "of_open f"
    "of_path f = path_key s (seg_path (wal_segment wal) (active_time ts s))"
    "fs_files s' = files_after (wal_segment wal) ts s" "same_env s s'"
    "fs_reads s' = (if ts = [] then Suc (fs_reads s) else fs_reads s)"
    "n = (if ts = [] then 0 else int (length (batch_stream (last lss))))"
proof -
  let ?seg = "wal_segment wal" and ?files = "map (seg_path (wal_segment wal)) ts"
  obtain t' s2 where r: "recover_files segment_reader hash_commands ?files (wal_table wal) (?seg, s\<lparr>fs_calls := Suc (fs_calls s)\<rparr>) = (None, t', ?seg, s2)"
    "ht_data t' = replay (concat (map (sort_key LSN) lss)) (ht_data (wal_table wal))"
    "fs_files s2 = fs_files s" "same_env s s2" "fs_reads s2 = fs_reads s"
    by (rule recover_dir_files [OF assms(1,2)])
  note nf = no_faults_env [OF assms(1) r(4)] and holds = dir_holds_env [OF assms(2) r(3,4)] and key = path_key_env [OF r(4)]
  obtain f seg' s3 where f: "recovery_file segment_reader ?files (?seg, s2) = (Inr f, seg', s3)"
    "\<And>n. seg'\<lparr>seg_file := Some f, seg_segmentSize := n\<rparr> = ?seg\<lparr>seg_file := Some f, seg_segmentSize := n\<rparr>"
    "of_open f" "of_path f = path_key s2 (seg_path ?seg (active_time ts s2))" "fs_files s3 = files_after ?seg ts s2"
    "same_env s2 s3" "fs_reads s3 = (if ts = [] then Suc (fs_reads s2) else fs_reads s2)"
    "fs_lookup s2 (of_path f) = None \<longleftrightarrow> ts = []"
    by (rule recovery_file_ok [OF nf, of ?seg ts])
      (use holds dir_holds_present [OF holds] in \<open>auto simp: dir_holds_def list_all_iff\<close>)
  have act: "active_time ts s2 = active_time ts s" using r(4,5) by (simp add: active_time_def same_env_def)
  have files: "files_after ?seg ts s2 = files_after ?seg ts s" using r(3) act key by (auto simp: files_after_def)
  obtain d where d: "fs_lookup s3 (of_path f) = Some d"
    "int (length (fd_bytes d)) = (if ts = [] then 0 else int (length (batch_stream (last lss))))"
  proof (cases "ts = []")
    case True
    with f r(3) that [of "\<lparr>fd_bytes = [], fd_synced = 0\<rparr>"] show thesis
      by (auto simp: fs_lookup_def files_after_def map_add_def)
  next
    case False
    obtain d where "fs_lookup s2 (path_key s2 (seg_path ?seg (last ts))) = Some d" "fd_bytes d = batch_stream (last lss)"
      by (rule dir_holds_last [OF holds False])
    with False f r(3) that [of d] show thesis
      by (simp add: fs_lookup_def files_after_def active_time_def)
  qed
  obtain s4 where s4: "SetFile (Some f) seg' s3 =
      (seg'\<lparr>seg_file := Some f, seg_segmentSize := int (length (fd_bytes d))\<rparr>, s4)"
    "fs_files s4 = fs_files s3" "same_env s3 s4" "fs_reads s4 = fs_reads s3"
    using SetFile_exact [OF no_faults_env [OF nf f(6)] f(3) d(1)] by blast
  have dir: "dir_of ?seg ts s" using assms(2) by (simp add: dir_holds_def)
  have env: "same_env s s4" using r(4) f(6) s4(3) same_env_trans by blast
  show thesis
    by (rule that [of "int (length (fd_bytes d))" f t' s4])
      (use r f s4 env d act files key dir_of_list [OF assms(1) dir] assms(3) in \<open>simp_all add: Recovery_def reader_defs\<close>)
qed



section \<open>A segment that does not decode\<close>

text \<open>Recovery stops at the first segment that does not decode; the segments before it have been replayed.\<close>

lemma Recovery_fails_at:
  assumes "no_faults s" "dir_of (wal_segment wal) (ts @ t # ts') s" "wal_commandHashTable wal = hash_commands"
    and "list_all2 (\<lambda>t ls. segment_holds s (seg_path (wal_segment wal) t) ls) ts lss"
    and "fs_lookup s (path_key s (seg_path (wal_segment wal) t)) = Some d" "decode_logs (NewDecoder (fd_bytes d)) = Inl e"
  shows "\<exists>wal' s'. Recovery wal s = (Some Wal_ErrFailedDecode, wal', s') \<and>
    ht_data (wal_table wal') = replay (concat (map (sort_key LSN) lss)) (ht_data (wal_table wal)) \<and> fs_files s' = fs_files s"
proof -
  let ?s1 = "s\<lparr>fs_calls := Suc (fs_calls s)\<rparr>" and ?p = "seg_path (wal_segment wal)" and ?seg = "wal_segment wal"
  have "segment_holds ?s1 = segment_holds s" using segment_holds_env [of ?s1 s] calls_env by simp
  then have "list_all2 (segment_holds ?s1) (map ?p ts) lss" using assms(4) by (simp add: list_all2_map1)
  then have "list_all2 (sr.decodes (reader_view (?seg, ?s1))) (map ?p ts) lss"
    by (rule list_all2_mono) (rule segment_holds_decodes)
  moreover have "file_content (reader_view (?seg, ?s1)) (?p t) = Some (fd_bytes d)" using assms(5) by (simp add: file_content_view fs_lookup_def)
  ultimately obtain t' seg' s' where
    "recover_files segment_reader hash_commands (map ?p ts @ ?p t # map ?p ts') (wal_table wal) (?seg, ?s1) = (Some Wal_ErrFailedDecode, t', seg', s')"
    "ht_data t' = replay (concat (map (sort_key LSN) lss)) (ht_data (wal_table wal))" "reader_view (seg', s') = reader_view (?seg, ?s1)"
    using sr.stops [of "(?seg, ?s1)" "map ?p ts" lss "?p t" "fd_bytes d" e "map ?p ts'" "wal_table wal"]
      no_faults_env [OF assms(1) calls_env] assms(6) by auto
  with dir_of_list [OF assms(1,2)] assms(3) reader_view_eqD(2) [of seg' s' ?seg ?s1] show ?thesis
    by (auto simp: Recovery_def reader_defs)
qed

section \<open>From acknowledged flushes to recovery\<close>

lemma flushBatch_None:
  assumes "flushBatch batch wal s h = Done (None, wal', s', h')" "batch \<noteq> []"
  obtains seg' where "Segment_Write (batch_stream (map wr_log batch)) (wal_segment wal) s = (None, seg', s')"
    "wal' = wal\<lparr>wal_segment := seg', wal_table :=
       apply_logged (wal_commandHashTable wal) (sort_key LSN (map wr_log batch)) (wal_table wal)\<rparr>"
proof -
  obtain rs' seg' where w: "WalWriter_Write segment_writer batch (wal_segment wal, s) h = Done (None, rs', (seg', s'), h')"
    "wal' = wal\<lparr>wal_segment := seg', wal_table :=
       apply_logged (wal_commandHashTable wal) (sort_key LSN (map wr_log rs')) (wal_table wal)\<rparr>"
    using assms by (auto simp: flushBatch_def split: option.splits elim!: outcome_bind.elims)
  obtain eo enc where enc: "encode_all (map wr_log batch) (NewEncoder []) = (eo, enc)" by fastforce
  with w(1) have "eo = None" by (auto simp: WalWriter_Write_def split: option.splits elim!: outcome_bind.elims)
  with w(1) enc have "Segment_Write (enc_buf enc) (wal_segment wal) s = (None, seg', s')" "notification None batch h = Done (rs', h')"
    by (auto simp: WalWriter_Write_def segment_writer_def split: prod.splits elim!: outcome_bind.elims)
  with w(2) enc \<open>eo = None\<close> encode_all_buf [of "map wr_log batch" enc] notification_logs that show thesis by metis
qed

text \<open>
  The state of the log between flushes: each segment of the directory holds, synced, the stream of one
  batch; the last one is the active file, and its size is recorded.
\<close>

definition full_file :: "Log list \<Rightarrow> fdata" where
  "full_file ls = \<lparr>fd_bytes = batch_stream ls, fd_synced = length (batch_stream ls)\<rparr>"

definition log_state :: "Segment \<Rightarrow> nat list \<Rightarrow> Log list list \<Rightarrow> fs \<Rightarrow> bool" where
  "log_state seg ts lss s \<longleftrightarrow> dir_of seg ts s \<and> ts \<noteq> [] \<and>
     list_all2 (\<lambda>t ls. fs_lookup s (path_key s (seg_path seg t)) = Some (full_file ls)) ts lss \<and>
     list_all (list_all (\<lambda>l. wf_log l \<and> applicable l)) lss \<and>
     seg_segmentSize seg = int (length (batch_stream (last lss))) \<and>
     (\<exists>f. seg_file seg = Some f \<and> of_open f \<and> of_path f = path_key s (seg_path seg (last ts)))"

text \<open>The next \<open>n\<close> readings of the clock are later than the times of all segments, and increase.\<close>

definition clock_ahead :: "nat list \<Rightarrow> nat \<Rightarrow> fs \<Rightarrow> bool" where
  "clock_ahead ts n s \<longleftrightarrow> (let rs = map (\<lambda>i. fs_clock s (fs_reads s + i)) [0..<n]
     in sorted_wrt (<) (ts @ rs) \<and> list_all clock_19 (ts @ rs))"

text \<open>After a crash, the machine comes back with the surviving files and no failing calls.\<close>

definition reboot :: "(path \<Rightarrow> nat) \<Rightarrow> fs \<Rightarrow> fs" where
  "reboot keep s = (crash keep s)\<lparr>fs_fault := (\<lambda>_. NoFault)\<rparr>"

lemma reboot_facts:
  "no_faults (reboot keep s)" "path_key (reboot keep s) p = path_key s p" "fs_dirs (reboot keep s) = fs_dirs s"
  "map fst (fs_files (reboot keep s)) = map fst (fs_files s)"
  "fs_lookup (reboot keep s) k = map_option (crash_fdata (keep k)) (fs_lookup s k)"
proof -
  show "fs_lookup (reboot keep s) k = map_option (crash_fdata (keep k)) (fs_lookup s k)"
    using fs_lookup_crash [of keep s k] by (simp add: reboot_def fs_lookup_def)
qed (simp_all add: reboot_def crash_def no_faults_def path_key_def case_prod_beta)

lemma dir_of_reboot: "dir_of seg ts (reboot keep s) = dir_of seg ts s"
  using reboot_facts(4) [of keep s] by (simp add: dir_of_def reboot_facts(2,3))

lemma crash_full_file [simp]: "crash_fdata n (full_file ls) = full_file ls"
  by (simp add: full_file_def crash_fdata_synced)

lemma log_state_reboot:
  assumes "log_state seg ts lss s"
  shows "dir_holds seg ts lss (reboot keep s)"
  using assms
  by (auto simp: log_state_def dir_holds_def dir_of_reboot segment_holds_def reboot_facts full_file_def
      list_all2_conv_all_nth list_all_length crash_fdata_synced)

lemma segment_name_inj [simp]: "segment_name m t = segment_name m t' \<longleftrightarrow> t = t'"
proof
  assume "segment_name m t = segment_name m t'"
  then have "parse_nat (format_nat t) = parse_nat (format_nat t')" by (simp add: segment_name_def)
  then show "t = t'" by simp
qed simp

lemma batch_stream_Nil [simp]: "batch_stream [] = []"
  by (simp add: batch_stream_def)

lemma batch_stream_eq_Nil: "batch_stream ls = [] \<longleftrightarrow> ls = []"
  by (simp add: batch_stream_def frame_def log_def_def args_def_def encodeInt_def encodeUint_def log_wire_def common_type_def)

lemma seg_view [simp]:
  "dir_of (seg\<lparr>seg_file := x\<rparr>) = dir_of seg" "dir_of (seg\<lparr>seg_segmentSize := n\<rparr>) = dir_of seg"
  "seg_path (seg\<lparr>seg_file := x\<rparr>) = seg_path seg" "seg_path (seg\<lparr>seg_segmentSize := n\<rparr>) = seg_path seg"
  by (simp_all add: dir_of_def seg_path_def fun_eq_iff)

lemma dir_of_path: "dir_of seg ts s \<Longrightarrow>
    path_key s (seg_path seg t) = path_key s (seg_directory seg) @ [segment_name (seg_maskName seg) t]"
  by (intro seg_path_key) (simp_all add: dir_of_def Let_def)

lemma clock_ahead_same: "clock_ahead ts (Suc n) s \<Longrightarrow> fs_clock s' = fs_clock s \<Longrightarrow> fs_reads s' = fs_reads s \<Longrightarrow>
    clock_ahead ts n s'"
  by (simp add: clock_ahead_def sorted_wrt_append)

lemma clock_ahead_now: "clock_ahead ts (Suc n) s \<Longrightarrow>
    sorted_wrt (<) (ts @ [fs_clock s (fs_reads s)]) \<and> list_all clock_19 (ts @ [fs_clock s (fs_reads s)])"
  unfolding clock_ahead_def by (simp only: map_upt_Suc) (simp add: Let_def sorted_wrt_append)

lemma clock_ahead_next: "clock_ahead ts (Suc n) s \<Longrightarrow> fs_clock s' = fs_clock s \<Longrightarrow> fs_reads s' = Suc (fs_reads s) \<Longrightarrow>
    clock_ahead (ts @ [fs_clock s (fs_reads s)]) n s'"
  unfolding clock_ahead_def
  by (simp only: map_upt_Suc) (simp add: Let_def)

text \<open>A new file, alone in a new segment.\<close>

lemma log_state_new:
  assumes st: "log_state seg ts lss s" and w: "wrote NewFile (batch_stream ls) f seg s seg' s'"
    and ok: "list_all (\<lambda>l. wf_log l \<and> applicable l) ls" and ahead: "clock_ahead ts (Suc n) s"
    and len: "int (length (batch_stream ls)) < 2 ^ 62"
  shows "log_state seg' (ts @ [fs_clock s (fs_reads s)]) (lss @ [ls]) s'"
proof -
  let ?c = "fs_clock s (fs_reads s)" and ?K = "path_key s (seg_directory seg)"
  have dir: "dir_of seg ts s" using st by (simp add: log_state_def)
  from w have f: "of_path f = path_key s (seg_path seg ?c)" "fs_lookup s (of_path f) = None" "same_env s s'"
    "fs_files s' = fs_files s @ [(of_path f, full_file ls)]"
    "seg' = seg\<lparr>seg_file := Some f, seg_segmentSize := int (length (batch_stream ls))\<rparr>" "of_open f"
    using len by (auto simp: wrote_def seg_path_def full_file_def wrap64_id int64_range_def)
  note key = path_key_env [OF f(3)]
  have look: "fs_lookup s' k = (if k = of_path f then Some (full_file ls) else fs_lookup s k)" for k
    using f(2,4) by (auto simp: fs_lookup_def map_add_def split: option.splits)
  have "dir_children ?K (map fst (fs_files s')) = dir_children ?K (map fst (fs_files s)) @ [segment_name (seg_maskName seg) ?c]"
    using f(1,4) dir_of_path [OF dir] by (simp add: dir_children_def)
  moreover have "sorted_wrt (<) (ts @ [?c])" "list_all clock_19 (ts @ [?c])"
    using clock_ahead_now [OF ahead] by auto
  ultimately have "dir_of seg (ts @ [?c]) s'"
    using dir f(3) by (simp add: dir_of_def key same_env_def Let_def)
  moreover have "list_all2 (\<lambda>t ls. fs_lookup s' (path_key s' (seg_path seg t)) = Some (full_file ls)) (ts @ [?c]) (lss @ [ls])"
    using st f(1,2) by (intro list_all2_appendI)
      (auto simp: log_state_def look key list_all2_conv_all_nth)
  ultimately show ?thesis
    using st ok f(1,5,6) by (auto simp: log_state_def key)
qed

text \<open>A batch written to the active file while that is still empty.\<close>

lemma log_state_same:
  assumes st: "log_state seg ts lss s" and w: "wrote SameFile (batch_stream ls) f seg s seg' s'"
    and ok: "list_all (\<lambda>l. wf_log l \<and> applicable l) ls" and emp: "last lss = []"
    and len: "int (length (batch_stream ls)) < 2 ^ 62"
  shows "log_state seg' ts (butlast lss @ [ls]) s'"
proof -
  have dir: "dir_of seg ts s" and ne: "ts \<noteq> []" using st by (simp_all add: log_state_def)
  have "lss \<noteq> []" using st by (auto simp: log_state_def)
  then obtain ts0 t0 lss0 where split: "ts = ts0 @ [t0]" "lss = lss0 @ [[]]"
    using ne emp by (metis append_butlast_last_id)
  have old: "list_all2 (\<lambda>t ls. fs_lookup s (path_key s (seg_path seg t)) = Some (full_file ls)) ts0 lss0"
    "fs_lookup s (path_key s (seg_path seg t0)) = Some (full_file [])"
    using st split by (auto simp: log_state_def)
  from w st split have f: "seg_file seg = Some f" "of_path f = path_key s (seg_path seg t0)" "same_env s s'"
    "fs_files s' = alist_set (of_path f) (full_file ls) (fs_files s)"
    "seg' = seg\<lparr>seg_segmentSize := int (length (batch_stream ls))\<rparr>"
    using len old(2) by (auto simp: wrote_def log_state_def full_file_def wrap64_id int64_range_def)
  note key = path_key_env [OF f(3)] and look = alist_set_lookup [OF f(4)]
  have "of_path f \<in> fst ` set (fs_files s)"
    using old(2) f(2) by (metis fs_lookup_def map_of_eq_None_iff option.distinct(1))
  then have "dir_of seg ts s'" using dir f(3,4) by (simp add: dir_of_def key same_env_def alist_set_map_fst)
  moreover have "t \<in> set ts0 \<Longrightarrow> t \<noteq> t0" for t using dir split by (auto simp: dir_of_def Let_def sorted_wrt_append)
  then have "list_all2 (\<lambda>t ls. fs_lookup s' (path_key s' (seg_path seg t)) = Some (full_file ls)) ts0 lss0"
    by (intro list.rel_mono_strong [OF old(1)]) (auto simp: look key f(2) dir_of_path [OF dir])
  ultimately show ?thesis
    using st ok f split by (auto simp: log_state_def key look list_all2_appendI)
qed

text \<open>A batch the WAL can log and replay, and that is larger than the segment limit.\<close>

definition flushable :: "int64 \<Rightarrow> WriteRequest list \<Rightarrow> bool" where
  "flushable mx b \<longleftrightarrow> b \<noteq> [] \<and> list_all (\<lambda>r. wf_log (wr_log r) \<and> applicable (wr_log r)) b \<and>
     mx < int (length (batch_stream (map wr_log b))) \<and> int (length (batch_stream (map wr_log b))) < 2 ^ 62"

abbreviation replayed :: "Log list list \<Rightarrow> string \<Rightarrow> string option" where
  "replayed lss \<equiv> replay (concat (map (sort_key LSN) lss)) (\<lambda>_. None)"

lemma replayed_butlast:
  "lss \<noteq> [] \<Longrightarrow> last lss = [] \<Longrightarrow> replayed (butlast lss @ [ls]) = replay (sort_key LSN ls) (replayed lss)"
  by (cases lss rule: rev_cases) simp_all

text \<open>
  The log stands for a table: the segments hold one batch each, the table is their replay, and the clock
  has \<open>n\<close> more usable readings.
\<close>

definition log_agrees :: "nat \<Rightarrow> Segment \<Rightarrow> fs \<Rightarrow> (string \<Rightarrow> string option) \<Rightarrow> bool" where
  "log_agrees n seg s m \<longleftrightarrow> (\<exists>ts lss. log_state seg ts lss s \<and> clock_ahead ts n s \<and> m = replayed lss \<and>
     0 < seg_maxSegmentSize seg \<and> seg_segmentSize seg < 2 ^ 62)"

text \<open>Two segment handles on the same directory, with the same limit.\<close>

definition same_log :: "Segment \<Rightarrow> Segment \<Rightarrow> bool" where
  "same_log seg seg' \<longleftrightarrow> seg_directory seg' = seg_directory seg \<and> seg_maskName seg' = seg_maskName seg \<and>
     seg_maxSegmentSize seg' = seg_maxSegmentSize seg"

lemma same_log_trans: "same_log a b \<Longrightarrow> same_log b c \<Longrightarrow> same_log a c"
  by (simp add: same_log_def)

definition consistent :: "nat \<Rightarrow> HashTable Wal \<Rightarrow> fs \<Rightarrow> bool" where
  "consistent n wal s \<longleftrightarrow> log_agrees n (wal_segment wal) s (ht_data (wal_table wal)) \<and> wal_commandHashTable wal = hash_commands"

text \<open>Writing a batch larger than the limit.\<close>

lemma write_agrees:
  assumes c: "log_agrees (Suc n) seg s m" and w: "Segment_Write (batch_stream (map wr_log b)) seg s = (None, seg', s')"
    and b: "flushable (seg_maxSegmentSize seg) b"
  shows "log_agrees n seg' s' (replay (sort_key LSN (map wr_log b)) m) \<and> same_log seg seg'"
proof -
  let ?ls = "map wr_log b"
  obtain ts lss where st: "log_state seg ts lss s" "clock_ahead ts (Suc n) s" "m = replayed lss"
    "0 < seg_maxSegmentSize seg" "seg_segmentSize seg < 2 ^ 62"
    using c by (auto simp: log_agrees_def)
  have b': "b \<noteq> []" "list_all (\<lambda>l. wf_log l \<and> applicable l) ?ls" "int (length (batch_stream ?ls)) < 2 ^ 62"
    "seg_maxSegmentSize seg < int (length (batch_stream ?ls))"
    using b by (auto simp: flushable_def list_all_iff)
  obtain place f where wr: "wrote place (batch_stream ?ls) f seg s seg' s'" by (rule Segment_Write_None [OF w])
  have env: "fs_clock s' = fs_clock s" using wr by (simp add: wrote_def same_env_def)
  have lss: "lss \<noteq> []" and size: "seg_segmentSize seg = int (length (batch_stream (last lss)))"
    using st(1) by (auto simp: log_state_def)
  show ?thesis
  proof (cases place)
    case NewFile
    then have s: "seg' = seg\<lparr>seg_file := Some f, seg_segmentSize := int (length (batch_stream ?ls))\<rparr>"
      "fs_reads s' = Suc (fs_reads s)"
      using wr b'(3) by (auto simp: wrote_def wrap64_id int64_range_def)
    have "log_state seg' (ts @ [fs_clock s (fs_reads s)]) (lss @ [?ls]) s'"
      by (rule log_state_new [OF st(1) wr [unfolded NewFile] b'(2) st(2) b'(3)])
    moreover have "clock_ahead (ts @ [fs_clock s (fs_reads s)]) n s'" by (rule clock_ahead_next [OF st(2) env s(2)])
    ultimately show ?thesis
      unfolding log_agrees_def same_log_def
      by (intro conjI exI [of _ "ts @ [fs_clock s (fs_reads s)]"] exI [of _ "lss @ [?ls]"]) (use st b' s in simp_all)
  next
    case SameFile
    then have nr: "\<not> must_rotate seg (batch_stream ?ls)" and reads: "fs_reads s' = fs_reads s" using wr by (auto simp: wrote_def)
    then have "wrap64 (seg_segmentSize seg + int (length (batch_stream ?ls))) = seg_segmentSize seg + int (length (batch_stream ?ls))"
      using st(5) b'(3) size by (intro wrap64_id) (simp add: int64_range_def)
    with nr st(4) b'(4) size have emp: "last lss = []" by (auto simp: must_rotate_def batch_stream_eq_Nil)
    then have s: "seg' = seg\<lparr>seg_segmentSize := int (length (batch_stream ?ls))\<rparr>"
      using wr SameFile b'(3) size by (auto simp: wrote_def wrap64_id int64_range_def)
    have "log_state seg' ts (butlast lss @ [?ls]) s'"
      by (rule log_state_same [OF st(1) wr [unfolded SameFile] b'(2) emp b'(3)])
    moreover have "clock_ahead ts n s'" by (rule clock_ahead_same [OF st(2) env reads])
    ultimately show ?thesis
      unfolding log_agrees_def same_log_def
      by (intro conjI exI [of _ ts] exI [of _ "butlast lss @ [?ls]"]) (use st b' s replayed_butlast [OF lss emp] in simp_all)
  qed
qed

lemma flush_consistent:
  assumes c: "consistent (Suc n) wal s" and fl: "flushBatch b wal s h = Done (None, wal', s', h')"
    and b: "flushable (seg_maxSegmentSize (wal_segment wal)) b"
  shows "consistent n wal' s' \<and> same_log (wal_segment wal) (wal_segment wal')"
proof -
  have "b \<noteq> []" using b by (simp add: flushable_def)
  then obtain seg' where w: "Segment_Write (batch_stream (map wr_log b)) (wal_segment wal) s = (None, seg', s')"
    "wal' = wal\<lparr>wal_segment := seg', wal_table := apply_logged hash_commands (sort_key LSN (map wr_log b)) (wal_table wal)\<rparr>"
    using flushBatch_None [OF fl] c unfolding consistent_def by metis
  from c write_agrees [OF _ w(1) b] show ?thesis by (auto simp: consistent_def w(2) hash_apply_logged)
qed

lemma clock_ahead_mono: "clock_ahead ts (Suc n) s \<Longrightarrow> clock_ahead ts n s"
  by (rule clock_ahead_same) simp_all

text \<open>Recovery after a crash finds the table again.\<close>

lemma restart_agrees:
  assumes c: "log_agrees n seg s m" "same_log (wal_segment wal0) seg"
    and wal0: "wal_commandHashTable wal0 = hash_commands" "ht_data (wal_table wal0) = (\<lambda>_. None)"
  obtains wal' s' where "Recovery wal0 (reboot keep s) = (None, wal', s')" "log_agrees n (wal_segment wal') s' m"
    "ht_data (wal_table wal') = m" "wal_commandHashTable wal' = hash_commands" "same_log (wal_segment wal0) (wal_segment wal')"
    "no_faults s'"
proof -
  let ?s = "reboot keep s" and ?seg0 = "wal_segment wal0"
  obtain ts lss where st: "log_state seg ts lss s" "clock_ahead ts n s" "m = replayed lss"
    "0 < seg_maxSegmentSize seg" "seg_segmentSize seg < 2 ^ 62"
    using c by (auto simp: log_agrees_def)
  have view: "dir_of ?seg0 = dir_of seg" "seg_path ?seg0 = seg_path seg"
    using c(2) by (simp_all add: dir_of_def seg_path_def fun_eq_iff same_log_def)
  have holds: "dir_holds ?seg0 ts lss ?s" using log_state_reboot [OF st(1)] by (simp add: dir_holds_def view)
  have ne: "ts \<noteq> []" using st(1) by (simp add: log_state_def)
  obtain t' f z s' where r: "Recovery wal0 ?s = (None, wal0\<lparr>wal_table := t',
      wal_segment := ?seg0\<lparr>seg_file := Some f, seg_segmentSize := z\<rparr>\<rparr>, s')"
    "ht_data t' = replayed lss" "of_path f = path_key ?s (seg_path ?seg0 (last ts))" "fs_files s' = fs_files ?s"
    "same_env ?s s'" "fs_reads s' = fs_reads ?s" "z = int (length (batch_stream (last lss)))" "of_open f"
    by (rule Recovery_dir [OF reboot_facts(1) holds wal0(1)]) (use ne wal0(2) in \<open>auto simp: active_time_def files_after_def\<close>)
  note key = path_key_env [OF r(5)]
  have "fs_lookup s' k = map_option (crash_fdata (keep k)) (fs_lookup s k)" for k
    using r(4) reboot_facts(5) [of keep s k] by (simp add: fs_lookup_def)
  moreover have "dir_of seg ts s'"
    using st(1) dir_of_reboot [of seg ts keep s] r(4,5) by (simp add: log_state_def dir_of_def key same_env_def)
  ultimately have "log_state (?seg0\<lparr>seg_file := Some f, seg_segmentSize := z\<rparr>) ts lss s'"
    using st(1) r(3,7,8) by (auto simp: log_state_def view key reboot_facts elim: list.rel_mono_strong)
  moreover have "clock_ahead ts n s'"
    using st(2) r(5,6) by (simp add: clock_ahead_def same_env_def reboot_def crash_def)
  moreover have "z < 2 ^ 62" using st(1,5) r(7) by (simp add: log_state_def)
  ultimately have "log_agrees n (?seg0\<lparr>seg_file := Some f, seg_segmentSize := z\<rparr>) s' m"
    unfolding log_agrees_def by (intro exI [of _ ts] exI [of _ lss]) (use st(3,4) c(2) in \<open>simp add: same_log_def\<close>)
  then show thesis using r(2) st(3) wal0 no_faults_env [OF reboot_facts(1) r(5)]
    by (intro that [OF r(1)]) (simp_all add: same_log_def)
qed

lemma restart_consistent:
  assumes c: "consistent n wal s" "same_log (wal_segment wal0) (wal_segment wal)"
    and wal0: "wal_commandHashTable wal0 = hash_commands" "ht_data (wal_table wal0) = (\<lambda>_. None)"
  obtains wal' s' where "Recovery wal0 (reboot keep s) = (None, wal', s')" "consistent n wal' s'"
    "wal_table wal' = wal_table wal" "same_log (wal_segment wal0) (wal_segment wal')"
proof -
  have a: "log_agrees n (wal_segment wal) s (ht_data (wal_table wal))" using c(1) by (simp add: consistent_def)
  obtain wal' s' where r: "Recovery wal0 (reboot keep s) = (None, wal', s')"
    "log_agrees n (wal_segment wal') s' (ht_data (wal_table wal))" "ht_data (wal_table wal') = ht_data (wal_table wal)"
    "wal_commandHashTable wal' = hash_commands" "same_log (wal_segment wal0) (wal_segment wal')"
    by (rule restart_agrees [OF a c(2) wal0])
  from r(3) have "wal_table wal' = wal_table wal" by (rule HashTable_eqI)
  with r show thesis by (intro that [OF r(1)]) (simp_all add: consistent_def)
qed

text \<open>
  A history of the process: successful flushes, and restarts after a crash, each with a WAL built by
  \<^verbatim>\<open>NewWal\<close> and recovered from the files.
\<close>

datatype wal_event = Flush "WriteRequest list" | Restart "path \<Rightarrow> nat"

fun run_events :: "'t Wal \<Rightarrow> wal_event list \<Rightarrow> 't Wal \<Rightarrow> fs \<Rightarrow> heap \<Rightarrow> ('t Wal \<times> fs \<times> heap) option" where
  "run_events wal0 [] wal s h = Some (wal, s, h)"
| "run_events wal0 (Flush b # evs) wal s h =
     (case flushBatch b wal s h of
        Done (None, wal', s', h') \<Rightarrow> run_events wal0 evs wal' s' h'
      | _ \<Rightarrow> None)"
| "run_events wal0 (Restart keep # evs) wal s h =
     (case Recovery wal0 (reboot keep s) of
        (None, wal', s') \<Rightarrow> run_events wal0 evs wal' s' h
      | _ \<Rightarrow> None)"

fun event_ok :: "int64 \<Rightarrow> wal_event \<Rightarrow> bool" where
  "event_ok mx (Flush b) = flushable mx b"
| "event_ok mx (Restart keep) = True"

lemma run_events_consistent:
  assumes "run_events wal0 evs wal s h = Some (wal', s', h')" "consistent (length evs) wal s"
    and "list_all (event_ok (seg_maxSegmentSize (wal_segment wal0))) evs" "same_log (wal_segment wal0) (wal_segment wal)"
    and "wal_commandHashTable wal0 = hash_commands" "ht_data (wal_table wal0) = (\<lambda>_. None)"
  shows "consistent 0 wal' s' \<and> same_log (wal_segment wal0) (wal_segment wal')"
  using assms
proof (induction evs arbitrary: wal s h)
  case (Cons ev evs)
  have c: "consistent (Suc (length evs)) wal s" using Cons.prems(2) by simp
  show ?case
  proof (cases ev)
    case (Flush b)
    with Cons.prems(1) obtain wal1 s1 h1 where f: "flushBatch b wal s h = Done (None, wal1, s1, h1)"
      "run_events wal0 evs wal1 s1 h1 = Some (wal', s', h')"
      by (auto split: outcome.splits option.splits)
    have b: "flushable (seg_maxSegmentSize (wal_segment wal)) b" using Cons.prems(3,4) Flush by (simp add: same_log_def)
    from flush_consistent [OF c f(1) b] Cons.IH [OF f(2)] Cons.prems same_log_trans show ?thesis by fastforce
  next
    case (Restart keep)
    have "consistent (length evs) wal s" using c by (auto simp: consistent_def log_agrees_def intro: clock_ahead_mono)
    then obtain wal1 s1 where r: "Recovery wal0 (reboot keep s) = (None, wal1, s1)" "consistent (length evs) wal1 s1"
      "same_log (wal_segment wal0) (wal_segment wal1)"
      by (rule restart_consistent [OF _ Cons.prems(4-6)])
    with Cons.prems Restart have "run_events wal0 evs wal1 s1 h = Some (wal', s', h')" by simp
    from Cons.IH [OF this r(2) _ r(3)] Cons.prems show ?thesis by simp
  qed
qed simp

text \<open>The WAL of a process, as the composition root builds it.\<close>

definition new_wal :: "WalConfig \<Rightarrow> string \<Rightarrow> HashTable Wal result" where
  "new_wal cfg dir = NewWal (Some DiscardLogger) cfg
     (NewSegment (Some DiscardLogger) dir (MaskName cfg) (MaxSegmentSize cfg)) hash_commands NewHashTable"

lemma new_wal_facts:
  assumes "new_wal cfg dir = Inr wal0"
  shows "wal_commandHashTable wal0 = hash_commands" "ht_data (wal_table wal0) = (\<lambda>_. None)"
    "wal_segment wal0 = NewSegment (Some DiscardLogger) dir (MaskName cfg) (MaxSegmentSize cfg)"
    "seg_maxSegmentSize (wal_segment wal0) = MaxSegmentSize cfg"
  using assms by (auto simp: new_wal_def NewWal_def ht.view_empty NewSegment_def)

lemma start_consistent:
  assumes "new_wal cfg dir = Inr wal0" "no_faults s" "dir_of (wal_segment wal0) [] s" "clock_ahead [] (Suc n) s"
    and "0 < MaxSegmentSize cfg"
  obtains wal1 s1 where "Recovery wal0 s = (None, wal1, s1)" "consistent n wal1 s1" "no_faults s1"
    "log_state (wal_segment wal1) [fs_clock s (fs_reads s)] [[]] s1"
    "same_log (wal_segment wal0) (wal_segment wal1)" "ht_data (wal_table wal1) = (\<lambda>_. None)"
proof -
  let ?c = "fs_clock s (fs_reads s)" and ?seg = "wal_segment wal0"
  note w = new_wal_facts [OF assms(1)]
  have holds: "dir_holds ?seg [] [] s" using assms(3) by (simp add: dir_holds_def)
  obtain t' f m s1 where r: "Recovery wal0 s = (None, wal0\<lparr>wal_table := t',
      wal_segment := ?seg\<lparr>seg_file := Some f, seg_segmentSize := m\<rparr>\<rparr>, s1)" "ht_data t' = (\<lambda>_. None)" "of_open f"
    "of_path f = path_key s (seg_path ?seg ?c)"
    "fs_files s1 = fs_files s @ [(of_path f, full_file [])]" "same_env s s1" "fs_reads s1 = Suc (fs_reads s)" "m = 0"
    by (rule Recovery_dir [OF assms(2) holds w(1)]) (use w(2) in \<open>auto simp: active_time_def files_after_def full_file_def\<close>)
  let ?wal1 = "wal0\<lparr>wal_table := t', wal_segment := ?seg\<lparr>seg_file := Some f, seg_segmentSize := m\<rparr>\<rparr>"
  note key = path_key_env [OF r(6)] and path = dir_of_path [OF assms(3)]
  have "clock_19 ?c" using clock_ahead_now [OF assms(4)] by simp
  moreover have "of_path f \<notin> fst ` set (fs_files s)"
    using assms(3) dir_children_mem [of "segment_name (seg_maskName ?seg) ?c" "path_key s (seg_directory ?seg)" "map fst (fs_files s)"]
    by (simp add: r(4) path dir_of_def Let_def)
  then have "fs_lookup s1 (of_path f) = Some (full_file [])"
    by (simp add: fs_lookup_def r(5) map_add_def flip: map_of_eq_None_iff)
  ultimately have st: "log_state (?seg\<lparr>seg_file := Some f, seg_segmentSize := m\<rparr>) [?c] [[]] s1"
    using assms(3) r(3-8) by (simp add: log_state_def key path dir_of_def same_env_def dir_children_def Let_def)
  have "clock_ahead [?c] n s1"
    using clock_ahead_next [OF assms(4), of s1] r(6,7) by (simp add: same_env_def)
  then have "consistent n ?wal1 s1"
    unfolding consistent_def log_agrees_def by (intro conjI exI [of _ "[?c]"] exI [of _ "[[]]"]) (use st w assms(5) r in simp_all)
  then show thesis using no_faults_env [OF assms(2) r(6)] st r(2) by (intro that [OF r(1)]) (simp_all add: same_log_def)
qed

text \<open>With no failing system call a flush succeeds.\<close>

lemma file_write_ok:
  assumes "no_faults s" "seg_file seg = Some f" "of_open f" "fs_lookup s (of_path f) \<noteq> None"
  shows "\<exists>seg' s'. write_data data seg s = (None, seg', s')"
  using assms by (auto simp: write_data_def WriteFile_def os_defs no_faults_def)

lemma Segment_Write_ok:
  assumes "no_faults s" "log_state seg ts lss s" "clock_ahead ts (Suc n) s"
  shows "\<exists>seg' s'. Segment_Write data seg s = (None, seg', s')"
proof -
  let ?c = "fs_clock s (fs_reads s)" and ?K = "path_key s (seg_directory seg)"
  have dir: "dir_of seg ts s" using assms(2) by (simp add: log_state_def)
  obtain f where f: "seg_file seg = Some f" "of_open f" "of_path f = path_key s (seg_path seg (last ts))"
    using assms(2) by (auto simp: log_state_def)
  have "ts \<noteq> []" "lss \<noteq> []" using assms(2) by (auto simp: log_state_def)
  then have "fs_lookup s (of_path f) \<noteq> None"
    using assms(2) f(3) by (cases ts rule: rev_cases; cases lss rule: rev_cases) (auto simp: log_state_def)
  with f assms(1) have same: "\<exists>seg' s'. write_data data seg s = (None, seg', s')" using file_write_ok by blast
  have "?c \<notin> set ts" using clock_ahead_now [OF assms(3)] by (auto simp: sorted_wrt_append)
  then have "?K @ [segment_name (seg_maskName seg) ?c] \<notin> fst ` set (fs_files s)"
    using dir dir_children_mem [of "segment_name (seg_maskName seg) ?c" ?K "map fst (fs_files s)"]
    by (auto simp: dir_of_def Let_def)
  moreover have "?K @ [segment_name (seg_maskName seg) ?c] \<notin> set (fs_dirs s)" "?K \<in> set (fs_dirs s)"
    using dir dir_children_mem [of "segment_name (seg_maskName seg) ?c" ?K "fs_dirs s"] by (auto simp: dir_of_def Let_def)
  ultimately have "\<exists>seg' s'. getNextSegment seg s = (None, seg', s')"
    using assms(1) f dir_of_path [OF dir, of ?c]
    by (simp add: getNextSegment_def CreateFile_def os_defs no_faults_def Let_def seg_path_def map_of_eq_None_iff)
  then obtain seg2 s2 where g: "getNextSegment seg s = (None, seg2, s2)" by blast
  obtain f2 where "seg_file seg2 = Some f2" "of_open f2" "fs_lookup s2 (of_path f2) \<noteq> None"
    using getNextSegment_spec(2) [OF g refl] by (auto simp: fs_lookup_def map_add_def split: option.splits)
  moreover have "no_faults s2" using getNextSegment_spec(1) [OF g] assms(1) by (auto simp: keeps_files_def intro: no_faults_env)
  ultimately have "\<exists>seg' s'. write_data data seg2 s2 = (None, seg', s')" using file_write_ok by blast
  with same f(1) g show ?thesis by (auto simp: Segment_Write_def write_open_def)
qed

lemma flushBatch_written:
  assumes "Segment_Write (batch_stream (map wr_log b)) (wal_segment wal) s = (None, seg', s')" "pending b h"
    and "list_all (\<lambda>r. wf_log (wr_log r)) b" "b \<noteq> []"
  shows "\<exists>wal'. flushBatch b wal s h = Done (None, wal', s', resolve_all None b h) \<and> wal_segment wal' = seg'"
proof -
  have "encode_all (map wr_log b) (NewEncoder []) = (None, \<lparr>enc_sent = True, enc_buf = batch_stream (map wr_log b)\<rparr>)"
    using encode_all_NewEncoder [of "map wr_log b"] assms(3,4) by (simp add: list_all_iff)
  then show ?thesis
    using assms(1,4) notification_pending [OF assms(2)] by (simp add: flushBatch_def WalWriter_Write_def segment_writer_def)
qed

lemma flushBatch_ok:
  assumes "no_faults s" "consistent (Suc n) wal s" "pending b h" "list_all (\<lambda>r. wf_log (wr_log r)) b" "b \<noteq> []"
  shows "\<exists>wal' s' h'. flushBatch b wal s h = Done (None, wal', s', h')"
proof -
  obtain seg' s' where "Segment_Write (batch_stream (map wr_log b)) (wal_segment wal) s = (None, seg', s')"
    using Segment_Write_ok [OF assms(1)] assms(2) unfolding consistent_def log_agrees_def by metis
  from flushBatch_written [OF this assms(3-5)] show ?thesis by blast
qed

text \<open>
  No acknowledged write is lost, as long as every batch is larger than the segment limit: start a
  WAL on an empty directory, flush batches successfully and restart after crashes in any order, as often
  as wanted. Then recovery after one more crash, with any of the unsynced bytes surviving, succeeds
  and rebuilds exactly the table the process had.
\<close>

theorem restart_recovers_table:
  assumes "new_wal cfg dir = Inr wal0" and "0 < MaxSegmentSize cfg"
    and "no_faults s0" and "dir_of (wal_segment wal0) [] s0" and "clock_ahead [] (Suc (length evs)) s0"
    and "Recovery wal0 s0 = (None, wal1, s1)" and "list_all (event_ok (MaxSegmentSize cfg)) evs"
    and "run_events wal0 evs wal1 s1 h = Some (wal2, s2, h2)"
  shows "\<exists>wal3 s3. Recovery wal0 (reboot keep s2) = (None, wal3, s3) \<and> wal_table wal3 = wal_table wal2"
proof -
  note w = new_wal_facts [OF assms(1)]
  have c: "consistent (length evs) wal1 s1" "same_log (wal_segment wal0) (wal_segment wal1)"
    using start_consistent [OF assms(1,3,4,5,2)] assms(6) by (metis prod.inject)+
  have e: "consistent 0 wal2 s2" "same_log (wal_segment wal0) (wal_segment wal2)"
    using run_events_consistent [OF assms(8) c(1) _ c(2) w(1,2)] assms(7) w(4) by auto
  show ?thesis by (rule restart_consistent [OF e w(1,2), of keep]) blast
qed

lemma length_frame_less: "length m < tooBig \<Longrightarrow> length (frame m) < 2 ^ 34"
  using length_encodeUint [of "length m"] by (simp add: frame_def tooBig_def)

lemma batch_stream_single:
  assumes "wf_log l"
  shows "1 < int (length (batch_stream [l]))" "int (length (batch_stream [l])) < 2 ^ 40"
proof -
  have "length (frame log_def) < 2 ^ 34" "length (frame args_def) < 2 ^ 34" "length (frame (log_message l)) < 2 ^ 34"
    using assms length_frame_less length_log_def length_args_def by (auto simp: wf_log_def)
  then show "int (length (batch_stream [l])) < 2 ^ 40" by (simp add: batch_stream_def)
  have "2 \<le> length (frame log_def)" by (simp add: frame_def log_def_def log_wire_def)
  then show "1 < int (length (batch_stream [l]))" by (simp add: batch_stream_def)
qed

lemma demo_log_wf: "wf_log (wr_log (demo_req 1 0 [''a'', ''1'']))" "wf_log (wr_log (demo_req 2 1 [''a'', ''2'']))"
  by (rule wf_log_small; simp add: demo_req_def int64_range_def)+

lemma demo_dir: "no_faults demo_fs" "clock_ahead [] 3 demo_fs"
    "new_wal cfg ''/w'' = Inr wal0 \<Longrightarrow> MaskName cfg = ''s'' \<Longrightarrow> dir_of (wal_segment wal0) [] demo_fs"
  by (simp_all add: no_faults_def demo_fs_def clock_ahead_def clock_19_def upt_rec new_wal_facts(3) dir_of_def
      NewSegment_def IsAbs_def plain_mask_def path_key_def dir_children_def Let_def)

theorem restart_recovers_table_witness:
  "\<exists>wal0 wal1 s1 wal2 s2 h2. new_wal (demo_cfg\<lparr>MaxSegmentSize := 1\<rparr>) ''/w'' = Inr wal0 \<and>
     Recovery wal0 demo_fs = (None, wal1, s1) \<and>
     run_events wal0 [Flush [demo_req 1 0 [''a'', ''1'']], Restart (\<lambda>_. 0)] wal1 s1 demo_heap = Some (wal2, s2, h2) \<and>
     (\<exists>wal3 s3. Recovery wal0 (reboot (\<lambda>_. 0) s2) = (None, wal3, s3) \<and> wal_table wal3 = wal_table wal2)"
proof -
  let ?cfg = "demo_cfg\<lparr>MaxSegmentSize := 1\<rparr>" and ?b = "[demo_req 1 0 [''a'', ''1'']]"
  obtain wal0 where w0: "new_wal ?cfg ''/w'' = Inr wal0" by (simp add: new_wal_def NewWal_def)
  have dir: "dir_of (wal_segment wal0) [] demo_fs" by (rule demo_dir(3) [OF w0]) (simp add: demo_cfg_def)
  have ahead: "clock_ahead [] (Suc (Suc (Suc 0))) demo_fs" using demo_dir(2) by (simp add: numeral_3_eq_3)
  obtain wal1 s1 where 1: "Recovery wal0 demo_fs = (None, wal1, s1)" "consistent (Suc (Suc 0)) wal1 s1" "no_faults s1"
    "same_log (wal_segment wal0) (wal_segment wal1)"
    by (rule start_consistent [OF w0 demo_dir(1) dir ahead]) simp_all
  have b: "flushable 1 ?b"
    using batch_stream_single [OF demo_log_wf(1)] demo_log_wf(1) by (simp add: flushable_def applicable_def demo_req_def)
  have pend: "pending ?b demo_heap" by (simp add: pending_def demo_req_def demo_heap_def)
  obtain wal2 s2 h2 where 2: "flushBatch ?b wal1 s1 demo_heap = Done (None, wal2, s2, h2)"
    using flushBatch_ok [OF 1(3,2) pend] demo_log_wf(1) by auto
  have mx: "seg_maxSegmentSize (wal_segment wal1) = 1" using new_wal_facts(4) [OF w0] 1(4) by (simp add: same_log_def)
  have c2: "consistent (Suc 0) wal2 s2" "same_log (wal_segment wal0) (wal_segment wal2)"
    using flush_consistent [OF 1(2) 2] b mx 1(4) same_log_trans by auto
  obtain wal3 s3 where 3: "Recovery wal0 (reboot (\<lambda>_. 0) s2) = (None, wal3, s3)"
    by (rule restart_consistent [OF c2 new_wal_facts(1,2) [OF w0]])
  have run: "run_events wal0 [Flush ?b, Restart (\<lambda>_. 0)] wal1 s1 demo_heap = Some (wal3, s3, h2)" by (simp add: 2 3)
  have "\<exists>wal4 s4. Recovery wal0 (reboot (\<lambda>_. 0) s3) = (None, wal4, s4) \<and> wal_table wal4 = wal_table wal3"
    by (rule restart_recovers_table [OF w0 _ demo_dir(1) dir _ 1(1) _ run]) (use ahead b in simp_all)
  with w0 1(1) run show ?thesis by blast
qed

section \<open>Two acknowledged batches in one segment\<close>

text \<open>A directory with one segment, the active one, holding exactly the given synced bytes.\<close>

definition active_holds :: "Segment \<Rightarrow> nat \<Rightarrow> bytes \<Rightarrow> fs \<Rightarrow> bool" where
  "active_holds seg t data s \<longleftrightarrow> dir_of seg [t] s \<and>
     fs_lookup s (path_key s (seg_path seg t)) = Some \<lparr>fd_bytes = data, fd_synced = length data\<rparr> \<and>
     seg_segmentSize seg = int (length data) \<and>
     (\<exists>f. seg_file seg = Some f \<and> of_open f \<and> of_path f = path_key s (seg_path seg t))"

lemma active_holds_write:
  assumes "active_holds seg t data s" "Segment_Write d seg s = (None, seg', s')"
    and "data = [] \<or> int (length (data @ d)) \<le> seg_maxSegmentSize seg" "int (length (data @ d)) < 2 ^ 63"
  shows "active_holds seg' t (data @ d) s' \<and> seg' = seg\<lparr>seg_segmentSize := int (length (data @ d))\<rparr>"
proof -
  obtain place f where w: "wrote place d f seg s seg' s'" by (rule Segment_Write_None [OF assms(2)])
  have sz: "wrap64 (seg_segmentSize seg + int (length d)) = int (length (data @ d))"
    using assms(1,4) by (subst wrap64_id) (auto simp: active_holds_def int64_range_def)
  then have "\<not> must_rotate seg d" using assms(1,3) by (auto simp: must_rotate_def active_holds_def)
  with w assms(1) have "place = SameFile" by (cases place) (auto simp: wrote_def active_holds_def)
  with w assms(1) have f: "seg_file seg = Some f" "of_open f" "of_path f = path_key s (seg_path seg t)" "same_env s s'"
    "fs_files s' = alist_set (of_path f) \<lparr>fd_bytes = data @ d, fd_synced = length (data @ d)\<rparr> (fs_files s)"
    "seg' = seg\<lparr>seg_segmentSize := int (length (data @ d))\<rparr>"
    using sz by (auto simp: wrote_def active_holds_def)
  note key = path_key_env [OF f(4)] and look = alist_set_lookup [OF f(5)]
  have "of_path f \<in> fst ` set (fs_files s)"
    using assms(1) f(3) by (metis active_holds_def fs_lookup_def map_of_eq_None_iff option.distinct(1))
  then have "dir_of seg [t] s'"
    using assms(1) f(4,5) by (simp add: active_holds_def dir_of_def key same_env_def alist_set_map_fst)
  then show ?thesis using f by (simp add: active_holds_def key look)
qed

lemma two_flushes_active:
  assumes "active_holds (wal_segment wal) t [] s" "run_events wal0 [Flush b1, Flush b2] wal s h = Some (wal2, s2, h2)"
    and "b1 \<noteq> []" "b2 \<noteq> []" "seg_maxSegmentSize (wal_segment wal) < 2 ^ 63"
    and "int (length (batch_stream (map wr_log b1) @ batch_stream (map wr_log b2))) \<le> seg_maxSegmentSize (wal_segment wal)"
  shows "active_holds (wal_segment wal2) t (batch_stream (map wr_log b1) @ batch_stream (map wr_log b2)) s2 \<and>
    (\<exists>n. wal_segment wal2 = (wal_segment wal)\<lparr>seg_segmentSize := n\<rparr>)"
proof -
  let ?d1 = "batch_stream (map wr_log b1)" and ?d2 = "batch_stream (map wr_log b2)"
  obtain wa sa ha where f: "flushBatch b1 wal s h = Done (None, wa, sa, ha)" "flushBatch b2 wa sa ha = Done (None, wal2, s2, h2)"
    using assms(2) by (auto split: outcome.splits option.splits)
  obtain sg1 where 1: "Segment_Write ?d1 (wal_segment wal) s = (None, sg1, sa)" "wal_segment wa = sg1"
    by (rule flushBatch_None [OF f(1) assms(3)]) simp
  obtain sg2 where 2: "Segment_Write ?d2 sg1 sa = (None, sg2, s2)" "wal_segment wal2 = sg2"
    by (rule flushBatch_None [OF f(2) assms(4)]) (simp add: 1(2))
  have a1: "active_holds sg1 t ?d1 sa" "sg1 = (wal_segment wal)\<lparr>seg_segmentSize := int (length ?d1)\<rparr>"
    using active_holds_write [OF assms(1) 1(1)] assms(5,6) by auto
  then have "active_holds sg2 t (?d1 @ ?d2) s2 \<and> sg2 = sg1\<lparr>seg_segmentSize := int (length (?d1 @ ?d2))\<rparr>"
    using assms(5,6) by (intro active_holds_write [OF a1(1) 2(1)]) auto
  then show ?thesis using a1(2) 2(2) by (metis (no_types, lifting) Segment.fold_congs(5) Segment.surjective Segment.update_convs(5))
qed


lemma active_write_ok:
  assumes "active_holds seg t data s" "no_faults s"
    and "data = [] \<or> int (length (data @ d)) \<le> seg_maxSegmentSize seg" "int (length (data @ d)) < 2 ^ 63"
  obtains seg' s' where "Segment_Write d seg s = (None, seg', s')" "no_faults s'"
proof -
  obtain f where f: "seg_file seg = Some f" "of_open f" "fs_lookup s (of_path f) \<noteq> None"
    using assms(1) by (auto simp: active_holds_def)
  then obtain seg' s' where w: "write_data d seg s = (None, seg', s')" using file_write_ok [OF assms(2)] by blast
  have "wrap64 (seg_segmentSize seg + int (length d)) = int (length (data @ d))"
    using assms(1,4) by (subst wrap64_id) (auto simp: active_holds_def int64_range_def)
  then have "\<not> must_rotate seg d" using assms(1,3) by (auto simp: must_rotate_def active_holds_def)
  with w f have ok: "Segment_Write d seg s = (None, seg', s')" by (simp add: Segment_Write_def write_open_def)
  have "no_faults s'" using no_faults_env [OF assms(2)] write_data_None [OF w] by metis
  with ok show thesis by (rule that)
qed


end
