(* ===== verification/Initialization.thy ===== *)
theory Initialization
  imports Service Network Wal_Recovery
begin

text \<open>
  Package \<^verbatim>\<open>internal/initialization\<close>: the composition root. It builds the logger, recovers the WAL, opens
  the listener, wires the layers, and serves; what it builds is shown to satisfy the invariants of every
  component, so that a started server answers its connections as a map would.
\<close>

section \<open>The builders\<close>

definition LoggerLevelInfo :: string where "LoggerLevelInfo = ''info''"
definition LoggerLevelDev :: string where "LoggerLevelDev = ''dev''"
definition LoggerLevelProd :: string where "LoggerLevelProd = ''prod''"

text \<open>\<^verbatim>\<open>cfg.Logger\<close> is a pointer that is followed without a check; no level is an error.\<close>

definition CreateLogger :: "Config \<Rightarrow> logger result outcome" where
  "CreateLogger cfg = (case Logger cfg of
       None \<Rightarrow> Panics ''nil pointer dereference''
     | Some l \<Rightarrow> Done (Inr
         (if Level l = LoggerLevelInfo then PrettyLogger LevelInfo
          else if Level l = LoggerLevelDev then PrettyLogger LevelDebug
          else if Level l = LoggerLevelProd then DiscardLogger
          else PrettyLogger LevelInfo)))"

text \<open>
  The hash table is created here and is the table of the WAL. The flusher goroutine is the component
  \<open>Wal_Runtime\<close>, which starts from the WAL that is returned.
\<close>

definition CreateWal :: "logger option \<Rightarrow> Config \<Rightarrow> fs \<Rightarrow> (HashTable Wal result \<times> fs) outcome" where
  "CreateWal log cfg s = (case log of
       None \<Rightarrow> Done (Inl Initialization_ErrInvalidLogger, s)
     | Some l \<Rightarrow> (case cfg_Wal cfg of
         None \<Rightarrow> Panics ''nil pointer dereference''
       | Some w \<Rightarrow> (case MakeDirectory (SegmentStoragePath w) s of
           (Inl err, s1) \<Rightarrow> Done (Inl err, s1)
         | (Inr directory, s1) \<Rightarrow>
             (let segment = NewSegment log directory (MaskName w) (MaxSegmentSize w)
              in case NewWal log w segment hash_commands NewHashTable of
                   Inl err \<Rightarrow> Done (Inl err, s1)
                 | Inr wal \<Rightarrow> (case Recovery wal s1 of
                     (Some err, wal1, s2) \<Rightarrow> Done (Inl err, s2)
                   | (None, wal1, s2) \<Rightarrow> Done (Inr wal1, s2))))))"

definition CreateEngine ::
    "logger option \<Rightarrow> 's CommandEngine option \<Rightarrow> ('s \<Rightarrow> HashTable) option \<Rightarrow> 's Engine result" where
  "CreateEngine log wal hashTable = (case NewEngine log wal hashTable of Inl err \<Rightarrow> Inl err | Inr engine \<Rightarrow> Inr engine)"

definition defaultIdleTimeout :: int64 where "defaultIdleTimeout = 10 * Minute"
definition defaultMaxConnections :: int64 where "defaultMaxConnections = 10"
definition defaultBufferSize :: int64 where "defaultBufferSize = 4096"
definition defaultServerAddress :: string where "defaultServerAddress = ''127.0.0.1:3323''"

definition CreateTCPNetwork :: "logger option \<Rightarrow> NetworkConfig option \<Rightarrow> net_world \<Rightarrow> TCPServer result \<times> net_world" where
  "CreateTCPNetwork log cfg net = (case log of
       None \<Rightarrow> (Inl Network_ErrInvalidLogger, net)
     | Some l \<Rightarrow> (case cfg of
         None \<Rightarrow> (Inl Network_ErrInvalidConfig, net)
       | Some n \<Rightarrow>
           (let options =
              [WithServerTCPIdleTimeout (if IdleTimeout n \<noteq> 0 then IdleTimeout n else defaultIdleTimeout),
               WithServerTCPMaxConnectionNumber (if MaxConnections n \<noteq> 0 then MaxConnections n else defaultMaxConnections),
               WithServerTCPBufferSize (if BufferSize n \<noteq> 0 then BufferSize n else defaultBufferSize)];
                address = (if Address n = '''' then defaultServerAddress else Address n)
            in NewTCPServer address log options net)))"

section \<open>The composition root (initializer.go)\<close>

record Initializer =
  ini_Log :: logger
  ini_engine :: "world Engine"
  ini_server :: TCPServer

text \<open>
  The result is the initializer together with the WAL it has started; the engine reaches the WAL and its
  table through the methods of \<open>Service\<close>.
\<close>

definition NewInitializer ::
    "Config option \<Rightarrow> fs \<Rightarrow> net_world \<Rightarrow> ((Initializer \<times> HashTable Wal) result \<times> fs \<times> net_world) outcome" where
  "NewInitializer cfg s net = (case cfg of
       None \<Rightarrow> Done (Inl (Errorf ''initialization.NewInitializer: failed to initialize: config is invalid'' None), s, net)
     | Some c \<Rightarrow>
         outcome_bind (CreateLogger c) (\<lambda>res. case res of
           Inl err \<Rightarrow> Done (Inl err, s, net)
         | Inr log \<Rightarrow>
             outcome_bind (CreateWal (Some log) c s) (\<lambda>(res, s1). case res of
               Inl err \<Rightarrow> Done (Inl err, s1, net)
             | Inr wal \<Rightarrow>
                 (case CreateEngine (Some log) (Some wal_methods) (Some world_table) of
                    Inl err \<Rightarrow> Done (Inl (Errorf ''initialization.NewInitializer: failed to create storage engine'' None), s1, net)
                  | Inr engine \<Rightarrow>
                      (case CreateTCPNetwork (Some log) (Network c) net of
                         (Inl err, net1) \<Rightarrow> Done (Inl err, s1, net1)
                       | (Inr server, net1) \<Rightarrow>
                           Done (Inr (\<lparr>ini_Log = log, ini_engine = engine, ini_server = server\<rparr>, wal), s1, net1))))))"

text \<open>
  \<^verbatim>\<open>StartDatabase\<close>: the layers as \<open>wire_database\<close> builds them, and the closure it hands to the server, with
  the context of the group in it.
\<close>

definition db_handler :: "'s engine_state Database \<Rightarrow> ctx \<Rightarrow> 's engine_state TCPHandler" where
  "db_handler db ctx query st = (case DatabaseHandler db ctx query st of
       Done (response, st') \<Rightarrow> Reply response st'
     | Panics m \<Rightarrow> Panicked st
     | Blocks \<Rightarrow> Hangs)"

definition StartDatabase :: "upper_map \<Rightarrow> Initializer \<Rightarrow> ctx \<Rightarrow> world engine_state TCPHandler result" where
  "StartDatabase up ini ctx = (case wire_database up (Some (ini_Log ini)) of
       Inl err \<Rightarrow> Inl err
     | Inr database \<Rightarrow> Inr (db_handler database ctx))"

section \<open>What is built\<close>

text \<open>The builders create at most one file and change none, and the WAL they return is idle.\<close>

definition files_kept :: "fs \<Rightarrow> fs \<Rightarrow> bool" where
  "files_kept s s' \<longleftrightarrow> (\<forall>k d. fs_lookup s k = Some d \<longrightarrow> fs_lookup s' k = Some d) \<and> (synced_ok s \<longrightarrow> synced_ok s')"

lemma files_kept_same: "fs_files s' = fs_files s \<Longrightarrow> files_kept s s'"
  by (simp add: files_kept_def fs_lookup_def synced_ok_def)

lemma files_kept_trans: "files_kept s1 s2 \<Longrightarrow> files_kept s2 s3 \<Longrightarrow> files_kept s1 s3"
  by (simp add: files_kept_def)

lemma MakeDirectory_kept: "MakeDirectory d s = (r, s') \<Longrightarrow> files_kept s s'"
  by (intro files_kept_same)
    (auto simp: MakeDirectory_def resolveWalPath_def os_defs Let_def split: prod.splits sum.splits option.splits if_splits)

lemma recover_files_kept:
  "recover_files segment_reader cmd files t (seg, s) = (r, t', seg', s') \<Longrightarrow> seg' = seg \<and> files_kept s s'"
proof (induction files arbitrary: t s)
  case (Cons p ps)
  obtain res s1 where p: "Segment_Read p s = (res, s1)" by fastforce
  then have "files_kept s s1"
    by (intro files_kept_same) (auto simp: Segment_Read_def ReadFile_def os_defs Let_def split: prod.splits sum.splits option.splits if_splits)
  with Cons p show ?case by (auto simp: segment_reader_def split: sum.splits prod.splits option.splits intro: files_kept_trans)
qed (simp add: files_kept_same)

lemma recovery_file_kept: "recovery_file segment_reader files (seg, s) = (r, seg', s') \<Longrightarrow> files_kept s s'"
proof -
  assume r: "recovery_file segment_reader files (seg, s) = (r, seg', s')"
  show ?thesis
  proof (cases "files = []")
    case True
    then obtain res where "CreateFile (seg_directory seg) (seg_maskName seg) s = (res, s')"
      using r by (auto simp: recovery_file_def segment_reader_def Segment_CreateFile_def split: prod.splits sum.splits)
    from CreateFile_keeps [OF this] CreateFile_synced [OF this] show ?thesis by (auto simp: keeps_files_def files_kept_def)
  next
    case False
    with r show ?thesis
      by (intro files_kept_same) (auto simp: recovery_file_def os_defs Let_def split: prod.splits sum.splits option.splits if_splits)
  qed
qed

lemma SetFile_kept: "SetFile f seg s = (seg', s') \<Longrightarrow> files_kept s s'"
  by (intro files_kept_same) (auto simp: SetFile_def os_defs Let_def split: prod.splits sum.splits option.splits if_splits)

lemma GetList_kept: "Segment_GetList seg s = (r, s') \<Longrightarrow> files_kept s s'"
  by (intro files_kept_same)
    (auto simp: Segment_GetList_def GetFileList_def os_defs Let_def split: prod.splits sum.splits option.splits if_splits)

lemma Recovery_frame:
  assumes "Recovery wal s = (r, wal', s')"
  shows "files_kept s s' \<and> wal_batch wal' = wal_batch wal \<and> wal_batches wal' = wal_batches wal \<and>
    wal_activeBatchVolume wal' = wal_activeBatchVolume wal \<and> wal_commandHashTable wal' = wal_commandHashTable wal"
proof -
  obtain l s1 where 1: "Segment_GetList (wal_segment wal) s = (l, s1)" by fastforce
  show ?thesis
  proof (cases l)
    case (Inl e)
    with assms 1 GetList_kept [OF 1] show ?thesis by (auto simp: Recovery_def reader_defs)
  next
    case (Inr fl)
    obtain e t seg s2 where 2: "recover_files segment_reader (wal_commandHashTable wal) fl (wal_table wal) (wal_segment wal, s1) = (e, t, seg, s2)"
      by (metis surj_pair)
    obtain g seg1 s3 where 3: "recovery_file segment_reader fl (seg, s2) = (g, seg1, s3)" by (metis surj_pair)
    note kept = files_kept_trans [OF GetList_kept [OF 1] recover_files_kept [OF 2, THEN conjunct2]]
    note kept3 = files_kept_trans [OF kept recovery_file_kept [OF 3]]
    show ?thesis
      using assms 1 2 3 Inr kept kept3 files_kept_trans [OF kept3 SetFile_kept]
      by (auto simp: Recovery_def reader_defs split: option.splits sum.splits prod.splits)
  qed
qed


lemma CreateWal_ok:
  assumes "CreateWal log cfg s = Done (Inr wal, s')"
  shows "idle_wal wal \<and> files_kept s s'"
proof -
  obtain w directory s1 wal0 where c: "MakeDirectory (SegmentStoragePath w) s = (Inr directory, s1)"
    "NewWal log w (NewSegment log directory (MaskName w) (MaxSegmentSize w)) hash_commands NewHashTable = Inr wal0"
    "Recovery wal0 s1 = (None, wal, s')"
    using assms by (auto simp: CreateWal_def Let_def split: option.splits prod.splits sum.splits)
  have "idle_wal wal0" using c(2) by (auto simp: NewWal_def idle_wal_def split: option.splits)
  with Recovery_frame [OF c(3)] files_kept_trans [OF MakeDirectory_kept [OF c(1)]] show ?thesis by (simp add: idle_wal_def)
qed

lemma CreateTCPNetwork_ok:
  assumes "CreateTCPNetwork log cfg net = (Inr server, net')"
  shows "0 < srv_bufferSize server \<and> 0 < srv_maxConnections server \<and>
    srv_semaphore server = Some (NewSemaphore (srv_maxConnections server)) \<and> srv_listener server \<in> set (nw_listeners net')"
  using assms
  by (auto simp: CreateTCPNetwork_def NewTCPServer_def server_option_defs Let_def defaultMaxConnections_def defaultBufferSize_def
      split: option.splits if_splits)

lemma NewInitializer_parts:
  assumes "NewInitializer (Some cfg) s net = Done (Inr (ini, wal), s', net')"
  shows "CreateWal (Some (ini_Log ini)) cfg s = Done (Inr wal, s') \<and>
    NewEngine (Some (ini_Log ini)) (Some wal_methods) (Some world_table) = Inr (ini_engine ini) \<and>
    CreateTCPNetwork (Some (ini_Log ini)) (Network cfg) net = (Inr (ini_server ini), net')"
  using assms
  by (auto simp: NewInitializer_def CreateEngine_def split: option.splits sum.splits prod.splits elim!: outcome_bind_DoneE)

section \<open>A started server\<close>

lemma handle_all_replies:
  "handle_all db (map (Pair ctx) qs) st = Done (rs, st') \<Longrightarrow> replies (db_handler db ctx) qs st = (rs, st')"
proof (induction qs arbitrary: st rs)
  case (Cons q qs)
  from Cons.prems obtain r st1 rs1 where "DatabaseHandler db ctx q st = Done (r, st1)"
    "handle_all db (map (Pair ctx) qs) st1 = Done (rs1, st')" "rs = r # rs1"
    by (auto elim!: outcome_bind_DoneE)
  with Cons.IH show ?case by (simp add: db_handler_def)
qed simp

text \<open>The dispatcher with the layers below it answers every request, so it can serve a connection.\<close>

lemma db_handler_replies:
  assumes "wire_database up (Some log) = Inr db" "service_ok st"
  shows "\<exists>r st'. db_handler db ctx q st = Reply r st' \<and> service_ok st'"
  using svc.handler_refines [of st up log ctx q] assms
  by (fastforce simp: wire_database_Inr service_ok_def db_handler_def)

text \<open>The wired database for a logger and a Unicode table, as a value.\<close>

definition wired :: "upper_map \<Rightarrow> logger \<Rightarrow> world engine_state Database" where
  "wired up log = (case wire_database up (Some log) of Inr db \<Rightarrow> db)"

lemma wired_eq: "wire_database up (Some log) = Inr (wired up log)"
  by (simp add: wired_def wire_database_Inr)

interpretation conn: replying_handler "db_handler (wired up log) ctx" service_ok for up log ctx
  by unfold_locales (rule db_handler_replies [OF wired_eq])

lemma started_connection:
  assumes "synced_ok s" and "NewInitializer (Some cfg) s net = Done (Inr (ini, wal), s', net')"
    and "StartDatabase up ini ctx = Inr handler" and "nc_fault c = (\<lambda>_. None)"
  shows "\<exists>c' st' resps fates. HandleConnections (ini_server ini) handler c (ini_engine ini, wal, s', empty_heap) = Some (Served c' st') \<and>
    nc_closed c' \<and> nc_out c' = nc_out c @ resps \<and>
    length fates = length (requests_of (nat (srv_bufferSize (ini_server ini))) (nc_in c)) \<and>
    spec_run (zip (map (tokens_of (ParseAndValidate up)) (requests_of (nat (srv_bufferSize (ini_server ini))) (nc_in c))) fates)
      (ht_data (wal_table wal)) = (resps, ht_data (world_table (snd st'))) \<and>
    (\<forall>k d. fs_lookup s k = Some d \<longrightarrow> fs_lookup s' k = Some d)"
proof -
  let ?log = "ini_Log ini" and ?w = "(wal, s', empty_heap) :: world"
  let ?reqs = "requests_of (nat (srv_bufferSize (ini_server ini))) (nc_in c)"
  note parts = NewInitializer_parts [OF assms(2)]
  have wal: "idle_wal wal" "files_kept s s'" using CreateWal_ok parts by blast+
  have server: "0 < srv_bufferSize (ini_server ini)" using CreateTCPNetwork_ok parts by blast
  have handler: "handler = db_handler (wired up ?log) ctx" using assms(3) by (simp add: StartDatabase_def wired_eq)
  have "world_ok ?w" using wal assms(1) by (simp add: world_ok_def files_kept_def heap_wf_def empty_heap_def)
  then have ok: "service_ok (ini_engine ini, ?w)" using parts NewEngine_ok by blast
  have "wired up ?log = \<lparr>db_Compute = \<lparr>cl_ParseAndValidate = ParseAndValidate up\<rparr>,
     db_Storage = storage_methods (facade ?log Engine_Set Engine_Del Engine_Get), db_log = ?log\<rparr>"
    by (simp add: wired_def wire_database_Inr)
  then obtain resps st' fates where h: "handle_all (wired up ?log) (map (Pair ctx) ?reqs) (ini_engine ini, ?w) = Done (resps, st')"
    "spec_run (zip (map (tokens_of (ParseAndValidate up) \<circ> snd) (map (Pair ctx) ?reqs)) fates) (ht_data (wal_table wal)) =
      (resps, ht_data (world_table (snd st')))" "length fates = length ?reqs"
    using svc.handle_all_refines [of "(ini_engine ini, ?w)" up ?log "map (Pair ctx) ?reqs"] ok by (auto simp: service_ok_def)
  have tok: "map (tokens_of (ParseAndValidate up) \<circ> snd) (map (Pair ctx) ?reqs) = map (tokens_of (ParseAndValidate up)) ?reqs"
    by (simp add: comp_def)
  obtain c' where "HandleConnections (ini_server ini) handler c (ini_engine ini, ?w) = Some (Served c' st')"
    "nc_out c' = nc_out c @ resps" "nc_closed c'"
    using conn.HandleConnections_replies [OF server assms(4) ok handle_all_replies [OF h(1)]] by (auto simp: handler)
  with h(2,3) wal(2) show ?thesis unfolding tok files_kept_def by blast
qed


definition demo_config :: Config where
  "demo_config = base_config\<lparr>cfg_Wal := Some demo_cfg\<rparr>"

definition demo_net :: net_world where
  "demo_net = \<lparr>nw_listeners = [], nw_listen = (\<lambda>_. None)\<rparr>"

lemma demo_MakeDirectory: "MakeDirectory ''/w'' demo_fs = (Inr ''/w'', demo_fs\<lparr>fs_calls := 1\<rparr>)"
  by (simp add: MakeDirectory_def resolveWalPath_def IsAbs_def os_MkdirAll_def os_defs demo_fs_def path_key_def)

lemma demo_Recovery:
  assumes "wal_segment wal = NewSegment log ''/w'' ''s'' n"
  shows "\<exists>wal' s'. Recovery wal (demo_fs\<lparr>fs_calls := 1\<rparr>) = (None, wal', s') \<and> wal_table wal' = wal_table wal"
proof -
  have key: "path_key s ''/w'' = [''w'']" for s by (simp add: path_key_def IsAbs_def)
  show ?thesis using assms
    by (simp add: Recovery_def reader_defs Segment_GetList_def GetFileList_def recovery_file_def Segment_CreateFile_def CreateFile_def
        NewSegment_def SetFile_def os_defs demo_fs_def demo_path Let_def key dir_children_def)
qed

lemma demo_start:
  "\<exists>ini wal s' net'. NewInitializer (Some demo_config) demo_fs demo_net = Done (Inr (ini, wal), s', net') \<and>
     srv_bufferSize (ini_server ini) = 4096 \<and> ini_Log ini = PrettyLogger LevelInfo \<and> ht_data (wal_table wal) = (\<lambda>_. None)"
proof -
  let ?log = "PrettyLogger LevelInfo"
  obtain wal where w: "NewWal (Some ?log) demo_cfg (NewSegment (Some ?log) ''/w'' ''s'' 1073741824) hash_commands NewHashTable = Inr wal"
    "wal_segment wal = NewSegment (Some ?log) ''/w'' ''s'' 1073741824" by (simp add: NewWal_def)
  obtain wal' s' where r: "Recovery wal (demo_fs\<lparr>fs_calls := 1\<rparr>) = (None, wal', s')" "wal_table wal' = wal_table wal"
    using demo_Recovery [OF w(2)] by blast
  have "ht_data (wal_table wal') = (\<lambda>_. None)" using w(1) r(2) by (auto simp: NewWal_def ht.view_empty)
  moreover from w(1) r(1) have "CreateWal (Some ?log) demo_config demo_fs = Done (Inr wal', s')"
    by (simp add: CreateWal_def demo_config_def demo_cfg_def demo_MakeDirectory)
  moreover have "CreateLogger demo_config = Done (Inr ?log)"
    by (simp add: CreateLogger_def demo_config_def base_config_def LoggerLevelInfo_def)
  moreover obtain engine where "NewEngine (Some ?log) (Some wal_methods) (Some world_table) = Inr engine" by (simp add: NewEngine_def)
  moreover obtain server net' where "CreateTCPNetwork (Some ?log) (Network demo_config) demo_net = (Inr server, net')" "srv_bufferSize server = 4096"
    by (simp add: CreateTCPNetwork_def demo_config_def base_config_def NewTCPServer_def demo_net_def server_option_defs Minute_def Let_def)
  ultimately show ?thesis by (simp add: NewInitializer_def CreateEngine_def)
qed



section \<open>Requests and the read buffer\<close>

text \<open>A write on a fresh engine over the demonstration files succeeds.\<close>

lemma run_Set_ok:
  assumes "NewEngine (Some log) (Some wal_methods) (Some world_table) = Inr engine" "length k < 2 ^ 20" "length v < 2 ^ 20"
  obtains st' where "Engine_Set ctx k v (engine, run_wal, demo_fs, empty_heap) = Done (None, st')"
    "service_ok st'" "ht_data (world_table (snd st')) k = Some v"
proof -
  have ok: "service_ok (engine, run_wal, demo_fs, empty_heap)" by (rule NewEngine_ok [OF assms(1) run_world_ok])
  have "wf_log \<lparr>LSN = GetTxIDFromContext c, CommandID = CommandSetID, Arguments = [k, v]\<rparr>" for c
    using assms(2,3) by (intro wf_log_small) (simp_all add: GetTxID_range int64_range_def [of 1] CommandSetID_def)
  from lone_push_ok [OF run_world_ok this run_write] obtain w' where
    "Wal_Set (lsn_ctx ctx engine) k v (run_wal, demo_fs, empty_heap) = Done (None, w')" unfolding Wal_Set_def by blast
  moreover have "eng_commandEngine engine = wal_methods" "0 \<le> sint (counter (eng_currentLSN engine))"
    using ok by (simp_all add: service_ok_def engine_ok_def)
  ultimately obtain st' where s: "Engine_Set ctx k v (engine, run_wal, demo_fs, empty_heap) = Done (None, st')"
    by (simp add: Engine_writes wal_methods_def)
  with wal.engine.eset_returns [of "(engine, run_wal, demo_fs, empty_heap)" ctx k v] ok that show thesis
    by (auto simp: service_ok_def wal_methods_def)
qed

lemma wired_Set:
  assumes "ParseAndValidate up raw = Inr [''SET'', k, v]" "Engine_Set ctx k v st = Done (None, st')"
  shows "db_handler (wired up log) ctx raw st = Reply ''OK'' st'"
  using assms
  by (simp add: db_handler_def wired_def wire_database_Inr DatabaseHandler_def handleSet_def token_at_def command_consts
      storage_methods_def Storage_passes_on facade_def)



section \<open>The server binary (cmd/server/main.go)\<close>

text \<open>
  \<^verbatim>\<open>main\<close> up to the point where it waits for a signal: the exit status of a failed start, or the running
  service with the result of \<^verbatim>\<open>StartDatabase\<close>, whose error only stops the context.
\<close>

datatype startup =
    Exit nat
  | Running Initializer "HashTable Wal" fs net_world "world engine_state TCPHandler result"

definition server_main :: "upper_map \<Rightarrow> config_env \<Rightarrow> ctx \<Rightarrow> fs \<Rightarrow> net_world \<Rightarrow> startup outcome" where
  "server_main up env ctx s net = (case NewConfig env of
       Inl err \<Rightarrow> Done (Exit 1)
     | Inr cfg \<Rightarrow>
         outcome_bind (NewInitializer (Some cfg) s net) (\<lambda>(res, s1, net1). case res of
           Inl err \<Rightarrow> Done (Exit 1)
         | Inr (ini, wal) \<Rightarrow> Done (Running ini wal s1 net1 (StartDatabase up ini ctx))))"

lemma CreateWal_returns: "cfg_Wal cfg = Some w \<Longrightarrow> \<exists>res s'. CreateWal (Some log) cfg s = Done (res, s')"
  by (simp add: CreateWal_def Let_def split: prod.splits sum.splits option.splits)



end
