(* ===== verification/Lifetime.thy ===== *)
theory Lifetime
  imports Process Initialization
begin

text \<open>
  The server over several processes: it is started on a log, serves connections in any interleaving, ends
  by itself or is killed in any state, and is started again on the files that are left.
\<close>

section \<open>What a running server leaves on the disk\<close>

text \<open>A batch that does not fit into a segment with another one.\<close>

definition outgrows :: "int64 \<Rightarrow> WriteRequest list \<Rightarrow> bool" where
  "outgrows mx b \<longleftrightarrow> mx < int (length (batch_stream (map wr_log b))) \<and> int (length (batch_stream (map wr_log b))) < 2 ^ 62"

definition from_handler :: "WriteRequest \<Rightarrow> bool" where
  "from_handler r \<longleftrightarrow> (\<exists>w txID. wr_log r = write_log w (sint (txID :: 64 word)))"

text \<open>The log on the disk stands for the records in their serial order, applied or not.\<close>

definition restart_inv :: "nat \<Rightarrow> Segment \<Rightarrow> (string \<Rightarrow> string option) \<Rightarrow> rt \<Rightarrow> bool" where
  "restart_inv k seg0 m0 st \<longleftrightarrow> no_faults (rt_fs st) \<and> same_log seg0 (wal_segment (rt_wal st)) \<and>
     log_agrees (k - length (rt_written st)) (wal_segment (rt_wal st)) (rt_fs st) (replay (map wr_log (serial st)) m0)"

lemma restart_inv_same:
  "restart_inv k seg0 m0 st \<Longrightarrow> wal_segment (rt_wal st') = wal_segment (rt_wal st) \<Longrightarrow> rt_fs st' = rt_fs st \<Longrightarrow>
   rt_written st' = rt_written st \<Longrightarrow> restart_inv k seg0 m0 st'"
  by (simp add: restart_inv_def serial_def)

lemma encode_all_small: "encode_all ls enc = (None, enc') \<Longrightarrow> list_all (\<lambda>l. length (log_message l) < tooBig) ls"
  by (induction ls arbitrary: enc) (auto simp: EncodeTo_def Let_def split: prod.splits option.splits if_splits)

lemma written_flushable:
  assumes "encode_all (map wr_log b) (NewEncoder []) = (None, enc)" "b \<noteq> []" "outgrows mx b" "\<forall>r\<in>set b. from_handler r"
  shows "flushable mx b"
proof -
  have "wf_log (wr_log r) \<and> applicable (wr_log r)" if "r \<in> set b" for r
  proof -
    obtain w and txID :: "64 word" where "wr_log r = write_log w (sint txID)" using assms(4) \<open>r \<in> set b\<close> by (auto simp: from_handler_def)
    moreover have "length (log_message (wr_log r)) < tooBig" using encode_all_small [OF assms(1)] \<open>r \<in> set b\<close> by (simp add: list_all_iff)
    ultimately show ?thesis
      by (cases w) (simp_all add: wf_log_def applicable_def command_consts int64_range_def [of 1] int64_range_def [of 2] tooBig_def)
  qed
  with assms(2,3) show ?thesis by (simp add: flushable_def outgrows_def list_all_iff)
qed

lemma begin_flush_restart:
  assumes inv: "restart_inv k seg0 m0 st" and seg: "wal_segment wal1 = wal_segment (rt_wal st)" and b: "\<forall>r\<in>set b. from_handler r"
    and w: "length (rt_written (begin_flush b after (st\<lparr>rt_wal := wal1\<rparr>))) < k"
      "list_all (outgrows (seg_maxSegmentSize seg0)) (rt_written (begin_flush b after (st\<lparr>rt_wal := wal1\<rparr>)))"
  shows "restart_inv k seg0 m0 (begin_flush b after (st\<lparr>rt_wal := wal1\<rparr>))" (is "restart_inv k seg0 m0 ?st")
proof (cases "\<exists>enc. b \<noteq> [] \<and> encode_all (map wr_log b) (NewEncoder []) = (None, enc)")
  case False
  then show ?thesis
    using inv seg by (intro restart_inv_same [OF inv]) (auto simp: begin_flush_def split: prod.splits option.splits)
next
  case True
  then obtain enc where enc: "b \<noteq> []" "encode_all (map wr_log b) (NewEncoder []) = (None, enc)" by blast
  note buf = encode_all_buf [OF enc(2)]
  let ?s = "rt_fs st" and ?seg = "wal_segment (rt_wal st)" and ?n = "length (rt_written st)"
  have st: "no_faults ?s" "same_log seg0 ?seg" "log_agrees (k - ?n) ?seg ?s (replay (map wr_log (serial st)) m0)"
    using inv by (simp_all add: restart_inv_def)
  have "?n \<le> length (rt_written ?st)" by (auto simp: begin_flush_def split: prod.splits option.splits)
  then obtain j where j: "k - ?n = Suc j" using w(1) by (metis Suc_diff_Suc le_less_trans)
  have "\<exists>seg' s'. Segment_Write (batch_stream (map wr_log b)) ?seg ?s = (None, seg', s')"
    using st(3) Segment_Write_ok [OF st(1)] unfolding log_agrees_def j by blast
  then obtain seg' s' where sw: "Segment_Write (batch_stream (map wr_log b)) ?seg ?s = (None, seg', s')" by blast
  have s2: "rt_written ?st = rt_written st @ [b]" "rt_fs ?st = s'" "wal_segment (rt_wal ?st) = seg'"
    using enc sw seg buf by (simp_all add: begin_flush_def)
  then have "flushable (seg_maxSegmentSize ?seg) b"
    using written_flushable [OF enc(2,1) _ b] w(2) st(2) by (simp add: same_log_def)
  from write_agrees [OF st(3) [unfolded j] sw this]
  have "log_agrees j seg' s' (replay (map wr_log (serial ?st)) m0)" "same_log ?seg seg'"
    by (simp_all add: serial_def s2(1) map_sort_key)
  moreover have "j = k - length (rt_written ?st)" using j by (simp add: s2(1))
  moreover have "no_faults s'" by (rule Segment_Write_None [OF sw]) (auto simp: wrote_def intro: no_faults_env [OF st(1)])
  ultimately show ?thesis using same_log_trans [OF st(2)] by (simp add: restart_inv_def s2(2,3))
qed

lemma client_step_segment: "client_step st st' \<Longrightarrow> wal_segment (rt_wal st') = wal_segment (rt_wal st)"
  by (erule client_step.cases)
    (auto simp: set_client_def push_locked_simp push_send_def Let_def split: if_splits)

lemma flusher_step_restart:
  assumes "flusher_step st st'" "restart_inv k seg0 m0 st" "\<forall>r\<in>set (places st). from_handler r"
    and "length (rt_written st') < k" "list_all (outgrows (seg_maxSegmentSize seg0)) (rt_written st')"
  shows "restart_inv k seg0 m0 st'"
proof -
  have p: "\<forall>r\<in>set (wal_batch (rt_wal st)) \<union> set (concat (wal_batches (rt_wal st))). from_handler r"
    using assms(3) by (auto simp: places_def parked_def)
  from assms(1) show ?thesis
    using assms(2,4,5) p
    by cases (auto simp: SealBatch_def intro!: begin_flush_restart, auto simp: apply_one_def elim: restart_inv_same)
qed

text \<open>Every request on its way to the disk comes from a handler.\<close>

lemma places_from_handler:
  assumes "server_inv up m1 st"
  shows "\<forall>r\<in>set (places (sv_rt st)). from_handler r"
proof
  fix r assume "r \<in> set (places (sv_rt st))"
  then have "r \<in> set (inflight st)" using assms by (auto simp: server_inv_def issued_inv_def)
  then obtain c where "c \<in> set (rt_clients (sv_rt st))" "r \<in> set (client_reqs c)" by (auto simp: inflight_def)
  then obtain i where i: "i < length (rt_clients (sv_rt st))" "r \<in> set (client_reqs (rt_clients (sv_rt st) ! i))"
    by (metis in_set_conv_nth)
  have h: "handlers_inv up st" using assms by (simp add: server_inv_def)
  from i handlers_invD(1) [OF h, of i] handlers_invD(2) [OF h] show "from_handler r"
    by (cases "sv_handlers st ! i"; cases "rt_clients (sv_rt st) ! i") (auto simp: from_handler_def)
qed

lemma server_restart_inv:
  assumes "server_reachable db ctx st0 st" "server_inv up m1 st0" "wire_database up (Some log) = Inr db"
    and "restart_inv k seg0 m0 (sv_rt st0)" "length (rt_written (sv_rt st)) < k"
    and "list_all (outgrows (seg_maxSegmentSize seg0)) (rt_written (sv_rt st))"
  shows "restart_inv k seg0 m0 (sv_rt st)"
  using assms(1,5,6)
proof induction
  case sv_refl
  show ?case by (rule assms(4))
next
  case (sv_trans st st')
  have inv: "server_inv up m1 st" using server_reachable_grows [OF sv_trans(1) assms(2,3)] by simp
  then have h: "handlers_inv up st" by (simp add: server_inv_def)
  from server_step_rt [OF sv_trans(2) h] consider "sv_rt st' = sv_rt st" | "rt_step (sv_rt st) (sv_rt st')" by blast
  then show ?case
  proof cases
    case 1
    with sv_trans show ?thesis by simp
  next
    case 2
    with rt_step_written_grows sv_trans(4,5) have "length (rt_written (sv_rt st)) < k"
      "list_all (outgrows (seg_maxSegmentSize seg0)) (rt_written (sv_rt st))" by (fastforce simp: prefix_def)+
    with sv_trans(3) have old: "restart_inv k seg0 m0 (sv_rt st)" by blast
    from 2 show ?thesis
    proof cases
      case by_client
      from restart_inv_same [OF old client_step_segment [OF this]] client_step_frame [OF this] show ?thesis by simp
    next
      case by_flusher
      from flusher_step_restart [OF this old places_from_handler [OF inv]] sv_trans(4,5) show ?thesis by blast
    next
      case cancel
      with old show ?thesis by (simp add: restart_inv_same)
    qed
  qed
qed

section \<open>One process after the other\<close>

text \<open>
  A history: the first start on \<open>s0\<close>, then any number of processes, each left in any state it can reach, be
  it the end of \<^verbatim>\<open>main\<close> or in the middle of everything, followed by a restart on the files that survive.
  \<open>wal0\<close> is the WAL before recovery, which every start builds alike.
\<close>

inductive process_life ::
    "wcall list engine_state Database \<Rightarrow> ctx \<Rightarrow> HashTable Wal \<Rightarrow> fs \<Rightarrow> HashTable Wal \<Rightarrow> fs \<Rightarrow> WriteRequest list list \<Rightarrow> bool"
    for db ctx wal0 s0 where
  first: "Recovery wal0 s0 = (None, wal, s) \<Longrightarrow> process_life db ctx wal0 s0 wal s []"
| again: "process_life db ctx wal0 s0 wal s written \<Longrightarrow> process_reachable db ctx (process_start n now wal s) p \<Longrightarrow>
    Recovery wal0 (reboot keep (rt_fs (sv_rt (pr_server p)))) = (None, wal', s') \<Longrightarrow>
    process_life db ctx wal0 s0 wal' s' (written @ rt_written (sv_rt (pr_server p)))"

definition history :: "WriteRequest list list \<Rightarrow> string \<Rightarrow> string option" where
  "history bs = replay (concat (map (\<lambda>b. sort_key LSN (map wr_log b)) bs)) (\<lambda>_. None)"

lemma history_serial: "replay (map wr_log (serial st)) (history bs) = history (bs @ rt_written st)"
  by (simp add: history_def serial_def map_concat map_sort_key [unfolded comp_def] comp_def)

text \<open>A started process: its WAL is idle, and log and table hold the history so far.\<close>

definition started :: "nat \<Rightarrow> Segment \<Rightarrow> HashTable Wal \<Rightarrow> fs \<Rightarrow> WriteRequest list list \<Rightarrow> bool" where
  "started k seg0 wal s bs \<longleftrightarrow> idle_wal wal \<and> synced_ok s \<and> no_faults s \<and> same_log seg0 (wal_segment wal) \<and>
     ht_data (wal_table wal) = history bs \<and> log_agrees (k - length bs) (wal_segment wal) s (history bs)"

lemma synced_ok_reboot: "synced_ok (reboot keep s)"
  by (auto simp: synced_ok_def reboot_facts(5) crash_fdata_def Let_def)

lemma started_run:
  assumes "started k seg0 wal s bs" "wire_database up (Some log) = Inr db" "process_reachable db ctx (process_start n now wal s) p"
    and "length (bs @ rt_written (sv_rt (pr_server p))) < k"
    and "list_all (outgrows (seg_maxSegmentSize seg0)) (rt_written (sv_rt (pr_server p)))"
  shows "restart_inv (k - length bs) seg0 (history bs) (sv_rt (pr_server p))"
proof -
  have run: "server_reachable db ctx (server_start n wal s) (pr_server p)"
    using process_server [OF assms(3)] by (simp add: process_start_def)
  have "server_inv up (ht_data (wal_table wal)) (server_start n wal s)"
    using assms(1) by (intro server_inv_start) (simp_all add: started_def)
  moreover have "restart_inv (k - length bs) seg0 (history bs) (sv_rt (server_start n wal s))"
    using assms(1) by (simp add: restart_inv_def started_def server_start_def rt_start_def serial_def)
  ultimately show ?thesis using assms(4,5) by (intro server_restart_inv [OF run _ assms(2)]) simp_all
qed

lemma restart_started:
  assumes "restart_inv (k - length bs) (wal_segment wal0) (history bs) st" "idle_wal wal0" "ht_data (wal_table wal0) = (\<lambda>_. None)"
  obtains wal' s' where "Recovery wal0 (reboot keep (rt_fs st)) = (None, wal', s')" "started k (wal_segment wal0) wal' s' (bs @ rt_written st)"
proof -
  let ?m = "history (bs @ rt_written st)"
  have cmd: "wal_commandHashTable wal0 = hash_commands" using assms(2) by (simp add: idle_wal_def)
  have a: "log_agrees (k - length bs - length (rt_written st)) (wal_segment (rt_wal st)) (rt_fs st) ?m"
    "same_log (wal_segment wal0) (wal_segment (rt_wal st))"
    using assms(1) by (simp_all add: restart_inv_def history_serial)
  obtain wal' s' where r: "Recovery wal0 (reboot keep (rt_fs st)) = (None, wal', s')"
    "log_agrees (k - length bs - length (rt_written st)) (wal_segment wal') s' ?m" "ht_data (wal_table wal') = ?m"
    "same_log (wal_segment wal0) (wal_segment wal')" "no_faults s'"
    by (rule restart_agrees [OF a cmd assms(3)])
  have "synced_ok s'" "idle_wal wal'"
    using Recovery_frame [OF r(1)] assms(2) synced_ok_reboot by (auto simp: files_kept_def idle_wal_def)
  with r show thesis by (intro that [OF r(1)]) (simp add: started_def)
qed

lemma process_life_started:
  assumes "process_life db ctx wal0 s0 wal s bs" "wire_database up (Some log) = Inr db"
    and "new_wal cfg dir = Inr wal0" "0 < MaxSegmentSize cfg" "no_faults s0" "synced_ok s0" "dir_of (wal_segment wal0) [] s0"
    and "clock_ahead [] (Suc k) s0" "length bs < k" "list_all (outgrows (MaxSegmentSize cfg)) bs"
  shows "started k (wal_segment wal0) wal s bs"
  using assms(1,9,10)
proof induction
  note w = new_wal_facts [OF assms(3)]
  have idle: "idle_wal wal0" using assms(3) by (auto simp: new_wal_def NewWal_def idle_wal_def)
  case (first wal s)
  obtain wal1 s1 where 1: "Recovery wal0 s0 = (None, wal1, s1)" "consistent k wal1 s1" "no_faults s1" "same_log (wal_segment wal0) (wal_segment wal1)"
    "ht_data (wal_table wal1) = (\<lambda>_. None)" by (rule start_consistent [OF assms(3,5,7,8,4)])
  with first have eq: "wal1 = wal" "s1 = s" by simp_all
  have "idle_wal wal" "synced_ok s"
    using Recovery_frame [OF first(1)] idle assms(6) by (auto simp: files_kept_def idle_wal_def)
  with 1 show ?case by (simp add: eq started_def history_def consistent_def)
next
  note w = new_wal_facts [OF assms(3)]
  have idle: "idle_wal wal0" using assms(3) by (auto simp: new_wal_def NewWal_def idle_wal_def)
  case (again wal s bs n now p keep wal' s')
  then have st: "started k (wal_segment wal0) wal s bs" by simp
  have "restart_inv (k - length bs) (wal_segment wal0) (history bs) (sv_rt (pr_server p))"
    using again(5,6) by (intro started_run [OF st assms(2) again(2)]) (simp_all add: w(4))
  from restart_started [OF this idle w(2), of keep] again(3) show ?case by (metis prod.inject)
qed


text \<open>A first process on an empty directory, whose WAL seals every record.\<close>

lemma life_started:
  obtains cfg wal0 wal s where "new_wal cfg ''/w'' = Inr wal0" "MaxSegmentSize cfg = 1" "dir_of (wal_segment wal0) [] demo_fs"
    "Recovery wal0 demo_fs = (None, wal, s)" "eager_wal wal" "no_faults s" "log_agrees 2 (wal_segment wal) s (\<lambda>_. None)"
    "ht_data (wal_table wal) = (\<lambda>_. None)"
proof -
  let ?cfg = "demo_cfg\<lparr>MaxSegmentSize := 1, FlushingBatchCount := 1\<rparr>"
  obtain wal0 where w0: "new_wal ?cfg ''/w'' = Inr wal0" by (simp add: new_wal_def NewWal_def)
  then have eager: "eager_wal wal0" by (auto simp: new_wal_def NewWal_def eager_wal_def idle_wal_def demo_cfg_def)
  have dir: "dir_of (wal_segment wal0) [] demo_fs" by (rule demo_dir(3) [OF w0]) (simp add: demo_cfg_def)
  have ahead: "clock_ahead [] (Suc 2) demo_fs" using demo_dir(2) by (simp add: numeral_3_eq_3 numeral_2_eq_2)
  obtain wal s where r: "Recovery wal0 demo_fs = (None, wal, s)" "consistent 2 wal s" "no_faults s" "ht_data (wal_table wal) = (\<lambda>_. None)"
    by (rule start_consistent [OF w0 demo_dir(1) dir ahead]) simp_all
  have "wal_walConfig wal = wal_walConfig wal0"
    using r(1) by (auto simp: Recovery_def reader_defs Let_def split: sum.splits prod.splits option.splits)
  with eager Recovery_frame [OF r(1)] have "eager_wal wal" by (simp add: eager_wal_def idle_wal_def)
  moreover have "log_agrees 2 (wal_segment wal) s (\<lambda>_. None)" using r(2,4) by (simp add: consistent_def)
  ultimately show thesis using r(3,4) by (intro that [OF w0 _ dir r(1)]) simp_all
qed


end
