(* ===== verification/Wal_Failures.thy ===== *)
theory Wal_Failures
  imports Wal_Recovery
begin

text \<open>
  What a failed flush leaves behind: the caller gets an error and the table is unchanged, but the bytes
  that reached the file stay in it. A torn write makes the next recovery fail; a write whose sync failed
  comes back with the next start.
\<close>

section \<open>A flush into an empty active segment that fails\<close>

abbreviation active_path :: "Segment \<Rightarrow> nat list \<Rightarrow> fs \<Rightarrow> path" where
  "active_path seg ts s \<equiv> path_key s (seg_path seg (last ts))"

text \<open>Bytes in the active file that are not synced; every other file is as before.\<close>

definition left_behind :: "Segment \<Rightarrow> nat list \<Rightarrow> bytes \<Rightarrow> fs \<Rightarrow> fs \<Rightarrow> bool" where
  "left_behind seg ts data s s' \<longleftrightarrow> same_env s s' \<and>
     fs_files s' = alist_set (active_path seg ts s) \<lparr>fd_bytes = data, fd_synced = 0\<rparr> (fs_files s)"

lemma failed_write:
  assumes "log_state seg ts lss s" "last lss = []"
  shows "fs_fault s (fs_calls s) = ShortWrite n e \<Longrightarrow>
      \<exists>s'. Segment_Write data seg s = (Some Filesystem_ErrFailedSaveFile, seg, s') \<and> left_behind seg ts (take n data) s s'"
    and "fs_fault s (fs_calls s) = NoFault \<Longrightarrow> fs_fault s (Suc (fs_calls s)) = Fails e \<Longrightarrow>
      \<exists>s'. Segment_Write data seg s = (Some Filesystem_ErrFailedSaveFile, seg, s') \<and> left_behind seg ts data s s'"
proof -
  obtain f where f: "seg_file seg = Some f" "of_open f" "of_path f = active_path seg ts s" using assms(1) by (auto simp: log_state_def)
  have "lss \<noteq> []" "ts \<noteq> []" using assms(1) by (auto simp: log_state_def)
  then have "fs_lookup s (active_path seg ts s) = Some (full_file [])"
    using assms by (auto simp: log_state_def list_all2_conv_all_nth last_conv_nth)
  then have empty: "map_of (fs_files s) (of_path f) = Some \<lparr>fd_bytes = [], fd_synced = 0\<rparr>" by (simp add: full_file_def fs_lookup_def f(3))
  have "\<not> must_rotate seg data" using assms by (simp add: must_rotate_def log_state_def)
  then have w: "Segment_Write data seg s = write_data data seg s" by (simp add: Segment_Write_def write_open_def f(1))
  show "\<exists>s'. Segment_Write data seg s = (Some Filesystem_ErrFailedSaveFile, seg, s') \<and> left_behind seg ts (take n data) s s'"
    if "fs_fault s (fs_calls s) = ShortWrite n e"
    using that f empty by (simp add: w write_data_def WriteFile_def os_defs left_behind_def same_env_def)
  show "\<exists>s'. Segment_Write data seg s = (Some Filesystem_ErrFailedSaveFile, seg, s') \<and> left_behind seg ts data s s'"
    if "fs_fault s (fs_calls s) = NoFault" "fs_fault s (Suc (fs_calls s)) = Fails e"
    using that f empty by (simp add: w write_data_def WriteFile_def os_defs left_behind_def same_env_def)
qed

lemma failed_flush:
  assumes "Segment_Write (batch_stream (map wr_log b)) (wal_segment wal) s = (Some err, seg', s')"
    and "pending b h" "b \<noteq> []" "list_all (\<lambda>r. wf_log (wr_log r)) b"
  shows "flushBatch b wal s h = Done (Some err, wal\<lparr>wal_segment := seg'\<rparr>, s', resolve_all (Some err) b h)"
proof -
  have "list_all wf_log (map wr_log b)" using assms(4) by (simp add: list_all_iff)
  from encode_all_NewEncoder [OF this] notification_pending [OF assms(2), of "Some err"] assms(1,3) show ?thesis
    by (simp add: flushBatch_def WalWriter_Write_def segment_writer_def)
qed

section \<open>The next start\<close>

lemma left_behind_reboot:
  assumes "log_state seg ts lss s" "left_behind seg ts data s s'" "length data \<le> keep (active_path seg ts s)"
  shows "dir_of seg ts (reboot keep s')"
    "fs_lookup (reboot keep s') (path_key (reboot keep s') (seg_path seg (last ts))) = Some \<lparr>fd_bytes = data, fd_synced = length data\<rparr>"
    "list_all2 (\<lambda>t ls. segment_holds (reboot keep s') (seg_path seg t) ls) (butlast ts) (butlast lss)"
proof -
  have env: "same_env s s'" and files: "fs_files s' = alist_set (active_path seg ts s) \<lparr>fd_bytes = data, fd_synced = 0\<rparr> (fs_files s)"
    using assms(2) by (simp_all add: left_behind_def)
  note key = path_key_env [OF env] and look = alist_set_lookup [OF files]
  have st: "dir_of seg ts s" "ts \<noteq> []" "list_all2 (\<lambda>t ls. fs_lookup s (path_key s (seg_path seg t)) = Some (full_file ls)) ts lss"
    "list_all (list_all (\<lambda>l. wf_log l \<and> applicable l)) lss" using assms(1) by (simp_all add: log_state_def)
  obtain us u where ts: "ts = us @ [u]" using st(2) by (metis rev_exhaust)
  then obtain kss ks where lss: "lss = kss @ [ks]" "list_all2 (\<lambda>t ls. fs_lookup s (path_key s (seg_path seg t)) = Some (full_file ls)) us kss"
    and u: "fs_lookup s (path_key s (seg_path seg u)) = Some (full_file ks)"
    using st(3) by (auto simp: list_all2_append1 list_all2_Cons1)
  have "active_path seg ts s \<in> fst ` set (fs_files s)"
    using u ts by (simp add: fs_lookup_def) (metis map_of_SomeD fst_conv image_eqI)
  then have "dir_of seg ts s'" using st(1) env files by (simp add: dir_of_def key same_env_def alist_set_map_fst)
  then show "dir_of seg ts (reboot keep s')" by (simp add: dir_of_reboot)
  show "fs_lookup (reboot keep s') (path_key (reboot keep s') (seg_path seg (last ts))) = Some \<lparr>fd_bytes = data, fd_synced = length data\<rparr>"
    using assms(3) by (simp add: reboot_facts(2,5) key look crash_fdata_def)
  have seg: "IsAbs (seg_directory seg)" "plain_mask (seg_maskName seg)" "sorted_wrt (<) ts"
    using st(1) by (simp_all add: dir_of_def Let_def)
  have other: "path_key s (seg_path seg t) \<noteq> active_path seg ts s" if "t \<in> set us" for t
    using that seg by (auto simp: seg_path_key ts sorted_wrt_append)
  have holds: "segment_holds (reboot keep s') (seg_path seg t) ls"
    if "t \<in> set us" "ls \<in> set kss" "fs_lookup s (path_key s (seg_path seg t)) = Some (full_file ls)" for t ls
    using that st(4) other [OF that(1)] lss(1)
    by (simp add: segment_holds_def reboot_facts(2,5) key look list_all_iff) (simp add: full_file_def)
  have "list_all2 (\<lambda>t ls. segment_holds (reboot keep s') (seg_path seg t) ls) us kss"
    by (rule list.rel_mono_strong [OF lss(2)]) (rule holds)
  then show "list_all2 (\<lambda>t ls. segment_holds (reboot keep s') (seg_path seg t) ls) (butlast ts) (butlast lss)"
    by (simp add: ts lss(1))
qed

lemma same_directory:
  assumes "seg_directory seg = seg_directory seg'" "seg_maskName seg = seg_maskName seg'"
  shows "dir_of seg = dir_of seg'" "seg_path seg = seg_path seg'"
  using assms by (simp_all add: dir_of_def seg_path_def fun_eq_iff)

lemma log_state_split:
  assumes "log_state seg ts lss s"
  shows "ts = butlast ts @ [last ts]" "lss = butlast lss @ [last lss]"
proof -
  have "ts \<noteq> []" "lss \<noteq> []" using assms by (auto simp: log_state_def)
  then show "ts = butlast ts @ [last ts]" "lss = butlast lss @ [last lss]" by simp_all
qed


text \<open>A segment of the demonstration directory, fresh after the first start.\<close>

lemma demo_fresh:
  obtains wal0 wal1 s1 ts where "new_wal demo_cfg ''/w'' = Inr wal0" "Recovery wal0 demo_fs = (None, wal1, s1)"
    "log_state (wal_segment wal1) ts [[]] s1" "wal_commandHashTable wal0 = hash_commands"
    "seg_directory (wal_segment wal0) = seg_directory (wal_segment wal1)" "seg_maskName (wal_segment wal0) = seg_maskName (wal_segment wal1)"
proof -
  obtain wal0 where w0: "new_wal demo_cfg ''/w'' = Inr wal0" by (simp add: new_wal_def NewWal_def)
  have dir: "dir_of (wal_segment wal0) [] demo_fs" by (rule demo_dir(3) [OF w0]) (simp add: demo_cfg_def)
  have ahead: "clock_ahead [] (Suc 0) demo_fs" by (simp add: demo_fs_def clock_ahead_def clock_19_def)
  show thesis
    by (rule start_consistent [OF w0 demo_dir(1) dir ahead])
      (use w0 new_wal_facts(1) [OF w0] in \<open>auto simp: demo_cfg_def same_log_def intro: that\<close>)
qed

lemma log_state_fault: "log_state seg ts lss (s\<lparr>fs_fault := f\<rparr>) = log_state seg ts lss s"
proof -
  have "path_key (s\<lparr>fs_fault := f\<rparr>) = path_key s" "fs_lookup (s\<lparr>fs_fault := f\<rparr>) = fs_lookup s"
    by (simp_all add: fun_eq_iff path_key_def fs_lookup_def)
  then show ?thesis by (simp add: log_state_def dir_of_def)
qed




end
