(* ===== verification/Go_Errors.thy ===== *)
theory Go_Errors
  imports Go_Prelude
begin

text \<open>
  The sentinel errors of the packages, with their texts, in the order of the source: one table per
  \<^verbatim>\<open>var\<close> block. \<^verbatim>\<open>errors.New\<close> makes a new value at each call, so two sentinels are different errors even where
  their texts agree; the constructors of \<open>go_error\<close> stand for these values.
\<close>

type_synonym error_table = "(go_error \<times> string) list"

definition compute_errors :: error_table where
  "compute_errors =
     [(Compute_ErrInvalidCommand, ''invalid syntax of command''),
      (Compute_ErrInvalidArgument, ''invalid syntax of argument''),
      (Compute_ErrEmptyCommand, ''empty command'')]"

definition storage_errors :: error_table where
  "storage_errors =
     [(Storage_ErrInvalidLogger, ''storage.NewStorage: logger is invalid''),
      (Storage_ErrKeyNotFound, ''key not found'')]"

definition inmemory_errors :: error_table where
  "inmemory_errors = [(InMemory_ErrInvalidLogger, ''invalid logger'')]"

definition engine_errors :: error_table where
  "engine_errors =
     [(InMemory_ErrFailedGenerateLSN, ''failed to generate LSN''),
      (InMemory_ErrCreateWal, ''failed create wal'')]"

definition wal_errors :: error_table where
  "wal_errors =
     [(Wal_ErrFailedToReadDirectory, ''failed to read directory''),
      (Wal_ErrFailedOpenLastSegment, ''failed to open last segment''),
      (Wal_ErrInvalidLogger, ''invalid logger''),
      (Wal_ErrFailedDecode, ''failed decode wal log''),
      (Wal_ErrApplyRecord, ''failed apply wal record'')]"

definition directory_errors :: error_table where
  "directory_errors =
     [(Filesystem_ErrFailedResolveSegmentPath, ''failed resolve segment path''),
      (Filesystem_ErrInvalidWorkingFolder, ''invalid working folder''),
      (Filesystem_ErrFailedToCreateDirectory, ''failed to create directory'')]"

definition segment_errors :: error_table where
  "segment_errors =
     [(Filesystem_ErrFailedSaveFile, ''failed to save file''),
      (Filesystem_ErrFailedFileCreate, ''failed to create file'')]"

definition network_errors :: error_table where
  "network_errors =
     [(Network_ErrInvalidLogger, ''invalid logger''),
      (Network_ErrInvalidConfig, ''invalid config''),
      (Network_ErrInvalidMaxConn, ''max connections is equal zero''),
      (Network_ErrInvalidBufferSize, ''buffer size is equal zero'')]"

definition initialization_errors :: error_table where
  "initialization_errors = [(Initialization_ErrInvalidLogger, ''invalid logger'')]"

lemmas error_tables = compute_errors_def storage_errors_def inmemory_errors_def engine_errors_def wal_errors_def
  directory_errors_def segment_errors_def network_errors_def initialization_errors_def

definition sentinel_errors :: error_table where
  "sentinel_errors = compute_errors @ storage_errors @ inmemory_errors @ engine_errors @ wal_errors @ directory_errors @
     segment_errors @ network_errors @ initialization_errors"

text \<open>The method \<^verbatim>\<open>Error\<close>: the text of a sentinel, the message of \<^verbatim>\<open>fmt.Errorf\<close>; those of the runtime are not modelled.\<close>

fun Error :: "go_error \<Rightarrow> string option" where
  "Error (Errorf m w) = Some m"
| "Error e = map_of sentinel_errors e"

text \<open>Each sentinel is in one table only, and \<^verbatim>\<open>errors.Is\<close> takes it for itself alone.\<close>

lemma sentinel_errors_distinct: "distinct (map fst sentinel_errors)"
  by (simp add: sentinel_errors_def error_tables)

lemma sentinel_identity: "e \<in> fst ` set sentinel_errors \<Longrightarrow> errors_Is e e' \<longleftrightarrow> e = e'"
  by (auto simp: sentinel_errors_def error_tables)

text \<open>The text does not identify the error: four packages have an \<^verbatim>\<open>invalid logger\<close>.\<close>

lemma invalid_logger_texts:
  "map fst (filter (\<lambda>(e, m). m = ''invalid logger'') sentinel_errors) =
     [InMemory_ErrInvalidLogger, Wal_ErrInvalidLogger, Network_ErrInvalidLogger, Initialization_ErrInvalidLogger]"
  by (simp add: sentinel_errors_def error_tables)

end
