(* ===== verification/Startup_Errors.thy ===== *)
theory Startup_Errors
  imports Initialization Go_Errors
begin

text \<open>
  How a start can fail: the errors that each step of \<^verbatim>\<open>NewInitializer\<close> passes on, as the tables of the
  packages name them, and what a failed start leaves behind.
\<close>

abbreviation sentinels :: "error_table \<Rightarrow> go_error set" where
  "sentinels es \<equiv> fst ` set es"

text \<open>What opening the log can fail with: a sentinel of the WAL or the file system package, or the error of a system call.\<close>

definition log_errors :: "go_error set" where
  "log_errors = sentinels (wal_errors @ directory_errors @ segment_errors) -
     {Wal_ErrInvalidLogger, Filesystem_ErrInvalidWorkingFolder, Filesystem_ErrFailedSaveFile} \<union> range OsError"

lemma log_errors_iff:
  "e \<in> log_errors \<longleftrightarrow> e \<in> {Wal_ErrFailedToReadDirectory, Wal_ErrFailedOpenLastSegment, Wal_ErrFailedDecode, Wal_ErrApplyRecord,
     Filesystem_ErrFailedResolveSegmentPath, Filesystem_ErrFailedToCreateDirectory, Filesystem_ErrFailedFileCreate} \<union> range OsError"
  by (auto simp: log_errors_def error_tables)

lemma MakeDirectory_errors: "MakeDirectory d s = (Inl e, s') \<Longrightarrow> e \<in> log_errors"
  by (auto simp: MakeDirectory_def log_errors_iff split: prod.splits sum.splits option.splits)

lemma apply_all_errors: "apply_all cmd rs t = (Some e, t') \<Longrightarrow> e = Wal_ErrApplyRecord"
  by (induction rs arbitrary: t) (auto simp: Wal_apply_def split: prod.splits option.splits list.splits if_splits)

lemma recover_files_errors: "recover_files segment_reader cmd files t w = (Some e, t', w') \<Longrightarrow> e \<in> log_errors"
proof (induction files arbitrary: t w)
  case (Cons p ps)
  obtain seg s where w: "w = (seg, s)" by fastforce
  have read: "Segment_Read p s = (Inl e', s1) \<Longrightarrow> e' \<in> log_errors" for e' s1
    by (auto simp: log_errors_iff Segment_Read_def ReadFile_def os_defs Let_def split: prod.splits sum.splits option.splits if_splits)
  from Cons w show ?case
    by (auto simp: segment_reader_def log_errors_iff dest: read apply_all_errors split: prod.splits sum.splits option.splits)
qed simp

lemma recovery_file_errors: "recovery_file segment_reader files w = (Inl e, w') \<Longrightarrow> e \<in> log_errors"
  by (cases w) (auto simp: recovery_file_def segment_reader_def Segment_CreateFile_def log_errors_iff split: prod.splits sum.splits if_splits)

lemma Recovery_errors:
  assumes "Recovery wal s = (Some e, wal', s')"
  shows "e \<in> log_errors"
proof -
  have "wrd_segment (wal_walReader wal) = segment_reader" by (simp add: wal_walReader_def NewWalReader_def)
  moreover have "Wal_ErrFailedToReadDirectory \<in> log_errors" by (simp add: log_errors_iff)
  ultimately show ?thesis
    using assms by (auto simp: Recovery_def Let_def dest: recover_files_errors recovery_file_errors split: prod.splits sum.splits option.splits)
qed

lemma CreateWal_errors:
  assumes "CreateWal (Some log) cfg s = Done (Inl e, s')"
  shows "e \<in> log_errors \<and> files_kept s s'"
proof -
  obtain w where w: "cfg_Wal cfg = Some w" using assms by (auto simp: CreateWal_def split: option.splits)
  obtain res s1 where m: "MakeDirectory (SegmentStoragePath w) s = (res, s1)" by fastforce
  show ?thesis
  proof (cases res)
    case (Inl err)
    with assms w m MakeDirectory_errors MakeDirectory_kept show ?thesis by (auto simp: CreateWal_def)
  next
    case (Inr directory)
    let ?seg = "NewSegment (Some log) directory (MaskName w) (MaxSegmentSize w)"
    obtain wal where n: "NewWal (Some log) w ?seg hash_commands NewHashTable = Inr wal" by (simp add: NewWal_def)
    obtain eo wal1 s2 where r: "Recovery wal s1 = (eo, wal1, s2)" by (metis surj_pair)
    have "eo = Some e" "s' = s2" using assms w m Inr n r by (auto simp: CreateWal_def split: option.splits)
    with Recovery_errors r Recovery_frame [OF r] files_kept_trans [OF MakeDirectory_kept [OF m]] show ?thesis by blast
  qed
qed

lemma CreateTCPNetwork_errors:
  assumes "CreateTCPNetwork (Some log) cfg net = (Inl e, net')"
  shows "net' = net \<and> (e = Network_ErrInvalidConfig \<or> (\<exists>address. nw_listen net address = Some e))"
  using assms
  by (auto simp: CreateTCPNetwork_def NewTCPServer_def server_option_defs Let_def defaultMaxConnections_def defaultBufferSize_def
      split: option.splits if_splits)

text \<open>
  C34. A start that fails says why, and leaves nothing behind: the error of \<^verbatim>\<open>NewInitializer\<close> is one of the
  seven sentinels that opening the log can answer or the bare error of a system call, or the missing
  network section, or the error with which the listener refuses an address. It is never one of the
  \<^verbatim>\<open>invalid logger\<close> errors or an invalid limit, which the defaults rule out. No existing file has been
  changed, and no listener is left open.
\<close>

theorem startup_errors:
  assumes "NewInitializer (Some cfg) s net = Done (Inl e, s', net')"
  shows "(e \<in> log_errors \<or> e = Network_ErrInvalidConfig \<or> (\<exists>address. nw_listen net address = Some e)) \<and>
    files_kept s s' \<and> net' = net"
proof -
  obtain log where "CreateLogger cfg = Done (Inr log)"
    using assms by (auto simp: NewInitializer_def CreateLogger_def split: option.splits)
  with assms obtain res s1 where w: "CreateWal (Some log) cfg s = Done (res, s1)"
    and rest: "case res of Inl err \<Rightarrow> err = e \<and> s1 = s' \<and> net' = net
      | Inr wal \<Rightarrow> s1 = s' \<and> CreateTCPNetwork (Some log) (Network cfg) net = (Inl e, net')"
    by (auto simp: NewInitializer_def CreateEngine_def NewEngine_def elim!: outcome_bind_DoneE split: sum.splits prod.splits)
  show ?thesis
  proof (cases res)
    case (Inl err)
    with rest CreateWal_errors [of log cfg s e s'] w show ?thesis by simp
  next
    case (Inr wal)
    with rest w have "CreateWal (Some log) cfg s = Done (Inr wal, s')" "CreateTCPNetwork (Some log) (Network cfg) net = (Inl e, net')" by simp_all
    from CreateWal_ok [OF this(1)] CreateTCPNetwork_errors [OF this(2)] show ?thesis by blast
  qed
qed

theorem startup_errors_witness:
  "\<exists>cfg s' net'. NewInitializer (Some cfg) (demo_fs\<lparr>fs_fault := (\<lambda>_. Fails ENOENT)\<rparr>) demo_net =
      Done (Inl Filesystem_ErrFailedToCreateDirectory, s', net') \<and>
    files_kept (demo_fs\<lparr>fs_fault := (\<lambda>_. Fails ENOENT)\<rparr>) s' \<and> net' = demo_net"
proof -
  let ?s = "demo_fs\<lparr>fs_fault := (\<lambda>_. Fails ENOENT)\<rparr>"
  have "\<exists>s' net'. NewInitializer (Some demo_config) ?s demo_net = Done (Inl Filesystem_ErrFailedToCreateDirectory, s', net')"
    by (simp add: NewInitializer_def CreateLogger_def CreateWal_def demo_config_def base_config_def demo_cfg_def MakeDirectory_def
        resolveWalPath_def IsAbs_def os_defs demo_fs_def)
  then show ?thesis using startup_errors by blast
qed

end
