(* ===== verification/Cli.thy ===== *)
theory Cli
  imports Network Config Go_Files
begin

text \<open>
  Package \<^verbatim>\<open>internal/application_cli\<close>: the flags, the client, and the read-eval-print loop of the command
  line client. Standard input is the bytes that are still to be read; standard output is the list of
  what was printed.
\<close>

section \<open>Flags and logger\<close>

text \<open>A leading \<^verbatim>\<open>--\<close> is taken out of the arguments before the flags are parsed.\<close>

definition strip_dashes :: "string list \<Rightarrow> string list" where
  "strip_dashes args = (if 1 < length args \<and> args ! 1 = ''--'' then take 1 args @ drop 2 args else args)"

text \<open>What \<^verbatim>\<open>flag.Parse\<close> leaves in the four flags: the value given, or the default.\<close>

record cli_flags =
  fl_address :: string
  fl_idle :: int64
  fl_mes_size :: int64
  fl_debug :: bool

definition flag_defaults :: cli_flags where
  "flag_defaults = \<lparr>fl_address = ''127.0.0.1:3323'', fl_idle = Minute * 5, fl_mes_size = 4096, fl_debug = True\<rparr>"

text \<open>
  \<^verbatim>\<open>parseFlags\<close>, with the parser of package \<^verbatim>\<open>flag\<close> as a parameter: from the arguments and the defaults to
  the flags, or None when it ends the process.
\<close>

definition parseFlags ::
    "(string list \<Rightarrow> cli_flags \<Rightarrow> cli_flags option) \<Rightarrow> string list \<Rightarrow> (string \<times> int64 \<times> int64 \<times> string) option" where
  "parseFlags flag_Parse args = (case flag_Parse (strip_dashes args) flag_defaults of
       None \<Rightarrow> None
     | Some fl \<Rightarrow>
         (let env = (if fl_debug fl then ''dev'' else ''info'');
              address = (if fl_address fl = '''' then ''127.0.0.1:3323'' else fl_address fl);
              maxMessageSize = (if fl_mes_size fl \<le> 0 then 4096 else fl_mes_size fl)
          in Some (address, fl_idle fl, maxMessageSize, env)))"

definition Cli_CreateLogger :: "string \<Rightarrow> logger" where
  "Cli_CreateLogger env =
     (if env = ''info'' then PrettyLogger LevelInfo
      else if env = ''dev'' then PrettyLogger LevelDebug
      else if env = ''prod'' then DiscardLogger
      else PrettyLogger LevelInfo)"

text \<open>\<^verbatim>\<open>buildClient\<close>: on an error the process exits.\<close>

definition buildClient ::
    "(string \<Rightarrow> int64 option \<Rightarrow> net_conn result) \<Rightarrow> logger \<Rightarrow> string \<Rightarrow> int64 \<Rightarrow> int64 \<Rightarrow> TCPClient option" where
  "buildClient dial log address idleTimeout maxMessageSize =
     (case NewTCPClient dial (Some log)
        [WithClientTCPAddress address, WithClientTCPMaxMessageSize maxMessageSize, WithClientTCPIdleTimeout idleTimeout] of
        Inl err \<Rightarrow> None
      | Inr tcpClient \<Rightarrow> Some tcpClient)"

section \<open>The loop\<close>

abbreviation newline :: char where
  "newline \<equiv> CHR 0x0A"

text \<open>\<^verbatim>\<open>reader.ReadString\<close> up to the newline: the line with it, and the rest; an error at the end of the input.\<close>

fun ReadString :: "string \<Rightarrow> (string \<times> string) option" where
  "ReadString [] = None"
| "ReadString (c # cs) = (if c = newline then Some ([c], cs)
     else case ReadString cs of None \<Rightarrow> None | Some (line, rest) \<Rightarrow> Some (c # line, rest))"

lemma ReadString_shorter: "ReadString s = Some (line, rest) \<Longrightarrow> length rest < length s"
  by (induction s arbitrary: line) (auto split: if_splits option.splits)

text \<open>
  \<^verbatim>\<open>strings.EqualFold\<close> with \<^verbatim>\<open>exit\<close>: none of its letters has a case variant outside ASCII, so it compares
  the upper-case ASCII forms.
\<close>

definition is_exit :: "string \<Rightarrow> bool" where
  "is_exit request \<longleftrightarrow> map upper_ascii request = ''EXIT''"

definition prompt :: "string list" where
  "prompt = [newline # ''Input command (exit for exit)'' @ [newline], ''> '']"

function replLoop :: "string \<Rightarrow> TCPClient \<Rightarrow> string list \<Rightarrow> (string list \<times> TCPClient) outcome" where
  "replLoop stdin client out = (case ReadString stdin of
       None \<Rightarrow> Done (out @ prompt, client)
     | Some (line, rest) \<Rightarrow>
         (let request = TrimSpace line in
          if request = '''' then replLoop rest client (out @ prompt @ [''> ''])
          else if is_exit request then Done (out @ prompt, client)
          else case SendAndReceive request client of
              Blocks \<Rightarrow> Blocks
            | Panics m \<Rightarrow> Panics m
            | Done (Inl err, client') \<Rightarrow> replLoop rest client' (out @ prompt @ [''> ''])
            | Done (Inr response, client') \<Rightarrow> replLoop rest client' (out @ prompt @ [response @ [newline], ''> ''])))"
  by pat_completeness auto
termination by (relation "measure (\<lambda>(stdin, _, _). length stdin)") (auto dest: ReadString_shorter)

declare replLoop.simps [simp del]

text \<open>The type \<^verbatim>\<open>AppCli\<close> has no fields.\<close>

datatype AppCli = AppCli

definition NewAppCli :: AppCli where "NewAppCli = AppCli"

text \<open>\<^verbatim>\<open>Run\<close>: None when the process exits before the loop. The context only bounds the dial, which is a parameter.\<close>

definition Run ::
    "AppCli \<Rightarrow> (string list \<Rightarrow> cli_flags \<Rightarrow> cli_flags option) \<Rightarrow> (string \<Rightarrow> int64 option \<Rightarrow> net_conn result) \<Rightarrow>
     string list \<Rightarrow> string \<Rightarrow> (string list \<times> TCPClient) outcome option" where
  "Run appCli flag_Parse dial args stdin = (case parseFlags flag_Parse args of
       None \<Rightarrow> None
     | Some (address, idleTimeout, maxMessageSize, env) \<Rightarrow>
         (case buildClient dial (Cli_CreateLogger env) address idleTimeout maxMessageSize of
            None \<Rightarrow> None
          | Some tcpClient \<Rightarrow> Some (replLoop stdin tcpClient [])))"

text \<open>The command-line binary (cmd/cli/main.go).\<close>

definition cli_main ::
    "(string list \<Rightarrow> cli_flags \<Rightarrow> cli_flags option) \<Rightarrow> (string \<Rightarrow> int64 option \<Rightarrow> net_conn result) \<Rightarrow>
     string list \<Rightarrow> string \<Rightarrow> (string list \<times> TCPClient) outcome option" where
  "cli_main flag_Parse dial args stdin = (let appCli = NewAppCli in Run appCli flag_Parse dial args stdin)"

section \<open>What the loop sends\<close>

text \<open>
  The lines of an input: the complete ones, trimmed. Its commands: the lines without the empty ones, up to
  the first exit.
\<close>

definition input_lines :: "string \<Rightarrow> string list" where
  "input_lines stdin = map (\<lambda>line. TrimSpace (line @ [newline])) (butlast (split_on newline stdin))"

definition commands :: "string \<Rightarrow> string list" where
  "commands stdin = takeWhile (Not \<circ> is_exit) (filter (\<lambda>request. request \<noteq> '''') (input_lines stdin))"

lemma ReadString_None: "ReadString s = None \<Longrightarrow> split_on newline s = [s]"
  by (induction s) (auto split: if_splits option.splits)

lemma ReadString_Some: "ReadString s = Some (line, rest) \<Longrightarrow> \<exists>l. line = l @ [newline] \<and> split_on newline s = l # split_on newline rest"
proof (induction s arbitrary: line)
  case (Cons c cs)
  then show ?case by (cases "c = newline") (fastforce split: option.splits)+
qed simp

lemma commands_Some:
  assumes "ReadString s = Some (line, rest)"
  shows "commands s = (let request = TrimSpace line in
    if request = '''' then commands rest else if is_exit request then [] else request # commands rest)"
  using ReadString_Some [OF assms] by (auto simp: commands_def input_lines_def Let_def)

lemma commands_None: "ReadString s = None \<Longrightarrow> commands s = []"
  by (simp add: commands_def input_lines_def ReadString_None)

lemma SendAndReceive_sends:
  assumes "connected client c"
  obtains res client' c' where "SendAndReceive request client = Done (res, client')" "connected client' c'"
    "nc_out c' = nc_out c @ [request]"
proof -
  obtain c1 where c1: "conn_Write request (client_deadline client c) = (None, c1)" "nc_out c1 = nc_out c @ [request]"
    "nc_fault c1 = (\<lambda>_. None)"
    using assms by (auto simp: conn_Write_def conn_call_def connected_def frame_rules)
  obtain r c2 where c2: "conn_Read (nat (cli_maxMessageSize client)) (client_deadline client c1) = (r, c2)" by fastforce
  then have "nc_out c2 = nc_out c @ [request]" "nc_fault c2 = (\<lambda>_. None)"
    using c1 by (auto simp: conn_Read_def frame_rules split: if_splits list.splits net_event.splits)
  with c1(1) c2 assms show thesis
    by (cases r) (auto intro!: that simp: SendAndReceive_def connected_def)
qed

text \<open>
  C35. The command-line loop ends and sends exactly the commands of its input: over a connection on which
  no write fails, each complete non-empty line before the first \<^verbatim>\<open>exit\<close> (in any case) is sent once,
  trimmed and in order, also after answers that could not be read; a last line without a newline is not
  sent.
\<close>

theorem replLoop_sends_commands:
  assumes "connected client c"
  shows "\<exists>out' client' c'. replLoop stdin client out = Done (out', client') \<and> connected client' c' \<and>
    nc_out c' = nc_out c @ commands stdin"
  using assms
proof (induction "length stdin" arbitrary: stdin client c out rule: less_induct)
  case less
  show ?case
  proof (cases "ReadString stdin")
    case None
    with less.prems show ?thesis by (auto simp: replLoop.simps [of stdin] commands_None)
  next
    case (Some lr)
    obtain line rest where lr: "ReadString stdin = Some (line, rest)" using Some by (cases lr) auto
    note ih = less.hyps [OF ReadString_shorter [OF lr]]
    note step = replLoop.simps [of stdin] commands_Some [OF lr] lr
    show ?thesis
    proof (cases "TrimSpace line = '''' \<or> is_exit (TrimSpace line)")
      case True
      with less.prems ih [OF less.prems] show ?thesis by (auto simp: step Let_def)
    next
      case False
      obtain res client1 c1 where s: "SendAndReceive (TrimSpace line) client = Done (res, client1)" "connected client1 c1"
        "nc_out c1 = nc_out c @ [TrimSpace line]" by (rule SendAndReceive_sends [OF less.prems])
      with False ih [OF s(2)] show ?thesis by (cases res) (auto simp: step Let_def)
    qed
  qed
qed

theorem replLoop_sends_commands_witness:
  "\<exists>out' client' c'. replLoop (''SET a 1'' @ newline # ''EXIT'' @ newline # ''GET a'') (demo_client 4096 [Data ''OK'']) [] = Done (out', client') \<and>
    connected client' c' \<and> nc_out c' = nc_out (demo_conn [Data ''OK'']) @ commands (''SET a 1'' @ newline # ''EXIT'' @ newline # ''GET a'')"
  by (rule replLoop_sends_commands) (simp add: connected_def demo_client_def demo_conn_def)

section \<open>What the user sees\<close>

text \<open>
  The dialogue of a session: a prompt for every line, and after a command the trimmed answer, the first of
  the answers that are left.
\<close>

fun transcript :: "string list \<Rightarrow> bytes list \<Rightarrow> string list" where
  "transcript [] rs = prompt"
| "transcript (q # qs) rs =
     (if q = '''' then prompt @ [''> ''] @ transcript qs rs
      else if is_exit q then prompt
      else case rs of
          [] \<Rightarrow> prompt @ [''> ''] @ transcript qs []
        | r # rs' \<Rightarrow> prompt @ [TrimSpace r @ [newline], ''> ''] @ transcript qs rs')"

lemma input_lines_ReadString:
  "ReadString s = None \<Longrightarrow> input_lines s = []"
  "ReadString s = Some (line, rest) \<Longrightarrow> input_lines s = TrimSpace line # input_lines rest"
  using ReadString_None [of s] ReadString_Some [of s line rest] by (auto simp: input_lines_def)

lemma replLoop_transcript:
  assumes "connected client c" "nc_in c = map Data rs" "length rs = length (commands stdin)" "0 < cli_maxMessageSize client"
    and "\<forall>r \<in> set rs. length r \<le> nat (cli_maxMessageSize client)"
  shows "\<exists>client' c'. replLoop stdin client out = Done (out @ transcript (input_lines stdin) rs, client') \<and> connected client' c' \<and>
    nc_out c' = nc_out c @ commands stdin"
  using assms
proof (induction "length stdin" arbitrary: stdin client c out rs rule: less_induct)
  case less
  show ?case
  proof (cases "ReadString stdin")
    case None
    with less.prems show ?thesis by (auto simp: replLoop.simps [of stdin] commands_None input_lines_ReadString)
  next
    case (Some lr)
    obtain line rest where lr: "ReadString stdin = Some (line, rest)" using Some by (cases lr) auto
    note ih = less.hyps [OF ReadString_shorter [OF lr]]
    note step = replLoop.simps [of stdin] commands_Some [OF lr] input_lines_ReadString(2) [OF lr] lr
    show ?thesis
    proof (cases "TrimSpace line = '''' \<or> is_exit (TrimSpace line)")
      case True
      with less.prems ih [OF less.prems(1,2) _ less.prems(4,5), of "out @ prompt @ [''> '']"] show ?thesis by (auto simp: step Let_def)
    next
      case False
      with less.prems(3) obtain r rs' where rs: "rs = r # rs'" "length rs' = length (commands rest)"
        by (cases rs) (auto simp: step Let_def)
      from rs less.prems(2,5) have d: "nc_in c = Data r # map Data rs'" "length r \<le> nat (cli_maxMessageSize client)" by simp_all
      obtain client1 c1 where s: "SendAndReceive (TrimSpace line) client = Done (Inr (TrimSpace (take (nat (cli_maxMessageSize client)) r)), client1)"
        "connected client1 c1" "nc_out c1 = nc_out c @ [TrimSpace line]" "cli_maxMessageSize client1 = cli_maxMessageSize client"
        "nc_in c1 = (if length r \<le> nat (cli_maxMessageSize client) then map Data rs'
           else Data (drop (nat (cli_maxMessageSize client)) r) # map Data rs')"
        by (rule SendAndReceive_data [OF less.prems(1) d(1) less.prems(4)])
      with d(2) have "nc_in c1 = map Data rs'" by simp
      from ih [OF s(2) this rs(2), of "out @ prompt @ [TrimSpace r @ [newline], ''> '']"] s(1,3,4) False d(2) rs(1) less.prems(4,5)
      show ?thesis by (auto simp: step Let_def)
    qed
  qed
qed

end
