(* ===== verification/Session.thy ===== *)
theory Session
  imports Initialization Cli
begin

text \<open>
  A session: the command-line client (cmd/cli) talks to a started server (cmd/server) over a connection.
  The client waits for every answer before it sends the next command, so the pieces in which the data
  travels are whole commands and whole answers: what the server reads is what the client has written, and
  the other way round.
\<close>

lemma requests_of_short: "\<forall>q \<in> set qs. length q \<le> n \<Longrightarrow> requests_of n (map Data qs) = qs"
  by (induction qs) (simp_all add: chop_short)

text \<open>The client that \<^verbatim>\<open>Run\<close> builds on a connection that is there.\<close>

lemma buildClient_connected:
  assumes "parseFlags flag_Parse args = Some (address, idleTimeout, maxMessageSize, env)" "nc_fault c = (\<lambda>_. None)"
  obtains client where "buildClient (\<lambda>_ _. Inr c) log address idleTimeout maxMessageSize = Some client" "connected client c"
    "cli_maxMessageSize client = maxMessageSize" "0 < maxMessageSize"
proof -
  have "0 < maxMessageSize" using assms(1) by (auto simp: parseFlags_def Let_def split: option.splits if_splits)
  then show thesis using assms(2)
    by (intro that) (auto simp: buildClient_def NewTCPClient_def WithClientTCPAddress_def WithClientTCPMaxMessageSize_def
        WithClientTCPIdleTimeout_def connected_def Let_def)
qed

lemma cli_main_transcript:
  assumes "parseFlags flag_Parse args = Some (address, idleTimeout, maxMessageSize, env)"
    and "nc_fault c = (\<lambda>_. None)" "nc_in c = map Data rs" "length rs = length (commands stdin)"
    and "\<forall>r \<in> set rs. length r \<le> nat maxMessageSize"
  shows "\<exists>client c'. cli_main flag_Parse (\<lambda>_ _. Inr c) args stdin = Some (Done (transcript (input_lines stdin) rs, client)) \<and>
    cli_conn client = Some c' \<and> nc_out c' = nc_out c @ commands stdin"
proof -
  obtain client where b: "buildClient (\<lambda>_ _. Inr c) (Cli_CreateLogger env) address idleTimeout maxMessageSize = Some client"
    "connected client c" "cli_maxMessageSize client = maxMessageSize" "0 < maxMessageSize"
    by (rule buildClient_connected [OF assms(1,2)])
  have "\<exists>client' c'. replLoop stdin client [] = Done ([] @ transcript (input_lines stdin) rs, client') \<and> connected client' c' \<and>
      nc_out c' = nc_out c @ commands stdin"
    by (rule replLoop_transcript [OF b(2) assms(3,4)]) (use b(3,4) assms(5) in simp_all)
  with b(1) assms(1) show ?thesis by (auto simp: cli_main_def Run_def connected_def)
qed



end
