(* ===== verification/Log_Handlers.thy ===== *)
theory Log_Handlers
  imports Go_Prelude
begin

text \<open>
  The two \<^verbatim>\<open>slog\<close> handlers of the service: slogpretty, which renders a record for a terminal, and
  slogdiscard, which drops it. The colours (package \<^verbatim>\<open>color\<close>), the JSON encoder and the time format are
  functions of other packages and so arguments of the model.
\<close>

section \<open>slogpretty\<close>

text \<open>Attributes are keys with values of any type.\<close>

type_synonym 'v attr = "string \<times> 'v"

record ('v, 't) slog_record =
  rec_time :: 't
  rec_level :: slog_level
  rec_message :: string
  rec_attrs :: "'v attr list"

record ('v, 't) render_lib =
  color_String :: "string \<Rightarrow> string \<Rightarrow> string"
  json_MarshalIndent :: "(string \<Rightarrow> 'v option) \<Rightarrow> string result"
  time_Format :: "string \<Rightarrow> 't \<Rightarrow> string"

text \<open>The embedded JSON handler is its minimum level and its groups.\<close>

record 'v PrettyHandler =
  ph_level :: slog_level
  ph_groups :: "string list"
  ph_attrs :: "'v attr list"

text \<open>The options hold those of the embedded handler, of which the minimum level counts; without them it is \<^verbatim>\<open>Info\<close>.\<close>

record PrettyHandlerOptions =
  SlogOpts :: "slog_level option"

definition NewPrettyHandler :: "PrettyHandlerOptions \<Rightarrow> 'v PrettyHandler" where
  "NewPrettyHandler opts =
     \<lparr>ph_level = (case SlogOpts opts of None \<Rightarrow> LevelInfo | Some level \<Rightarrow> level), ph_groups = [], ph_attrs = []\<rparr>"

fun level_String :: "slog_level \<Rightarrow> string" where
  "level_String LevelDebug = ''DEBUG''"
| "level_String LevelInfo = ''INFO''"
| "level_String LevelWarn = ''WARN''"
| "level_String LevelError = ''ERROR''"

fun level_color :: "slog_level \<Rightarrow> string" where
  "level_color LevelDebug = ''Magenta''"
| "level_color LevelInfo = ''Blue''"
| "level_color LevelWarn = ''Yellow''"
| "level_color LevelError = ''Red''"

text \<open>The fields: the attributes of the record, overridden by those of the handler, later ones over earlier ones.\<close>

fun add_fields :: "'v attr list \<Rightarrow> (string \<Rightarrow> 'v option) \<Rightarrow> string \<Rightarrow> 'v option" where
  "add_fields [] m = m"
| "add_fields ((k, v) # attrs) m = add_fields attrs (m(k := Some v))"

definition record_fields :: "'v attr list \<Rightarrow> 'v attr list \<Rightarrow> string \<Rightarrow> 'v option" where
  "record_fields rs hs = add_fields hs (add_fields rs (\<lambda>_. None))"

text \<open>\<^verbatim>\<open>Handle\<close>: the error, or the line it prints.\<close>

definition Pretty_Handle :: "('v, 't) render_lib \<Rightarrow> 'v PrettyHandler \<Rightarrow> ('v, 't) slog_record \<Rightarrow> string result" where
  "Pretty_Handle lib h r =
     (let level = color_String lib (level_color (rec_level r)) (level_String (rec_level r) @ '':'');
          fields = record_fields (rec_attrs r) (ph_attrs h);
          b = (if rec_attrs r @ ph_attrs h \<noteq> [] then json_MarshalIndent lib fields else Inr [])
      in case b of
           Inl err \<Rightarrow> Inl (Errorf ''slogpretty: marshal fields: '' (Some err))
         | Inr bs \<Rightarrow> Inr (time_Format lib ''[15:05:05.000]'' (rec_time r) @ '' '' @ level @ '' '' @
             color_String lib ''Cyan'' (rec_message r) @ '' '' @ color_String lib ''White'' bs @ [CHR 0x0A]))"

definition Pretty_WithAttrs :: "'v attr list \<Rightarrow> 'v PrettyHandler \<Rightarrow> 'v PrettyHandler" where
  "Pretty_WithAttrs attrs h = \<lparr>ph_level = ph_level h, ph_groups = ph_groups h, ph_attrs = attrs\<rparr>"

definition Pretty_WithGroup :: "string \<Rightarrow> 'v PrettyHandler \<Rightarrow> 'v PrettyHandler" where
  "Pretty_WithGroup name h = \<lparr>ph_level = ph_level h, ph_groups = ph_groups h @ [name], ph_attrs = []\<rparr>"

section \<open>slogdiscard\<close>

datatype DiscardHandler = DiscardHandler

definition NewDiscardHandler :: DiscardHandler where "NewDiscardHandler = DiscardHandler"

text \<open>\<^verbatim>\<open>slog.New\<close> makes a logger of a handler.\<close>

fun logger_of :: "DiscardHandler \<Rightarrow> logger" where
  "logger_of DiscardHandler = DiscardLogger"

definition NewDiscardLogger :: logger where "NewDiscardLogger = logger_of NewDiscardHandler"

definition Discard_Handle :: "DiscardHandler \<Rightarrow> ('v, 't) slog_record \<Rightarrow> go_error option" where
  "Discard_Handle h r = None"

definition Discard_WithAttrs :: "'v attr list \<Rightarrow> DiscardHandler \<Rightarrow> DiscardHandler" where
  "Discard_WithAttrs attrs h = h"

definition Discard_WithGroup :: "string \<Rightarrow> DiscardHandler \<Rightarrow> DiscardHandler" where
  "Discard_WithGroup name h = h"

definition Discard_Enabled :: "DiscardHandler \<Rightarrow> slog_level \<Rightarrow> bool" where
  "Discard_Enabled h level = False"

section \<open>Attributes\<close>

lemma add_fields_map: "add_fields attrs m = m ++ map_of (rev attrs)"
proof (induction attrs arbitrary: m)
  case (Cons a attrs)
  obtain k v where a: "a = (k, v)" by fastforce
  have "m(k := Some v) ++ map_of (rev attrs) = m ++ map_of (rev (a # attrs))"
    by (auto simp: a map_add_def fun_eq_iff split: option.splits)
  with Cons.IH show ?case unfolding a add_fields.simps by (simp add: fun_upd_def)
qed simp

text \<open>The handler's attributes win over those of the record, and of two with one key the later one.\<close>

lemma record_fields_map: "record_fields rs hs = map_of (rev hs @ rev rs)"
  by (simp add: record_fields_def add_fields_map)

text \<open>
  Attributes are replaced, not added: of the attributes given to a logger in two steps only the second
  ones are printed, and none of them after a group is opened.
\<close>

lemma WithAttrs_replaces:
  "Pretty_Handle lib (Pretty_WithAttrs as2 (Pretty_WithAttrs as1 h)) r = Pretty_Handle lib (Pretty_WithAttrs as2 h) r"
  "Pretty_Handle lib (Pretty_WithGroup name (Pretty_WithAttrs as1 h)) r = Pretty_Handle lib (NewPrettyHandler level) r"
  by (simp_all add: Pretty_Handle_def Pretty_WithAttrs_def Pretty_WithGroup_def NewPrettyHandler_def)

end
